(* ===== verification/Unix_Prelude.thy ===== *)
theory Unix_Prelude
  imports Main "HOL-Library.Multiset"
begin

text \<open>
  Shared vocabulary of the development: the ways a C statement can fail, sequencing of
  fallible statements, access to a heap of structures through pointers, C strings and the
  decimal conversions of \<open>printf\<close> and \<open>atoi\<close>, and two generic results on
  transition systems that every concurrent component uses.
\<close>

named_theorems c_simps \<open>sequencing of fallible statements\<close>

section \<open>Faults and sequencing\<close>

text \<open>
  What can end a statement other than normal completion: the dereference of a null pointer, of
  an address that is not (or no longer) allocated, an access outside an array, a read of an
  object that was never assigned, signed arithmetic outside its range, the release of a lock
  nobody holds, a call that suspends the calling thread (the caller makes no step in that state),
  and \<open>exit\<close>.
\<close>

datatype c_fault =
    NullDeref
  | UseAfterFree
  | OutOfBounds
  | Uninitialised
  | Overflow
  | NotHeld
  | Blocks
  | Exits int

type_synonym 'a c = "c_fault + 'a"
type_synonym 's stmt = "'s \<Rightarrow> 's c"
type_synonym addr = nat

abbreviation newline :: char where
  "newline \<equiv> CHR 0x0A"

definition bindE :: "'e + 'a \<Rightarrow> ('a \<Rightarrow> 'e + 'b) \<Rightarrow> 'e + 'b" where
  "bindE m f = (case m of Inl e \<Rightarrow> Inl e | Inr x \<Rightarrow> f x)"

lemma bindE_Inl [simp, c_simps]: "bindE (Inl e) f = Inl e"
  by (simp add: bindE_def)

lemma bindE_Inr [simp, c_simps]: "bindE (Inr x) f = f x"
  by (simp add: bindE_def)

lemma bindE_eq_Inr [c_simps]: "bindE m f = Inr y \<longleftrightarrow> (\<exists>x. m = Inr x \<and> f x = Inr y)"
  by (cases m) auto

lemma bindE_eq_Inl: "bindE m f = Inl e \<longleftrightarrow> m = Inl e \<or> (\<exists>x. m = Inr x \<and> f x = Inl e)"
  by (cases m) auto

lemma bindE_assoc: "bindE (bindE m f) g = bindE m (\<lambda>x. bindE (f x) g)"
  by (cases m) auto

text \<open>A block of statements runs each in turn and stops at the first that does not complete.\<close>

fun run_stmts :: "'s stmt list \<Rightarrow> 's stmt" where
  "run_stmts [] s = Inr s"
| "run_stmts (f # fs) s = bindE (f s) (run_stmts fs)"

lemma bindE_skip [simp, c_simps]: "bindE m (run_stmts []) = m"
  by (cases m) simp_all

lemma run_stmts_append [c_simps]:
  "run_stmts (fs @ gs) s = bindE (run_stmts fs s) (run_stmts gs)"
proof (induction fs arbitrary: s)
  case Nil
  then show ?case by simp
next
  case (Cons f fs)
  then show ?case by (cases "f s") simp_all
qed

text \<open>
  \<open>safe_run R fs s\<close>: the block runs to its end from \<open>s\<close>, and every statement on the way relates
  the state before it to the state after it by \<open>R\<close>. \<open>hoare R P fs Q\<close> is the total correctness
  statement with that side condition.
\<close>

fun safe_run :: "('s \<Rightarrow> 's \<Rightarrow> bool) \<Rightarrow> 's stmt list \<Rightarrow> 's \<Rightarrow> bool" where
  "safe_run R [] s \<longleftrightarrow> True"
| "safe_run R (f # fs) s \<longleftrightarrow> (\<exists>s'. f s = Inr s' \<and> R s s' \<and> safe_run R fs s')"

definition hoare ::
  "('s \<Rightarrow> 's \<Rightarrow> bool) \<Rightarrow> ('s \<Rightarrow> bool) \<Rightarrow> 's stmt list \<Rightarrow> ('s \<Rightarrow> bool) \<Rightarrow> bool" where
  "hoare R P fs Q \<longleftrightarrow>
     (\<forall>s. P s \<longrightarrow> safe_run R fs s \<and> (\<exists>s'. run_stmts fs s = Inr s' \<and> Q s'))"

lemma safe_run_append:
  "safe_run R fs s \<Longrightarrow> run_stmts fs s = Inr s' \<Longrightarrow> safe_run R gs s' \<Longrightarrow> safe_run R (fs @ gs) s"
  by (induction fs arbitrary: s) (auto simp: c_simps)

lemma hoareI:
  "(\<And>s. P s \<Longrightarrow> safe_run R fs s \<and> (\<exists>s'. run_stmts fs s = Inr s' \<and> Q s')) \<Longrightarrow> hoare R P fs Q"
  by (simp add: hoare_def)

lemma hoareD:
  "hoare R P fs Q \<Longrightarrow> P s \<Longrightarrow> safe_run R fs s \<and> (\<exists>s'. run_stmts fs s = Inr s' \<and> Q s')"
  by (simp add: hoare_def)

lemma hoare_stmt:
  "(\<And>s. P s \<Longrightarrow> \<exists>s'. f s = Inr s' \<and> R s s' \<and> Q s') \<Longrightarrow> hoare R P [f] Q"
  unfolding hoare_def by fastforce

lemma hoare_append: "hoare R P fs Q \<Longrightarrow> hoare R Q gs T \<Longrightarrow> hoare R P (fs @ gs) T"
  unfolding hoare_def by (fastforce simp: c_simps intro: safe_run_append)

lemma hoare_for:
  assumes "\<And>i. i < n \<Longrightarrow> hoare R (J i) (f i) (J (Suc i))"
  shows "hoare R (J 0) (concat (map f [0..<n])) (J n)"
  using assms
proof (induction n)
  case 0
  then show ?case by (simp add: hoare_def)
next
  case (Suc n)
  then have "hoare R (J 0) (concat (map f [0..<n]) @ f n) (J (Suc n))"
    by (intro hoare_append [of R "J 0" _ "J n"]) auto
  then show ?case by simp
qed

section \<open>Pointers\<close>

text \<open>
  A heap of structures of one type maps allocated addresses to their contents; a pointer is an
  address or \<open>NULL\<close>, which is \<open>None\<close>.
\<close>

definition deref :: "(addr \<rightharpoonup> 'v) \<Rightarrow> addr option \<Rightarrow> 'v c" where
  "deref h p = (case p of None \<Rightarrow> Inl NullDeref
                | Some a \<Rightarrow> (case h a of None \<Rightarrow> Inl UseAfterFree | Some v \<Rightarrow> Inr v))"

definition store :: "addr option \<Rightarrow> ('v \<Rightarrow> 'v) \<Rightarrow> (addr \<rightharpoonup> 'v) \<Rightarrow> (addr \<rightharpoonup> 'v) c" where
  "store p f h = (case p of None \<Rightarrow> Inl NullDeref
                 | Some a \<Rightarrow> (case h a of None \<Rightarrow> Inl UseAfterFree | Some v \<Rightarrow> Inr (h(a \<mapsto> f v))))"

lemma deref_simps [simp]:
  "deref h None = Inl NullDeref"
  "h a = None \<Longrightarrow> deref h (Some a) = Inl UseAfterFree"
  "h a = Some v \<Longrightarrow> deref h (Some a) = Inr v"
  by (simp_all add: deref_def)

lemma store_simps [simp]:
  "store None f h = Inl NullDeref"
  "h a = None \<Longrightarrow> store (Some a) f h = Inl UseAfterFree"
  "h a = Some v \<Longrightarrow> store (Some a) f h = Inr (h(a \<mapsto> f v))"
  by (simp_all add: store_def)

text \<open>An access to an array of fixed length.\<close>

definition aget :: "'a list \<Rightarrow> nat \<Rightarrow> 'a c" where
  "aget xs i = (if i < length xs then Inr (xs ! i) else Inl OutOfBounds)"

definition aset :: "'a list \<Rightarrow> nat \<Rightarrow> 'a \<Rightarrow> 'a list c" where
  "aset xs i v = (if i < length xs then Inr (xs[i := v]) else Inl OutOfBounds)"

lemma aget_in [simp]: "i < length xs \<Longrightarrow> aget xs i = Inr (xs ! i)"
  by (simp add: aget_def)

lemma aset_in [simp]: "i < length xs \<Longrightarrow> aset xs i v = Inr (xs[i := v])"
  by (simp add: aset_def)

section \<open>Threads\<close>

text \<open>
  A thread is the statement it makes next in each state. One that has to wait makes no step; any
  other fault, \<open>exit\<close> included, ends the process, and \<open>crash\<close> notes it in the state.
\<close>

definition thread_step :: "(c_fault \<Rightarrow> 's \<Rightarrow> 's) \<Rightarrow> 's stmt \<Rightarrow> 's \<Rightarrow> 's \<Rightarrow> bool" where
  "thread_step crash f s s' = (case f s of Inr t \<Rightarrow> s' = t | Inl x \<Rightarrow> x \<noteq> Blocks \<and> s' = crash x s)"

lemma thread_step_moves: "f s \<noteq> Inl Blocks \<Longrightarrow> \<exists>s'. thread_step crash f s s'"
  by (cases "f s") (auto simp: thread_step_def)

lemma thread_step_blocked: "f s = Inl Blocks \<Longrightarrow> \<not> thread_step crash f s s'"
  by (simp add: thread_step_def)

lemma thread_step_Inr: "f s = Inr t \<Longrightarrow> thread_step crash f s s' \<longleftrightarrow> s' = t"
  by (simp add: thread_step_def)

section \<open>Transition systems\<close>

text \<open>
  An invariant of a transition system: it holds initially and every step keeps it, so it holds
  in every state that can be reached.
\<close>

locale inductive_invariant =
  fixes init :: "'s \<Rightarrow> bool"
    and step :: "'s \<Rightarrow> 's \<Rightarrow> bool"
    and inv :: "'s \<Rightarrow> bool"
  assumes inv_init: "init s \<Longrightarrow> inv s"
    and inv_step: "inv s \<Longrightarrow> step s t \<Longrightarrow> inv t"
begin

lemma inv_steps:
  assumes "step\<^sup>*\<^sup>* s t" and "inv s"
  shows "inv t"
  using assms by (induction rule: rtranclp_induct) (auto intro: inv_step)

lemma inv_reachable: "init s \<Longrightarrow> step\<^sup>*\<^sup>* s t \<Longrightarrow> inv t"
  by (blast intro: inv_init inv_steps)

end

text \<open>
  A system that decreases a measure at every step cannot run forever, and from every state that
  satisfies its invariant some stuck state is reached.
\<close>

locale terminating_system = inductive_invariant +
  fixes msr :: "'a \<Rightarrow> nat"
  assumes msr_step: "inv s \<Longrightarrow> step s t \<Longrightarrow> msr t < msr s"
begin

lemma reaches_stuck:
  assumes "inv s"
  shows "\<exists>t. step\<^sup>*\<^sup>* s t \<and> inv t \<and> (\<forall>u. \<not> step t u)"
  using assms
proof (induction "msr s" arbitrary: s rule: less_induct)
  case less
  show ?case
  proof (cases "\<exists>u. step s u")
    case True
    then obtain u where u: "step s u" ..
    with less.prems have "msr u < msr s" and "inv u"
      by (auto intro: msr_step inv_step)
    with less.hyps obtain t where "step\<^sup>*\<^sup>* u t" "inv t" "\<forall>v. \<not> step t v"
      by blast
    with u show ?thesis
      by (blast intro: converse_rtranclp_into_rtranclp)
  next
    case False
    with less.prems show ?thesis by blast
  qed
qed

lemma run_length:
  assumes "(step ^^ n) s t" and "inv s"
  shows "n + msr t \<le> msr s"
  using assms
proof (induction n arbitrary: t)
  case 0
  then show ?case by simp
next
  case (Suc n)
  then obtain u where u: "(step ^^ n) s u" "step u t"
    by auto
  then have "inv u"
    using Suc.prems(2) by (blast intro: inv_steps relpowp_imp_rtranclp)
  with u have "msr t < msr u"
    by (blast intro: msr_step)
  moreover have "n + msr u \<le> msr s"
    using Suc.IH u(1) Suc.prems(2) by blast
  ultimately show ?case by simp
qed

end

end
