(* ===== verification/C_Text.thy ===== *)
theory C_Text
  imports Unix_Prelude
begin

text \<open>
  The conversions between numbers and text that the programs use: the \<open>%d\<close> and \<open>%ld\<close>
  conversions of \<open>printf\<close> and the reading of a decimal number by \<open>atoi\<close>.
\<close>

definition digit :: "nat \<Rightarrow> char" where
  "digit d = char_of (48 + d)"

definition digit_val :: "char \<Rightarrow> nat option" where
  "digit_val c = (let k = of_char c :: nat in if 48 \<le> k \<and> k \<le> 57 then Some (k - 48) else None)"

fun dec_nat :: "nat \<Rightarrow> string" where
  "dec_nat n = (if n < 10 then [digit n] else dec_nat (n div 10) @ [digit (n mod 10)])"

declare dec_nat.simps [simp del]

definition dec :: "int \<Rightarrow> string" where
  "dec i = (if i < 0 then CHR ''-'' # dec_nat (nat (- i)) else dec_nat (nat i))"

text \<open>\<open>atoi\<close> on a text without leading space: a sign, then the longest run of digits.\<close>

fun read_digits :: "nat \<Rightarrow> string \<Rightarrow> nat" where
  "read_digits acc [] = acc"
| "read_digits acc (c # cs) =
     (case digit_val c of None \<Rightarrow> acc | Some d \<Rightarrow> read_digits (10 * acc + d) cs)"

definition atoi :: "string \<Rightarrow> int" where
  "atoi cs = (case cs of [] \<Rightarrow> 0
     | c # r \<Rightarrow> if c = CHR ''-'' then - int (read_digits 0 r)
                else if c = CHR ''+'' then int (read_digits 0 r)
                else int (read_digits 0 cs))"

text \<open>The range of \<open>int\<close>.\<close>

definition in_int :: "int \<Rightarrow> bool" where
  "in_int x \<longleftrightarrow> - (2 ^ 31) \<le> x \<and> x < 2 ^ 31"

lemma of_char_digit: "d < 10 \<Longrightarrow> of_char (digit d) = 48 + d"
  by (simp add: digit_def)

lemma digit_val_digit [simp]: "d < 10 \<Longrightarrow> digit_val (digit d) = Some d"
  by (simp add: digit_val_def of_char_digit)

lemma dec_nat_nonempty [simp]: "dec_nat n \<noteq> []"
  by (subst dec_nat.simps) simp

lemma dec_nat_digits:
  assumes "c \<in> set (dec_nat n)"
  shows "\<exists>d<10. c = digit d"
  using assms
proof (induction n rule: dec_nat.induct)
  case (1 n)
  show ?case
  proof (cases "n < 10")
    case True
    with "1.prems" show ?thesis by (auto simp: dec_nat.simps [of n])
  next
    case False
    with "1.prems" have "c \<in> set (dec_nat (n div 10)) \<or> c = digit (n mod 10)"
      by (auto simp: dec_nat.simps [of n])
    with "1.IH" False show ?thesis by (auto intro: exI [of _ "n mod 10"])
  qed
qed

lemma read_digits_append:
  assumes "\<forall>c \<in> set cs. \<exists>d<10. c = digit d"
  shows "read_digits acc (cs @ ds) = read_digits (read_digits acc cs) ds"
  using assms by (induction cs arbitrary: acc) auto

lemma read_digits_dec_nat: "read_digits 0 (dec_nat n) = n"
proof (induction n rule: dec_nat.induct)
  case (1 n)
  show ?case
  proof (cases "n < 10")
    case True
    then show ?thesis by (simp add: dec_nat.simps [of n])
  next
    case False
    have "read_digits 0 (dec_nat n)
        = read_digits (read_digits 0 (dec_nat (n div 10))) [digit (n mod 10)]"
      using False dec_nat_digits
      by (simp add: dec_nat.simps [of n] read_digits_append)
    with 1 False show ?thesis by simp
  qed
qed

lemma dec_nat_hd_not_sign:
  "hd (dec_nat n) \<noteq> CHR ''-'' \<and> hd (dec_nat n) \<noteq> CHR ''+''"
proof -
  obtain d where "d < 10" and d: "hd (dec_nat n) = digit d"
    using dec_nat_digits [of "hd (dec_nat n)" n] by auto
  have "of_char (digit d) = 48 + d" using \<open>d < 10\<close> by (rule of_char_digit)
  then have "digit d \<noteq> CHR ''-'' \<and> digit d \<noteq> CHR ''+''" by auto
  with d show ?thesis by simp
qed

text \<open>Reading back a printed number gives the number: \<open>dec\<close> loses nothing.\<close>

lemma atoi_dec: "atoi (dec i) = i"
proof (cases "i < 0")
  case True
  then show ?thesis by (simp add: dec_def atoi_def read_digits_dec_nat)
next
  case False
  obtain c cs where cs: "dec_nat (nat i) = c # cs"
    by (cases "dec_nat (nat i)") auto
  with dec_nat_hd_not_sign [of "nat i"] have "c \<noteq> CHR ''-''" "c \<noteq> CHR ''+''"
    by auto
  with False cs read_digits_dec_nat [of "nat i"] show ?thesis
    by (simp add: dec_def atoi_def del: read_digits.simps)
qed

lemma dec_inj: "dec i = dec j \<longleftrightarrow> i = j"
  by (metis atoi_dec)

text \<open>A number below \<open>10 ^ k\<close> prints in at most \<open>k\<close> digits.\<close>

lemma length_dec_nat: "0 < k \<Longrightarrow> n < 10 ^ k \<Longrightarrow> length (dec_nat n) \<le> k"
proof (induction k arbitrary: n)
  case 0
  then show ?case by simp
next
  case (Suc k)
  show ?case
  proof (cases "n < 10")
    case True
    then show ?thesis by (simp add: dec_nat.simps [of n])
  next
    case False
    with Suc.prems have "0 < k" by (cases k) auto
    moreover have "n div 10 < 10 ^ k" using Suc.prems by (simp add: less_mult_imp_div_less mult.commute)
    ultimately have "length (dec_nat (n div 10)) \<le> k" by (rule Suc.IH)
    with False show ?thesis by (simp add: dec_nat.simps [of n])
  qed
qed

lemma dec_nat_inj: "dec_nat m = dec_nat n \<longleftrightarrow> m = n"
  using dec_inj [of "int m" "int n"] by (simp add: dec_def)

lemma dec_no_nul: "CHR 0x00 \<notin> set (dec i)"
proof -
  have "digit_val (CHR 0x00) = None" by (simp add: digit_val_def)
  then have "CHR 0x00 \<noteq> digit d" if "d < 10" for d using digit_val_digit [OF that] by auto
  then have "CHR 0x00 \<notin> set (dec_nat n)" for n using dec_nat_digits by blast
  then show ?thesis by (simp add: dec_def)
qed

end
