(* ===== verification/Job_Queue.thy ===== *)
theory Job_Queue
  imports C_Text
begin

text \<open>
  The job queue of \<open>pthread/job_queue.c\<close>: a doubly linked list of jobs protected by a
  read-write lock. The heap of jobs is explicit, so that the pointer updates of the source are
  modelled one by one; a statement that follows a null or dangling pointer is a fault.
\<close>

section \<open>Data and lock\<close>

record job =
  j_id :: int
  j_prev :: "addr option"
  j_next :: "addr option"

datatype rwlock = Free | ReadHeld nat | WriteHeld

text \<open>
  The state the code works on: the fields of \<open>struct queue\<close>, the heap of jobs, the global
  array \<open>jp_arr\<close> and what was printed.
\<close>

record jq =
  q_lock :: rwlock
  q_head :: "addr option"
  q_tail :: "addr option"
  jobs :: "addr \<rightharpoonup> job"
  jp_arr :: "addr option list"
  out :: string

definition NJOBS :: nat where
  "NJOBS = 20"

text \<open>
  \<open>pthread_rwlock_wrlock\<close>, \<open>pthread_rwlock_rdlock\<close> and \<open>pthread_rwlock_unlock\<close>: a caller
  that cannot take the lock is suspended, and releasing a free lock is undefined.
\<close>

definition wrlock :: "jq stmt" where
  "wrlock s = (case q_lock s of Free \<Rightarrow> Inr (s\<lparr>q_lock := WriteHeld\<rparr>) | _ \<Rightarrow> Inl Blocks)"

definition rdlock :: "jq stmt" where
  "rdlock s = (case q_lock s of Free \<Rightarrow> Inr (s\<lparr>q_lock := ReadHeld 1\<rparr>)
               | ReadHeld n \<Rightarrow> Inr (s\<lparr>q_lock := ReadHeld (Suc n)\<rparr>)
               | WriteHeld \<Rightarrow> Inl Blocks)"

definition unlock :: "jq stmt" where
  "unlock s = (case q_lock s of ReadHeld n \<Rightarrow> Inr (s\<lparr>q_lock := (if n \<le> 1 then Free else ReadHeld (n - 1))\<rparr>)
               | WriteHeld \<Rightarrow> Inr (s\<lparr>q_lock := Free\<rparr>) | Free \<Rightarrow> Inl NotHeld)"

section \<open>Operations\<close>

text \<open>
  \<open>queue_init\<close>, given what \<open>pthread_rwlock_init\<close> returns: the pointers are cleared in any
  case, the lock only exists when the call succeeded.
\<close>

definition queue_init :: "int \<Rightarrow> jq \<Rightarrow> jq \<times> int" where
  "queue_init init_err s =
     (let s1 = s\<lparr>q_head := None, q_tail := None\<rparr>
      in if init_err \<noteq> 0 then (s1, init_err) else (s1\<lparr>q_lock := Free\<rparr>, 0))"

text \<open>Assignments through a job pointer.\<close>

definition set_prev :: "addr option \<Rightarrow> addr option \<Rightarrow> jq stmt" where
  "set_prev p v s = bindE (store p (\<lambda>j. j\<lparr>j_prev := v\<rparr>) (jobs s)) (\<lambda>h. Inr (s\<lparr>jobs := h\<rparr>))"

definition set_next :: "addr option \<Rightarrow> addr option \<Rightarrow> jq stmt" where
  "set_next p v s = bindE (store p (\<lambda>j. j\<lparr>j_next := v\<rparr>) (jobs s)) (\<lambda>h. Inr (s\<lparr>jobs := h\<rparr>))"

text \<open>The statements of \<open>job_insert\<close> between lock and unlock: insert a job at the head.\<close>

definition job_insert_body :: "addr option \<Rightarrow> jq stmt list" where
  "job_insert_body jp =
    [\<lambda>s. set_next jp (q_head s) s,
     \<lambda>s. set_prev jp None s,
     \<lambda>s. if q_head s \<noteq> None then set_prev (q_head s) jp s else Inr (s\<lparr>q_tail := jp\<rparr>),
     \<lambda>s. Inr (s\<lparr>q_head := jp\<rparr>)]"

definition job_insert :: "addr option \<Rightarrow> jq stmt list" where
  "job_insert jp = [wrlock] @ job_insert_body jp @ [unlock]"

definition job_append_body :: "addr option \<Rightarrow> jq stmt list" where
  "job_append_body jp =
    [\<lambda>s. set_prev jp (q_tail s) s,
     \<lambda>s. set_next jp None s,
     \<lambda>s. if q_tail s \<noteq> None then set_next (q_tail s) jp s else Inr (s\<lparr>q_head := jp\<rparr>),
     \<lambda>s. Inr (s\<lparr>q_tail := jp\<rparr>)]"

definition job_append :: "addr option \<Rightarrow> jq stmt list" where
  "job_append jp = [wrlock] @ job_append_body jp @ [unlock]"

text \<open>
  \<open>job_remove\<close>: the three-way distinction of the source, with its inner tests. The branches are
  blocks of their own, so each assignment is one statement.
\<close>

definition job_remove_body :: "addr option \<Rightarrow> jq stmt" where
  "job_remove_body jp s =
    (if jp = q_head s then
       run_stmts
        [\<lambda>s. bindE (deref (jobs s) jp) (\<lambda>j. Inr (s\<lparr>q_head := j_next j\<rparr>)),
         \<lambda>s. if q_tail s = jp then Inr (s\<lparr>q_tail := None\<rparr>)
             else bindE (deref (jobs s) jp) (\<lambda>j. set_prev (j_next j) None s)] s
     else if jp = q_tail s then
       run_stmts
        [\<lambda>s. bindE (deref (jobs s) jp) (\<lambda>j. Inr (s\<lparr>q_tail := j_prev j\<rparr>)),
         \<lambda>s. if jp = q_head s then Inr (s\<lparr>q_head := None\<rparr>)
             else bindE (deref (jobs s) jp) (\<lambda>j. set_next (j_prev j) None s)] s
     else
       run_stmts
        [\<lambda>s. bindE (deref (jobs s) jp) (\<lambda>j. set_next (j_prev j) (j_next j) s),
         \<lambda>s. bindE (deref (jobs s) jp) (\<lambda>j. set_prev (j_next j) (j_prev j) s)] s)"

definition job_remove :: "addr option \<Rightarrow> jq stmt list" where
  "job_remove jp = [wrlock, job_remove_body jp, unlock]"

text \<open>
  The search loop follows \<open>j_next\<close> until it reaches \<open>NULL\<close> or the wanted id. On a cyclic list
  it would not end, which is the outer \<open>None\<close>.
\<close>

partial_function (option) find_loop ::
  "(addr \<rightharpoonup> job) \<Rightarrow> int \<Rightarrow> addr option \<Rightarrow> (addr option) c option" where
  "find_loop h i p =
     (case p of None \<Rightarrow> Some (Inr None)
      | Some a \<Rightarrow> (case h a of None \<Rightarrow> Some (Inl UseAfterFree)
          | Some j \<Rightarrow> (if j_id j = i then Some (Inr p) else find_loop h i (j_next j))))"

text \<open>
  \<open>job_find\<close>, given what \<open>pthread_rwlock_rdlock\<close> returns when it does not suspend the caller.
\<close>

definition job_find :: "int \<Rightarrow> int \<Rightarrow> jq \<Rightarrow> (addr option \<times> jq) c option" where
  "job_find rd_err i s =
     (if rd_err \<noteq> 0 then Some (Inr (None, s))
      else case rdlock s of Inl e \<Rightarrow> Some (Inl e)
      | Inr s1 \<Rightarrow> map_option (\<lambda>r. bindE r (\<lambda>p. bindE (unlock s1) (\<lambda>s2. Inr (p, s2))))
                    (find_loop (jobs s1) i (q_head s1)))"

partial_function (option) print_loop ::
  "(addr \<rightharpoonup> job) \<Rightarrow> string \<Rightarrow> addr option \<Rightarrow> string c option" where
  "print_loop h acc p =
     (case p of None \<Rightarrow> Some (Inr acc)
      | Some a \<Rightarrow> (case h a of None \<Rightarrow> Some (Inl UseAfterFree)
          | Some j \<Rightarrow> print_loop h (acc @ '' '' @ dec (j_id j)) (j_next j)))"

definition traverse_jobs :: "int \<Rightarrow> jq \<Rightarrow> jq c option" where
  "traverse_jobs rd_err s =
     (if rd_err \<noteq> 0 then Some (Inl (Exits (-1)))
      else case rdlock s of Inl e \<Rightarrow> Some (Inl e)
      | Inr s1 \<Rightarrow> map_option
          (\<lambda>r. bindE r (\<lambda>txt. unlock (s1\<lparr>out := txt @ [CHR 0x0A]\<rparr>)))
          (print_loop (jobs s1) (out s1 @ ''delay before traversing'' @ [CHR 0x0A] @ ''Queue:'')
             (q_head s1)))"

section \<open>The list a queue represents\<close>

text \<open>
  \<open>seg h pv xs nx\<close>: the addresses \<open>xs\<close> form a doubly linked segment in the heap, whose first
  element points back to \<open>pv\<close> and whose last element points on to \<open>nx\<close>.
\<close>

primrec first_or :: "addr option \<Rightarrow> addr list \<Rightarrow> addr option" where
  "first_or nx [] = nx"
| "first_or nx (a # as) = Some a"

definition last_or :: "addr option \<Rightarrow> addr list \<Rightarrow> addr option" where
  "last_or pv xs = (if xs = [] then pv else Some (last xs))"

primrec seg :: "(addr \<rightharpoonup> job) \<Rightarrow> addr option \<Rightarrow> addr list \<Rightarrow> addr option \<Rightarrow> bool" where
  "seg h pv [] nx = True"
| "seg h pv (a # as) nx =
     (\<exists>j. h a = Some j \<and> j_prev j = pv \<and> j_next j = first_or nx as \<and> seg h (Some a) as nx)"

text \<open>The queue represents \<open>xs\<close>: head and tail point to its ends and the links run through it.\<close>

definition queue_rep :: "jq \<Rightarrow> addr list \<Rightarrow> bool" where
  "queue_rep s xs \<longleftrightarrow> distinct xs \<and> q_head s = first_or None xs \<and> q_tail s = last_or None xs
     \<and> seg (jobs s) None xs None"

lemma last_or_simps [simp]:
  "last_or pv [] = pv"
  "last_or pv (xs @ [a]) = Some a"
  "last_or pv (a # xs) = last_or (Some a) xs"
  by (simp_all add: last_or_def)

lemma last_or_append [simp]: "last_or pv (xs @ ys) = last_or (last_or pv xs) ys"
  by (simp add: last_or_def)

lemma first_or_append [simp]: "first_or nx (xs @ ys) = first_or (first_or nx ys) xs"
  by (cases xs) simp_all

lemma first_or_None_iff [simp]: "first_or None xs = None \<longleftrightarrow> xs = []"
  by (cases xs) simp_all

lemma last_or_None_iff [simp]: "last_or None xs = None \<longleftrightarrow> xs = []"
  by (simp add: last_or_def)

lemma first_or_SomeD: "first_or nx xs = Some a \<Longrightarrow> a \<in> set xs \<or> nx = Some a"
  by (cases xs) simp_all

lemma first_or_in: "first_or None xs = Some a \<Longrightarrow> a \<in> set xs"
  by (cases xs) simp_all

lemma last_or_in: "last_or None xs = Some a \<Longrightarrow> a \<in> set xs"
  by (auto simp: last_or_def split: if_splits)

lemma seg_append [simp]:
  "seg h pv (xs @ ys) nx \<longleftrightarrow> seg h pv xs (first_or nx ys) \<and> seg h (last_or pv xs) ys nx"
  by (induction xs arbitrary: pv) auto

text \<open>A heap holds at most one list from a given pointer.\<close>

lemma seg_unique:
  "seg h pv xs None \<Longrightarrow> seg h pv ys None \<Longrightarrow> first_or None xs = first_or None ys \<Longrightarrow> xs = ys"
proof (induction xs arbitrary: pv ys)
  case Nil
  then show ?case by (cases ys) simp_all
next
  case (Cons a xs)
  then obtain zs where ys: "ys = a # zs" by (cases ys) simp_all
  with Cons.prems have "xs = zs" by (intro Cons.IH [of "Some a" zs]) auto
  with ys show ?case by simp
qed

lemma queue_rep_unique: "queue_rep s xs \<Longrightarrow> queue_rep s ys \<Longrightarrow> xs = ys"
  unfolding queue_rep_def by (metis seg_unique)

text \<open>Frame: an update outside the segment does not touch it.\<close>

lemma seg_upd [simp]: "a \<notin> set xs \<Longrightarrow> seg (h(a := v)) pv xs nx = seg h pv xs nx"
  by (induction xs arbitrary: pv) auto

lemma seg_alloc: "seg h pv xs nx \<Longrightarrow> a \<in> set xs \<Longrightarrow> \<exists>j. h a = Some j"
  by (induction xs arbitrary: pv) auto

text \<open>Only the pointers at the two ends of a segment mention its neighbours.\<close>

lemma seg_set_prev_first:
  assumes "seg h pv (a # as) nx" and "a \<notin> set as" and "h a = Some j"
  shows "seg (h(a \<mapsto> j\<lparr>j_prev := pv'\<rparr>)) pv' (a # as) nx"
  using assms by simp

lemma seg_set_next_last:
  assumes "seg h pv (as @ [a]) nx" and "a \<notin> set as" and "h a = Some j"
  shows "seg (h(a \<mapsto> j\<lparr>j_next := nx'\<rparr>)) pv (as @ [a]) nx'"
  using assms by simp

text \<open>The fields an operation leaves alone.\<close>

definition same_ids :: "(addr \<rightharpoonup> job) \<Rightarrow> (addr \<rightharpoonup> job) \<Rightarrow> bool" where
  "same_ids h h' \<longleftrightarrow> (\<forall>a. map_option j_id (h' a) = map_option j_id (h a))"

lemma same_ids_refl [simp]: "same_ids h h"
  by (simp add: same_ids_def)

lemma same_ids_trans: "same_ids h h' \<Longrightarrow> same_ids h' h'' \<Longrightarrow> same_ids h h''"
  by (simp add: same_ids_def)

lemma same_ids_upd: "same_ids h h' \<Longrightarrow> h' a = Some j \<Longrightarrow> j_id j' = j_id j \<Longrightarrow> same_ids h (h'(a \<mapsto> j'))"
  unfolding same_ids_def by (metis fun_upd_apply option.simps(9))

lemmas queue_stmts = wrlock_def unlock_def set_prev_def set_next_def c_simps

section \<open>Each operation on a represented queue\<close>

text \<open>
  What every operation promises: it returns, the queue represents the new list, the lock is
  free again, and ids, array and output are as before.
\<close>

definition op_post :: "jq \<Rightarrow> addr list \<Rightarrow> jq \<Rightarrow> bool" where
  "op_post s xs s' \<longleftrightarrow> queue_rep s' xs \<and> q_lock s' = Free \<and> same_ids (jobs s) (jobs s')
     \<and> jp_arr s' = jp_arr s \<and> out s' = out s"

lemma job_insert_rep:
  assumes rep: "queue_rep s xs" and free: "q_lock s = Free" and new: "a \<notin> set xs"
    and alloc: "jobs s a = Some j"
  shows "\<exists>s'. run_stmts (job_insert (Some a)) s = Inr s' \<and> op_post s (a # xs) s'"
proof (cases xs)
  case Nil
  with assms show ?thesis
    by (simp add: job_insert_def job_insert_body_def queue_stmts queue_rep_def op_post_def)
      (simp add: same_ids_def)
next
  case (Cons b ys)
  with rep obtain k where "jobs s b = Some k"
    by (auto simp: queue_rep_def)
  with Cons assms show ?thesis
    by (simp add: job_insert_def job_insert_body_def queue_stmts queue_rep_def op_post_def)
      (auto simp add: same_ids_def)
qed

lemma job_append_rep:
  assumes rep: "queue_rep s xs" and free: "q_lock s = Free" and new: "a \<notin> set xs"
    and alloc: "jobs s a = Some j"
  shows "\<exists>s'. run_stmts (job_append (Some a)) s = Inr s' \<and> op_post s (xs @ [a]) s'"
proof (cases xs rule: rev_cases)
  case Nil
  with assms show ?thesis
    by (simp add: job_append_def job_append_body_def queue_stmts queue_rep_def op_post_def)
      (simp add: same_ids_def)
next
  case (snoc ys b)
  with rep obtain k where "jobs s b = Some k"
    by (auto simp: queue_rep_def)
  with snoc assms show ?thesis
    by (simp add: job_append_def job_append_body_def queue_stmts queue_rep_def op_post_def)
      (auto simp add: same_ids_def)
qed

text \<open>
  Removal distinguishes the four positions a job can have. The inner test of the source's second
  branch (the job is head and tail) can never succeed there.
\<close>

lemma job_remove_rep:
  assumes rep: "queue_rep s (ys @ a # zs)" and free: "q_lock s = Free"
  shows "\<exists>s'. run_stmts (job_remove (Some a)) s = Inr s' \<and> op_post s (ys @ zs) s'"
proof -
  from rep obtain j where j: "jobs s a = Some j" "j_prev j = last_or None ys"
      "j_next j = first_or None zs"
    by (auto simp: queue_rep_def)
  consider (only) "ys = []" "zs = []" | (front) z zs' where "ys = []" "zs = z # zs'"
    | (rear) y ys' where "ys = ys' @ [y]" "zs = []"
    | (mid) y ys' z zs' where "ys = ys' @ [y]" "zs = z # zs'"
    by (metis neq_Nil_conv rev_exhaust)
  then show ?thesis
  proof cases
    case only
    with assms j show ?thesis
      by (simp add: job_remove_def job_remove_body_def queue_stmts queue_rep_def op_post_def)
  next
    case front
    with rep obtain k where "jobs s z = Some k" by (auto simp: queue_rep_def)
    with front assms j show ?thesis
      by (simp add: job_remove_def job_remove_body_def queue_stmts queue_rep_def op_post_def)
        (auto simp: same_ids_def last_or_def)
  next
    case rear
    with rep obtain k where "jobs s y = Some k" by (auto simp: queue_rep_def)
    with rear assms j show ?thesis
      by (cases ys')
        (simp_all add: job_remove_def job_remove_body_def queue_stmts queue_rep_def op_post_def
           same_ids_def, auto)
  next
    case mid
    with rep obtain k l where kl: "jobs s y = Some k" "jobs s z = Some l"
      by (auto simp: queue_rep_def)
    have "first_or None (ys @ a # zs) \<noteq> Some a" "last_or None (ys @ a # zs) \<noteq> Some a"
      using rep mid
      by (auto simp: queue_rep_def last_or_def dest!: first_or_SomeD split: if_splits)
    with mid kl assms j show ?thesis
      by (simp add: job_remove_def job_remove_body_def queue_stmts queue_rep_def op_post_def
           same_ids_def)
  qed
qed

text \<open>The loops over \<open>j_next\<close> return on every represented queue.\<close>

lemma find_loop_seg:
  assumes "seg h pv xs None"
  shows "find_loop h i (first_or None xs)
    = Some (Inr (find (\<lambda>a. map_option j_id (h a) = Some i) xs))"
  using assms
proof (induction xs arbitrary: pv)
  case Nil
  then show ?case by (simp add: find_loop.simps)
next
  case (Cons a xs)
  then show ?case by (auto simp: find_loop.simps [of h i "Some a"])
qed

lemma print_loop_seg:
  assumes "seg h pv xs None"
  shows "print_loop h acc (first_or None xs)
    = Some (Inr (acc @ concat (map (\<lambda>a. '' '' @ dec (j_id (the (h a)))) xs)))"
  using assms
proof (induction xs arbitrary: pv acc)
  case Nil
  then show ?case by (simp add: print_loop.simps)
next
  case (Cons a xs)
  then show ?case by (auto simp: print_loop.simps [of h acc "Some a"])
qed

section \<open>The queue as a list of addresses\<close>

text \<open>
  The contract of the queue: three operations on a list of jobs. \<open>legal\<close> is what a caller must
  ensure: a job is queued once, and only queued jobs are removed.
\<close>

datatype qop = QInsert addr | QAppend addr | QRemove addr

fun op_addr :: "qop \<Rightarrow> addr" where
  "op_addr (QInsert a) = a"
| "op_addr (QAppend a) = a"
| "op_addr (QRemove a) = a"

fun spec_op :: "qop \<Rightarrow> addr list \<Rightarrow> addr list" where
  "spec_op (QInsert a) xs = a # xs"
| "spec_op (QAppend a) xs = xs @ [a]"
| "spec_op (QRemove a) xs = remove1 a xs"

fun legal :: "qop \<Rightarrow> addr list \<Rightarrow> bool" where
  "legal (QInsert a) xs = (a \<notin> set xs)"
| "legal (QAppend a) xs = (a \<notin> set xs)"
| "legal (QRemove a) xs = (a \<in> set xs)"

fun legal_run :: "qop list \<Rightarrow> addr list \<Rightarrow> bool" where
  "legal_run [] xs = True"
| "legal_run (p # ps) xs = (legal p xs \<and> legal_run ps (spec_op p xs))"

locale job_list =
  fixes exec :: "qop \<Rightarrow> 's \<Rightarrow> 's c"
    and rep :: "'s \<Rightarrow> addr list \<Rightarrow> bool"
    and alloc :: "'s \<Rightarrow> addr set"
  assumes exec_op: "rep s xs \<Longrightarrow> legal p xs \<Longrightarrow> op_addr p \<in> alloc s \<Longrightarrow>
    \<exists>s'. exec p s = Inr s' \<and> rep s' (spec_op p xs) \<and> alloc s' = alloc s"
begin

lemma exec_run:
  "rep s xs \<Longrightarrow> legal_run ps xs \<Longrightarrow> op_addr ` set ps \<subseteq> alloc s \<Longrightarrow>
    \<exists>s'. run_stmts (map exec ps) s = Inr s' \<and> rep s' (fold spec_op ps xs) \<and> alloc s' = alloc s"
proof (induction ps arbitrary: s xs)
  case Nil
  then show ?case by simp
next
  case (Cons p ps)
  then obtain s1 where s1: "exec p s = Inr s1" "rep s1 (spec_op p xs)" "alloc s1 = alloc s"
    using exec_op [of s xs p] by auto
  with Cons.prems Cons.IH [of s1 "spec_op p xs"] show ?case by auto
qed

end

text \<open>The operations of the source implement it.\<close>

fun job_op :: "qop \<Rightarrow> jq stmt" where
  "job_op (QInsert a) = run_stmts (job_insert (Some a))"
| "job_op (QAppend a) = run_stmts (job_append (Some a))"
| "job_op (QRemove a) = run_stmts (job_remove (Some a))"

definition idle_rep :: "jq \<Rightarrow> addr list \<Rightarrow> bool" where
  "idle_rep s xs \<longleftrightarrow> queue_rep s xs \<and> q_lock s = Free"

lemma op_post_idle: "op_post s xs s' \<Longrightarrow> idle_rep s' xs \<and> dom (jobs s') = dom (jobs s)"
proof -
  assume post: "op_post s xs s'"
  then have "jobs s' a = None \<longleftrightarrow> jobs s a = None" for a
    unfolding op_post_def same_ids_def by (metis option.map_disc_iff)
  with post show ?thesis by (simp add: op_post_def idle_rep_def dom_def)
qed

lemma job_op_spec:
  assumes rep: "idle_rep s xs" and legal: "legal p xs" and alloc: "op_addr p \<in> dom (jobs s)"
  shows "\<exists>s'. job_op p s = Inr s' \<and> op_post s (spec_op p xs) s'"
proof (cases p)
  case (QInsert a)
  with assms show ?thesis by (auto simp: idle_rep_def intro: job_insert_rep)
next
  case (QAppend a)
  with assms show ?thesis by (auto simp: idle_rep_def intro: job_append_rep)
next
  case (QRemove a)
  with legal obtain ys zs where xs: "xs = ys @ a # zs" "a \<notin> set ys"
    by (auto dest: split_list_first)
  with QRemove rep job_remove_rep [of s ys a zs] show ?thesis
    by (auto simp: idle_rep_def remove1_append)
qed

interpretation jobs: job_list job_op idle_rep "\<lambda>s. dom (jobs s)"
  using job_op_spec op_post_idle by unfold_locales blast

section \<open>Properties of the queue\<close>

text \<open>
  C1: every legal sequence of \<open>job_insert\<close>, \<open>job_append\<close> and \<open>job_remove\<close> on allocated jobs runs
  without a fault and leaves the doubly linked list that the same operations on a plain list of
  addresses give, with the lock released.
\<close>

theorem queue_refines_list:
  assumes "idle_rep s xs" and "legal_run ps xs" and "op_addr ` set ps \<subseteq> dom (jobs s)"
  shows "\<exists>s'. run_stmts (map job_op ps) s = Inr s' \<and> idle_rep s' (fold spec_op ps xs)"
  using jobs.exec_run [OF assms] by blast

theorem queue_refines_list_witness:
  "\<exists>s'. run_stmts (map job_op [QInsert 1, QAppend 2, QInsert 3, QRemove 1])
     \<lparr>q_lock = Free, q_head = None, q_tail = None,
      jobs = (\<lambda>a. if a \<le> 3 then Some \<lparr>j_id = int a, j_prev = None, j_next = None\<rparr> else None),
      jp_arr = [], out = []\<rparr> = Inr s' \<and> idle_rep s' [3, 2]"
proof -
  let ?s = "\<lparr>q_lock = Free, q_head = None, q_tail = None,
      jobs = (\<lambda>a::addr. if a \<le> 3 then Some \<lparr>j_id = int a, j_prev = None, j_next = None\<rparr> else None),
      jp_arr = [], out = []\<rparr>"
  have "idle_rep ?s []" by (simp add: idle_rep_def queue_rep_def)
  then show ?thesis
    using queue_refines_list [of ?s "[]" "[QInsert 1, QAppend 2, QInsert 3, QRemove 1]"]
    by (auto simp: dom_def)
qed

text \<open>
  \<open>job_find\<close> on a well-formed queue returns, with the lock released and nothing changed, the
  first queued job with the wanted id, and \<open>NULL\<close> when there is none; when the read lock cannot be
  taken it returns \<open>NULL\<close> without reading the queue.
\<close>

lemma job_find_correct:
  assumes "idle_rep s xs"
  shows "job_find 0 i s = Some (Inr (find (\<lambda>a. map_option j_id (jobs s a) = Some i) xs, s))
    \<and> (e \<noteq> 0 \<longrightarrow> job_find e i s = Some (Inr (None, s)))"
proof -
  have "rdlock s = Inr (s\<lparr>q_lock := ReadHeld 1\<rparr>)"
    using assms by (simp add: idle_rep_def rdlock_def)
  moreover have "find_loop (jobs s) i (q_head s)
      = Some (Inr (find (\<lambda>a. map_option j_id (jobs s a) = Some i) xs))"
    using assms find_loop_seg [of "jobs s" None xs i] by (simp add: idle_rep_def queue_rep_def)
  moreover have "s\<lparr>q_lock := Free\<rparr> = s"
    using assms by (simp add: idle_rep_def)
  ultimately show ?thesis
    by (simp add: job_find_def unlock_def)
qed

text \<open>
  \<open>traverse_jobs\<close> on a well-formed queue returns and prints the ids of all queued jobs, in
  queue order, leaving the queue unchanged and the lock released.
\<close>

lemma traverse_jobs_correct:
  assumes "idle_rep s xs"
  shows "traverse_jobs 0 s = Some (Inr (s\<lparr>out := out s @ ''delay before traversing'' @ [CHR 0x0A]
    @ ''Queue:'' @ concat (map (\<lambda>a. '' '' @ dec (j_id (the (jobs s a)))) xs) @ [CHR 0x0A]\<rparr>))"
proof -
  have l: "rdlock s = Inr (s\<lparr>q_lock := ReadHeld 1\<rparr>)"
    using assms by (simp add: idle_rep_def rdlock_def)
  have s: "seg (jobs s) None xs None" and h: "q_head s = first_or None xs"
    using assms by (auto simp: idle_rep_def queue_rep_def)
  have f: "s\<lparr>out := t, q_lock := Free\<rparr> = s\<lparr>out := t\<rparr>" for t
    using assms by (simp add: idle_rep_def)
  from l f show ?thesis
    by (simp add: traverse_jobs_def unlock_def h print_loop_seg [OF s])
qed

end
