(* ===== verification/Job_Queue_Threads.thy ===== *)
theory Job_Queue_Threads
  imports Job_Queue
begin

text \<open>
  The two threads of \<open>pthread/job_queue.c\<close>: \<open>thr_fn1\<close> fills and empties the queue, \<open>thr_fn2\<close>
  traverses it, in every interleaving of their accesses to the shared state.
\<close>

section \<open>The threads\<close>

text \<open>
  \<open>delay\<close> polls \<open>time\<close> until the given number of seconds has passed; \<open>clk k\<close> is what the
  \<open>k\<close>-th call of \<open>time\<close> returns. The result is the number of the poll that ended the loop.
\<close>

partial_function (option) delay_loop :: "(nat \<Rightarrow> int) \<Rightarrow> int \<Rightarrow> nat \<Rightarrow> nat option" where
  "delay_loop clk deadline k =
     (if deadline > clk k then delay_loop clk deadline (Suc k) else Some k)"

definition delay :: "int \<Rightarrow> (nat \<Rightarrow> int) \<Rightarrow> nat option" where
  "delay sec clk = delay_loop clk (clk 0 + sec) 1"

definition print_line :: "string \<Rightarrow> jq stmt" where
  "print_line txt s = Inr (s\<lparr>out := out s @ txt @ [CHR 0x0A]\<rparr>)"

text \<open>
  \<open>thr_fn1\<close> allocates, fills and queues \<open>NJOBS\<close> jobs, then removes them. \<open>mal i\<close> is the result
  of the \<open>i\<close>-th \<open>malloc\<close>: no block, or an address and the (arbitrary) bytes found there. The
  calls of \<open>delay\<close> change no state and are left out here.
\<close>

type_synonym malloc = "nat \<Rightarrow> (addr \<times> job) option"

definition new_job :: "malloc \<Rightarrow> nat \<Rightarrow> jq stmt" where
  "new_job mal i s = (case mal i of None \<Rightarrow> Inl NullDeref
     | Some (a, j) \<Rightarrow> Inr (s\<lparr>jobs := (jobs s)(a \<mapsto> j\<lparr>j_id := int i\<rparr>)\<rparr>))"

definition keep_job :: "malloc \<Rightarrow> nat \<Rightarrow> jq stmt" where
  "keep_job mal i s =
     bindE (aset (jp_arr s) i (map_option fst (mal i))) (\<lambda>arr. Inr (s\<lparr>jp_arr := arr\<rparr>))"

definition thr_fn1_insert :: "malloc \<Rightarrow> nat \<Rightarrow> jq stmt list" where
  "thr_fn1_insert mal i =
     [print_line ''inserting'', new_job mal i]
     @ (if i mod 2 \<noteq> 0 then job_insert (map_option fst (mal i)) else job_append (map_option fst (mal i)))
     @ [keep_job mal i]"

text \<open>\<open>job_remove(qp, jp_arr[i])\<close>, with the argument read from the array.\<close>

definition thr_fn1_delete :: "nat \<Rightarrow> jq stmt list" where
  "thr_fn1_delete i =
     [print_line ''deleting'', wrlock,
      \<lambda>s. bindE (aget (jp_arr s) i) (\<lambda>jp. job_remove_body jp s), unlock]"

definition thr_fn1 :: "malloc \<Rightarrow> nat \<Rightarrow> jq stmt list" where
  "thr_fn1 mal n = concat (map (thr_fn1_insert mal) [0..<n]) @ concat (map thr_fn1_delete [0..<n])"

text \<open>
  \<open>thr_fn2\<close> compares head and tail without the lock and traverses the queue under the read lock
  until they are equal. Each step is one access to the shared state; the ids printed since the
  lock was taken are part of the control state.
\<close>

datatype thr_fn2_pc =
    Test
  | RdLock
  | Walk "addr option" "int list"
  | Unlock "int list"
  | Done

text \<open>The two threads \<open>main\<close> starts on one queue.\<close>

record jq_sys =
  shared :: jq
  rest1 :: "jq stmt list"
  pc2 :: thr_fn2_pc

inductive jq_step :: "jq_sys \<Rightarrow> jq_sys \<Rightarrow> bool" where
  thr1: "rest1 c = f # fs \<Longrightarrow> f (shared c) = Inr s' \<Longrightarrow>
     jq_step c (c\<lparr>shared := s', rest1 := fs\<rparr>)"
| thr2_enter: "pc2 c = Test \<Longrightarrow> q_head (shared c) \<noteq> q_tail (shared c) \<Longrightarrow>
     jq_step c (c\<lparr>pc2 := RdLock\<rparr>)"
| thr2_leave: "pc2 c = Test \<Longrightarrow> q_head (shared c) = q_tail (shared c) \<Longrightarrow>
     print_line ''Done'' (shared c) = Inr s' \<Longrightarrow> jq_step c (c\<lparr>shared := s', pc2 := Done\<rparr>)"
| thr2_lock: "pc2 c = RdLock \<Longrightarrow> rdlock (shared c) = Inr s1 \<Longrightarrow>
     print_line ''delay before traversing'' s1 = Inr s2 \<Longrightarrow>
     jq_step c (c\<lparr>shared := s2\<lparr>out := out s2 @ ''Queue:''\<rparr>, pc2 := Walk (q_head s2) []\<rparr>)"
| thr2_visit: "pc2 c = Walk (Some a) ids \<Longrightarrow> jobs (shared c) a = Some j \<Longrightarrow>
     jq_step c (c\<lparr>shared := (shared c)\<lparr>out := out (shared c) @ '' '' @ dec (j_id j)\<rparr>,
                  pc2 := Walk (j_next j) (ids @ [j_id j])\<rparr>)"
| thr2_end: "pc2 c = Walk None ids \<Longrightarrow>
     jq_step c (c\<lparr>shared := (shared c)\<lparr>out := out (shared c) @ [CHR 0x0A]\<rparr>, pc2 := Unlock ids\<rparr>)"
| thr2_unlock: "pc2 c = Unlock ids \<Longrightarrow> unlock (shared c) = Inr s' \<Longrightarrow>
     jq_step c (c\<lparr>shared := s', pc2 := Test\<rparr>)"

text \<open>
  \<open>main\<close> after \<open>queue_init\<close> and the two calls of \<open>pthread_create\<close>: the global array is zero
  and the queue empty.
\<close>

definition jq_start :: "malloc \<Rightarrow> nat \<Rightarrow> jq_sys" where
  "jq_start mal n =
     \<lparr>shared = fst (queue_init 0 \<lparr>q_lock = Free, q_head = None, q_tail = None, jobs = Map.empty,
                                 jp_arr = replicate n None, out = []\<rparr>),
      rest1 = thr_fn1 mal n, pc2 = Test\<rparr>"

section \<open>The inserting and deleting thread\<close>

text \<open>
  Outside a write section the queue is well formed. A statement is orderly if it leaves such a
  state, and if, unless it takes or holds the write lock, it changes neither the queued jobs nor
  their ids.
\<close>

definition stable :: "jq \<Rightarrow> bool" where
  "stable s \<longleftrightarrow> q_lock s = WriteHeld \<or> (\<exists>xs. queue_rep s xs)"

definition orderly :: "jq \<Rightarrow> jq \<Rightarrow> bool" where
  "orderly s s' \<longleftrightarrow> stable s' \<and> (q_lock s \<noteq> WriteHeld \<longrightarrow> q_lock s' \<noteq> WriteHeld \<longrightarrow>
     (\<forall>xs. queue_rep s xs \<longrightarrow> queue_rep s' xs
        \<and> (\<forall>a \<in> set xs. map_option j_id (jobs s' a) = map_option j_id (jobs s a))))"

lemma orderly_write: "q_lock s' = WriteHeld \<Longrightarrow> orderly s s'"
  by (simp add: orderly_def stable_def)

definition keeps_lock :: "jq stmt \<Rightarrow> bool" where
  "keeps_lock f \<longleftrightarrow> (\<forall>s s'. f s = Inr s' \<longrightarrow> q_lock s' = q_lock s)"

lemma write_section_orderly:
  assumes "q_lock s = WriteHeld" and "\<forall>f \<in> set fs. keeps_lock f"
    and "run_stmts (fs @ [unlock]) s = Inr s'" and "stable s'"
  shows "safe_run orderly (fs @ [unlock]) s"
  using assms
proof (induction fs arbitrary: s)
  case Nil
  then show ?case by (auto simp: orderly_def c_simps)
next
  case (Cons f fs)
  then obtain s1 where s1: "f s = Inr s1" "run_stmts (fs @ [unlock]) s1 = Inr s'"
    by (auto simp: c_simps)
  with Cons.prems have "q_lock s1 = WriteHeld"
    by (auto simp: keeps_lock_def)
  with Cons s1 show ?case by (auto intro: orderly_write)
qed

lemma write_op_orderly:
  assumes "\<forall>f \<in> set fs. keeps_lock f"
    and "run_stmts ([wrlock] @ fs @ [unlock]) s = Inr s'" and "stable s'"
  shows "safe_run orderly ([wrlock] @ fs @ [unlock]) s"
proof -
  from assms(2) obtain s1 where s1: "wrlock s = Inr s1" "run_stmts (fs @ [unlock]) s1 = Inr s'"
    by (auto simp: c_simps)
  then have "q_lock s1 = WriteHeld" by (auto simp: wrlock_def split: rwlock.splits)
  with s1 assms write_section_orderly show ?thesis by (auto intro: orderly_write)
qed

lemma keeps_lock_set: "set_prev p v s = Inr s' \<Longrightarrow> q_lock s' = q_lock s"
  "set_next p v s = Inr s' \<Longrightarrow> q_lock s' = q_lock s"
  by (auto simp: set_prev_def set_next_def bindE_eq_Inr)

lemma keeps_lock_insert: "\<forall>f \<in> set (job_insert_body p). keeps_lock f"
  by (auto simp: keeps_lock_def job_insert_body_def dest: keeps_lock_set split: if_splits)

lemma keeps_lock_append: "\<forall>f \<in> set (job_append_body p). keeps_lock f"
  by (auto simp: keeps_lock_def job_append_body_def dest: keeps_lock_set split: if_splits)

lemma keeps_lock_remove: "keeps_lock (job_remove_body p)"
  unfolding keeps_lock_def job_remove_body_def
  by (auto simp: bindE_eq_Inr dest!: keeps_lock_set split: if_splits)

lemma job_op_orderly:
  assumes rep: "idle_rep s xs" and "legal p xs" and "op_addr p \<in> dom (jobs s)"
    and body: "run_stmts ([wrlock] @ fs @ [unlock]) s = job_op p s" and "\<forall>f \<in> set fs. keeps_lock f"
  shows "safe_run orderly ([wrlock] @ fs @ [unlock]) s"
proof -
  from job_op_spec [OF assms(1-3)] obtain s' where s': "job_op p s = Inr s'" "op_post s (spec_op p xs) s'"
    by blast
  then have "stable s'" by (auto simp: op_post_def stable_def)
  then show ?thesis
    using s'(1) assms(5) body by (intro write_op_orderly) auto
qed

text \<open>The order in which jobs sit in the queue after \<open>i\<close> rounds of the first loop.\<close>

fun qorder :: "nat \<Rightarrow> nat list" where
  "qorder 0 = []"
| "qorder (Suc i) = (if i mod 2 \<noteq> 0 then i # qorder i else qorder i @ [i])"

lemma mod2_odd: "(i::nat) mod 2 \<noteq> 0 \<longleftrightarrow> odd i"
  by presburger

lemma qorder_Suc: "qorder (Suc i) = (if odd i then i # qorder i else qorder i @ [i])"
  unfolding qorder.simps mod2_odd ..

declare qorder.simps(2) [simp del]

lemma set_qorder [simp]: "set (qorder n) = {..<n}"
  by (induction n) (simp_all add: qorder_Suc lessThan_Suc)

lemma distinct_qorder [simp]: "distinct (qorder n)"
  by (induction n) (simp_all add: qorder_Suc lessThan_Suc)

lemma qorder_eq: "qorder n = rev (filter odd [0..<n]) @ filter even [0..<n]"
  by (induction n) (simp_all add: qorder_Suc)

text \<open>What the code needs of \<open>malloc\<close>: blocks are found, at addresses of their own.\<close>

definition good_malloc :: "malloc \<Rightarrow> nat \<Rightarrow> bool" where
  "good_malloc mal n \<longleftrightarrow> (\<forall>i<n. mal i \<noteq> None) \<and> inj_on (\<lambda>i. fst (the (mal i))) {..<n}"

definition job_at :: "malloc \<Rightarrow> nat \<Rightarrow> addr" where
  "job_at mal i = fst (the (mal i))"

definition ids_ok :: "malloc \<Rightarrow> nat \<Rightarrow> jq \<Rightarrow> bool" where
  "ids_ok mal n s \<longleftrightarrow> (\<forall>i<n. map_option j_id (jobs s (job_at mal i)) = Some (int i))"

lemma malloc_at: "good_malloc mal n \<Longrightarrow> i < n \<Longrightarrow> \<exists>j. mal i = Some (job_at mal i, j)"
  by (auto simp: good_malloc_def job_at_def)

lemma job_at_inj: "good_malloc mal n \<Longrightarrow> i < n \<Longrightarrow> k < n \<Longrightarrow> job_at mal i = job_at mal k \<longleftrightarrow> i = k"
  by (auto simp: good_malloc_def job_at_def inj_on_def)

lemma job_at_notin:
  "good_malloc mal n \<Longrightarrow> i < n \<Longrightarrow> set ks \<subseteq> {..<n} \<Longrightarrow> i \<notin> set ks \<Longrightarrow> job_at mal i \<notin> job_at mal ` set ks"
  using job_at_inj by blast

lemma same_ids_ok: "same_ids (jobs s) (jobs s') \<Longrightarrow> ids_ok mal n s \<Longrightarrow> ids_ok mal n s'"
  by (simp add: same_ids_def ids_ok_def)

text \<open>
  The assertion between the pieces of a round: the queue holds \<open>xs\<close>, the first \<open>m\<close> jobs have
  their ids and the array is \<open>arr\<close>.
\<close>

definition round_at :: "malloc \<Rightarrow> nat \<Rightarrow> addr list \<Rightarrow> addr option list \<Rightarrow> jq \<Rightarrow> bool" where
  "round_at mal m xs arr s \<longleftrightarrow> idle_rep s xs \<and> ids_ok mal m s \<and> jp_arr s = arr"

lemma round_orderly:
  assumes "round_at mal m xs arr s" and "idle_rep s' xs"
    and "\<And>a. a \<in> set xs \<Longrightarrow> map_option j_id (jobs s' a) = map_option j_id (jobs s a)"
  shows "orderly s s'"
  using assms queue_rep_unique [of s xs]
  by (auto simp: orderly_def stable_def round_at_def idle_rep_def)

lemma hoare_print: "hoare orderly (round_at mal m xs arr) [print_line t] (round_at mal m xs arr)"
proof (rule hoare_stmt)
  fix s assume r: "round_at mal m xs arr s"
  let ?s = "s\<lparr>out := out s @ t @ [CHR 0x0A]\<rparr>"
  have "round_at mal m xs arr ?s"
    using r by (simp add: round_at_def idle_rep_def queue_rep_def ids_ok_def)
  moreover from this r have "orderly s ?s"
    by (intro round_orderly) (auto simp: round_at_def)
  ultimately show "\<exists>s'. print_line t s = Inr s' \<and> orderly s s' \<and> round_at mal m xs arr s'"
    by (simp add: print_line_def)
qed

lemma hoare_new_job:
  assumes good: "good_malloc mal n" and m: "m < n" and new: "job_at mal m \<notin> set xs"
  shows "hoare orderly (round_at mal m xs arr) [new_job mal m] (round_at mal (Suc m) xs arr)"
proof (rule hoare_stmt)
  fix s assume r: "round_at mal m xs arr s"
  obtain j where j: "mal m = Some (job_at mal m, j)" using malloc_at [OF good m] ..
  let ?s = "s\<lparr>jobs := (jobs s)(job_at mal m \<mapsto> j\<lparr>j_id := int m\<rparr>)\<rparr>"
  have "ids_ok mal (Suc m) ?s"
    using r job_at_inj [OF good _ m] m by (auto simp: round_at_def ids_ok_def less_Suc_eq)
  then have r': "round_at mal (Suc m) xs arr ?s"
    using r new by (simp add: round_at_def idle_rep_def queue_rep_def)
  moreover have "orderly s ?s"
    using r r' new by (intro round_orderly [OF r]) (auto simp: round_at_def)
  ultimately show "\<exists>s'. new_job mal m s = Inr s' \<and> orderly s s' \<and> round_at mal (Suc m) xs arr s'"
    using j by (simp add: new_job_def)
qed

lemma hoare_job_op:
  assumes "legal p xs" and "op_addr p = job_at mal k" and "k < m"
    and body: "\<And>s. jp_arr s = arr \<Longrightarrow> run_stmts ([wrlock] @ fs @ [unlock]) s = job_op p s"
    and keep: "\<forall>f \<in> set fs. keeps_lock f"
  shows "hoare orderly (round_at mal m xs arr) ([wrlock] @ fs @ [unlock])
           (round_at mal m (spec_op p xs) arr)"
proof (rule hoareI)
  fix s assume r: "round_at mal m xs arr s"
  then have rep: "idle_rep s xs" by (simp add: round_at_def)
  have run: "run_stmts ([wrlock] @ fs @ [unlock]) s = job_op p s"
    using r by (intro body) (simp add: round_at_def)
  have dom: "op_addr p \<in> dom (jobs s)"
    using r assms(2,3) by (auto simp: round_at_def ids_ok_def)
  obtain s' where s': "job_op p s = Inr s'" "op_post s (spec_op p xs) s'"
    using job_op_spec [OF rep assms(1) dom] by blast
  then have "round_at mal m (spec_op p xs) arr s'"
    using r same_ids_ok by (auto simp: round_at_def op_post_def idle_rep_def)
  moreover have "safe_run orderly ([wrlock] @ fs @ [unlock]) s"
    by (rule job_op_orderly [OF rep assms(1) dom run keep])
  ultimately show "safe_run orderly ([wrlock] @ fs @ [unlock]) s \<and>
      (\<exists>s'. run_stmts ([wrlock] @ fs @ [unlock]) s = Inr s' \<and> round_at mal m (spec_op p xs) arr s')"
    using s'(1) run by auto
qed

lemma hoare_keep:
  assumes good: "good_malloc mal n" and i: "i < n" and len: "i < length arr"
  shows "hoare orderly (round_at mal m xs arr) [keep_job mal i]
           (round_at mal m xs (arr[i := Some (job_at mal i)]))"
proof (rule hoare_stmt)
  fix s assume r: "round_at mal m xs arr s"
  obtain j where j: "mal i = Some (job_at mal i, j)" using malloc_at [OF good i] ..
  let ?s = "s\<lparr>jp_arr := arr[i := Some (job_at mal i)]\<rparr>"
  have r': "round_at mal m xs (arr[i := Some (job_at mal i)]) ?s"
    using r by (simp add: round_at_def idle_rep_def queue_rep_def ids_ok_def)
  moreover have "orderly s ?s"
    using r' by (intro round_orderly [OF r]) (auto simp: round_at_def)
  ultimately show "\<exists>s'. keep_job mal i s = Inr s' \<and> orderly s s'
      \<and> round_at mal m xs (arr[i := Some (job_at mal i)]) s'"
    using r j len by (simp add: keep_job_def round_at_def)
qed

text \<open>The state after \<open>i\<close> rounds of the first and of the second loop.\<close>

definition arr_at :: "malloc \<Rightarrow> nat \<Rightarrow> nat \<Rightarrow> addr option list" where
  "arr_at mal n i = map (Some \<circ> job_at mal) [0..<i] @ replicate (n - i) None"

lemma arr_at_Suc: "i < n \<Longrightarrow> (arr_at mal n i)[i := Some (job_at mal i)] = arr_at mal n (Suc i)"
proof -
  assume "i < n"
  then have "replicate (n - i) None = None # replicate (n - Suc i) (None::addr option)"
    by (metis Suc_diff_Suc replicate_Suc)
  then show ?thesis by (simp add: arr_at_def list_update_append)
qed

lemma hoare_insert_round:
  assumes good: "good_malloc mal n" and i: "i < n"
  shows "hoare orderly (round_at mal i (map (job_at mal) (qorder i)) (arr_at mal n i))
    (thr_fn1_insert mal i)
    (round_at mal (Suc i) (map (job_at mal) (qorder (Suc i))) (arr_at mal n (Suc i)))"
proof -
  let ?a = "job_at mal i" and ?xs = "map (job_at mal) (qorder i)"
  let ?op = "if odd i then QInsert ?a else QAppend ?a"
  let ?body = "if odd i then job_insert_body (Some ?a) else job_append_body (Some ?a)"
  obtain j where j: "mal i = Some (?a, j)" using malloc_at [OF good i] ..
  have new: "?a \<notin> set ?xs" using job_at_notin [OF good i, of "qorder i"] i by auto
  have op: "hoare orderly (round_at mal (Suc i) ?xs (arr_at mal n i)) ([wrlock] @ ?body @ [unlock])
      (round_at mal (Suc i) (spec_op ?op ?xs) (arr_at mal n i))"
    using new keeps_lock_insert keeps_lock_append
    by (intro hoare_job_op [of ?op ?xs mal i "Suc i" "arr_at mal n i" ?body])
      (auto simp: job_insert_def job_append_def)
  have xs: "spec_op ?op ?xs = map (job_at mal) (qorder (Suc i))" by (simp add: qorder_Suc)
  have keep: "hoare orderly (round_at mal (Suc i) (map (job_at mal) (qorder (Suc i))) (arr_at mal n i))
      [keep_job mal i]
      (round_at mal (Suc i) (map (job_at mal) (qorder (Suc i))) (arr_at mal n (Suc i)))"
    using hoare_keep [OF good i, of "arr_at mal n i"] i by (simp add: arr_at_Suc) (simp add: arr_at_def)
  have "hoare orderly (round_at mal i ?xs (arr_at mal n i))
     ([print_line ''inserting''] @ [new_job mal i] @ ([wrlock] @ ?body @ [unlock]) @ [keep_job mal i])
     (round_at mal (Suc i) (map (job_at mal) (qorder (Suc i))) (arr_at mal n (Suc i)))"
    by (rule hoare_append [OF hoare_print hoare_append [OF hoare_new_job [OF good i new]
          hoare_append [OF op [unfolded xs] keep]]])
  moreover have "thr_fn1_insert mal i
    = [print_line ''inserting''] @ [new_job mal i] @ ([wrlock] @ ?body @ [unlock]) @ [keep_job mal i]"
    using j unfolding thr_fn1_insert_def mod2_odd by (simp add: job_insert_def job_append_def)
  ultimately show ?thesis by simp
qed

lemma hoare_delete_round:
  assumes good: "good_malloc mal n" and i: "i < n"
  shows "hoare orderly
    (round_at mal n (map (job_at mal) (filter (\<lambda>k. i \<le> k) (qorder n))) (arr_at mal n n))
    (thr_fn1_delete i)
    (round_at mal n (map (job_at mal) (filter (\<lambda>k. Suc i \<le> k) (qorder n))) (arr_at mal n n))"
proof -
  let ?a = "job_at mal i" and ?xs = "map (job_at mal) (filter (\<lambda>k. i \<le> k) (qorder n))"
  let ?f = "\<lambda>s. bindE (aget (jp_arr s) i) (\<lambda>jp. job_remove_body jp s)"
  have keep: "keeps_lock ?f"
    using keeps_lock_remove unfolding keeps_lock_def by (auto simp: bindE_eq_Inr)
  have body: "run_stmts ([wrlock] @ [?f] @ [unlock]) s = job_op (QRemove ?a) s"
    if "jp_arr s = arr_at mal n n" for s
    using that i
    by (cases "q_lock s") (simp_all add: job_remove_def wrlock_def arr_at_def)
  have inj: "inj_on (job_at mal) (set (filter (\<lambda>k. i \<le> k) (qorder n)))"
    using job_at_inj [OF good] by (auto simp: inj_on_def)
  have xs: "spec_op (QRemove ?a) ?xs = map (job_at mal) (filter (\<lambda>k. Suc i \<le> k) (qorder n))"
  proof -
    have "distinct ?xs" using inj by (simp add: distinct_map)
    then have "remove1 ?a ?xs = filter (\<lambda>y. ?a \<noteq> y) ?xs"
      by (simp add: distinct_remove1_removeAll removeAll_filter_not_eq)
    also have "\<dots> = map (job_at mal) (filter (\<lambda>k. ?a \<noteq> job_at mal k \<and> i \<le> k) (qorder n))"
      by (simp add: filter_map o_def conj_commute)
    also have "filter (\<lambda>k. ?a \<noteq> job_at mal k \<and> i \<le> k) (qorder n) = filter (\<lambda>k. Suc i \<le> k) (qorder n)"
      using job_at_inj [OF good i] by (intro filter_cong) auto
    finally show ?thesis by simp
  qed
  have op: "hoare orderly (round_at mal n ?xs (arr_at mal n n)) ([wrlock] @ [?f] @ [unlock])
      (round_at mal n (spec_op (QRemove ?a) ?xs) (arr_at mal n n))"
    using body keep i by (intro hoare_job_op [of "QRemove ?a" ?xs mal i n]) auto
  show ?thesis
    using hoare_append [OF hoare_print op [unfolded xs]] by (simp add: thr_fn1_delete_def)
qed

text \<open>The first loop builds the queue, the second empties it.\<close>

lemma hoare_loop1:
  assumes good: "good_malloc mal n"
  shows "hoare orderly (round_at mal 0 [] (replicate n None))
    (concat (map (thr_fn1_insert mal) [0..<n]))
    (round_at mal n (map (job_at mal) (qorder n)) (arr_at mal n n))"
proof -
  have "hoare orderly (round_at mal 0 (map (job_at mal) (qorder 0)) (arr_at mal n 0))
    (concat (map (thr_fn1_insert mal) [0..<n]))
    (round_at mal n (map (job_at mal) (qorder n)) (arr_at mal n n))"
    using hoare_insert_round [OF good]
    by (rule hoare_for [of n orderly "\<lambda>i. round_at mal i (map (job_at mal) (qorder i)) (arr_at mal n i)"])
  then show ?thesis by (simp add: arr_at_def)
qed

lemma hoare_loop2:
  assumes good: "good_malloc mal n"
  shows "hoare orderly (round_at mal n (map (job_at mal) (qorder n)) (arr_at mal n n))
    (concat (map thr_fn1_delete [0..<n])) (round_at mal n [] (arr_at mal n n))"
proof -
  let ?J = "\<lambda>i. round_at mal n (map (job_at mal) (filter (\<lambda>k. i \<le> k) (qorder n))) (arr_at mal n n)"
  have "hoare orderly (?J 0) (concat (map thr_fn1_delete [0..<n])) (?J n)"
    using hoare_delete_round [OF good] by (rule hoare_for [of n orderly ?J])
  moreover have "filter (\<lambda>k. n \<le> k) (qorder n) = []"
    by (auto simp: filter_empty_conv)
  ultimately show ?thesis by simp
qed

lemma hoare_thr_fn1:
  "good_malloc mal n \<Longrightarrow>
    hoare orderly (round_at mal 0 [] (replicate n None)) (thr_fn1 mal n) (round_at mal n [] (arr_at mal n n))"
  unfolding thr_fn1_def by (intro hoare_append [OF hoare_loop1 hoare_loop2])

lemma jq_start_round: "round_at mal 0 [] (replicate n None) (shared (jq_start mal n))"
  by (simp add: jq_start_def queue_init_def round_at_def idle_rep_def queue_rep_def ids_ok_def)

section \<open>Both threads together\<close>

text \<open>
  The state as the first thread sees it: what the second thread does to the lock and the output
  does not matter to its statements, except that a held read lock suspends it. \<open>ghost s t\<close>: the
  state \<open>t\<close> is \<open>s\<close> without the second thread's contributions.
\<close>

abbreviation with_env :: "rwlock \<Rightarrow> string \<Rightarrow> jq \<Rightarrow> jq" where
  "with_env l w t \<equiv> t\<lparr>q_lock := l, out := w\<rparr>"

definition ghost :: "jq \<Rightarrow> jq \<Rightarrow> bool" where
  "ghost s t \<longleftrightarrow> s = with_env (q_lock s) (out s) t \<and> q_lock t = (if q_lock s = WriteHeld then WriteHeld else Free)"

definition compat :: "jq stmt \<Rightarrow> bool" where
  "compat f \<longleftrightarrow> (\<forall>s t t'. ghost s t \<longrightarrow> f t = Inr t' \<longrightarrow>
     (f s = Inl Blocks \<and> (\<exists>k. q_lock s = ReadHeld k)) \<or>
     (\<exists>s'. f s = Inr s' \<and> ghost s' t'
        \<and> (if q_lock s \<in> range ReadHeld then q_lock s' = q_lock s else q_lock s' \<in> {Free, WriteHeld})))"

text \<open>Statements that neither read nor write lock and output.\<close>

definition local_stmt :: "jq stmt \<Rightarrow> bool" where
  "local_stmt f \<longleftrightarrow> (\<forall>t l w. f (with_env l w t) = map_sum id (with_env l w) (f t)) \<and> keeps_lock f"

lemma local_set:
  "local_stmt (set_prev p v)" "local_stmt (set_next p v)"
  "local_stmt (\<lambda>s. set_prev (q_head s) v s)" "local_stmt (\<lambda>s. set_next (q_tail s) v s)"
  "local_stmt (\<lambda>s. set_prev p (q_tail s) s)" "local_stmt (\<lambda>s. set_next p (q_head s) s)"
  by (auto simp: local_stmt_def keeps_lock_def set_prev_def set_next_def bindE_def split: sum.splits)

lemma local_assign:
  "local_stmt (\<lambda>s. Inr (s\<lparr>q_head := v\<rparr>))" "local_stmt (\<lambda>s. Inr (s\<lparr>q_tail := v\<rparr>))"
  by (auto simp: local_stmt_def keeps_lock_def)

lemma local_if:
  assumes "local_stmt f" and "local_stmt g" and "\<And>t l w. b (with_env l w t) = b t"
  shows "local_stmt (\<lambda>s. if b s then f s else g s)"
  using assms unfolding local_stmt_def keeps_lock_def by auto

lemma local_deref:
  assumes "\<And>j. local_stmt (f j)"
  shows "local_stmt (\<lambda>s. bindE (deref (jobs s) p) (\<lambda>j. f j s))"
  using assms unfolding local_stmt_def keeps_lock_def by (auto simp: bindE_def split: sum.splits)

lemma local_run:
  assumes "\<And>f. f \<in> set fs \<Longrightarrow> local_stmt f"
  shows "local_stmt (run_stmts fs)"
  using assms
proof (induction fs)
  case Nil
  then show ?case by (simp add: local_stmt_def keeps_lock_def)
next
  case (Cons f fs)
  then have f: "local_stmt f" and fs: "local_stmt (run_stmts fs)" by auto
  have "run_stmts (f # fs) (with_env l w t) = map_sum id (with_env l w) (run_stmts (f # fs) t)" for l w t
    using f fs by (cases "f t") (simp_all add: local_stmt_def)
  moreover have "keeps_lock (run_stmts (f # fs))"
    using f fs unfolding local_stmt_def keeps_lock_def by (metis run_stmts.simps(2) bindE_eq_Inr)
  ultimately show ?case unfolding local_stmt_def by blast
qed

lemma local_bodies:
  "f \<in> set (job_insert_body p) \<Longrightarrow> local_stmt f"
  "g \<in> set (job_append_body p) \<Longrightarrow> local_stmt g"
  by (auto simp: job_insert_body_def job_append_body_def intro!: local_set local_assign local_if)

lemma local_remove: "local_stmt (job_remove_body p)"
  unfolding job_remove_body_def
  by (intro local_if local_run)
    (auto intro!: local_set local_assign local_if local_deref)

lemma local_compat:
  assumes "local_stmt f"
  shows "compat f"
  unfolding compat_def
proof (intro allI impI disjI2)
  fix s t t' assume g: "ghost s t" and f: "f t = Inr t'"
  let ?s = "with_env (q_lock s) (out s) t'"
  have lock: "q_lock t' = q_lock t" using assms f by (auto simp: local_stmt_def keeps_lock_def)
  have "f s = Inr ?s"
    using assms g f unfolding local_stmt_def ghost_def by (metis map_sum.simps(2))
  moreover have "ghost ?s t'" using g lock by (simp add: ghost_def)
  moreover have "if q_lock s \<in> range ReadHeld then q_lock ?s = q_lock s else q_lock ?s \<in> {Free, WriteHeld}"
    by (cases "q_lock s") auto
  ultimately show "\<exists>s'. f s = Inr s' \<and> ghost s' t'
      \<and> (if q_lock s \<in> range ReadHeld then q_lock s' = q_lock s else q_lock s' \<in> {Free, WriteHeld})"
    by blast
qed

lemma local_thr_fn1: 
  "local_stmt (new_job mal i)" "local_stmt (keep_job mal i)"
  "local_stmt (\<lambda>s. bindE (aget (jp_arr s) i) (\<lambda>jp. job_remove_body jp s))"
  using local_remove unfolding local_stmt_def keeps_lock_def
  by (auto simp: new_job_def keep_job_def bindE_def split: sum.splits option.splits)

lemma ghost_cases:
  assumes "ghost s t"
  obtains (wr) "q_lock s = WriteHeld" "q_lock t = WriteHeld"
    | (rd) k where "q_lock s = ReadHeld k" "q_lock t = Free"
    | (fr) "q_lock s = Free" "q_lock t = Free"
  using assms by (cases "q_lock s") (auto simp: ghost_def)

lemma ghost_upd_lock: "ghost s t \<Longrightarrow> l \<in> {Free, WriteHeld} \<Longrightarrow> ghost (s\<lparr>q_lock := l\<rparr>) (t\<lparr>q_lock := l\<rparr>)"
  by (cases s; cases t) (auto simp: ghost_def)

lemma ghost_upd_out: "ghost s t \<Longrightarrow> ghost (s\<lparr>out := w\<rparr>) (t\<lparr>out := w'\<rparr>)"
  by (cases s; cases t) (auto simp: ghost_def)

lemma compat_wrlock: "compat wrlock"
  unfolding compat_def
proof (intro allI impI)
  fix s t t' assume g: "ghost s t" and f: "wrlock t = Inr t'"
  from g show "(wrlock s = Inl Blocks \<and> (\<exists>k. q_lock s = ReadHeld k)) \<or> (\<exists>s'. wrlock s = Inr s' \<and> ghost s' t'
      \<and> (if q_lock s \<in> range ReadHeld then q_lock s' = q_lock s else q_lock s' \<in> {Free, WriteHeld}))"
    using f ghost_upd_lock [OF g, of WriteHeld]
    by (cases rule: ghost_cases) (auto simp: wrlock_def)
qed

lemma compat_unlock: "compat unlock"
  unfolding compat_def
proof (intro allI impI disjI2)
  fix s t t' assume g: "ghost s t" and f: "unlock t = Inr t'"
  from g show "\<exists>s'. unlock s = Inr s' \<and> ghost s' t'
      \<and> (if q_lock s \<in> range ReadHeld then q_lock s' = q_lock s else q_lock s' \<in> {Free, WriteHeld})"
    using f ghost_upd_lock [OF g, of Free]
    by (cases rule: ghost_cases) (auto simp: unlock_def)
qed

lemma compat_print: "compat (print_line t)"
  unfolding compat_def print_line_def
  by (auto intro: ghost_upd_out elim: ghost_cases)

lemma compat_thr_fn1: "f \<in> set (thr_fn1 mal n) \<Longrightarrow> compat f"
  by (auto simp: thr_fn1_def thr_fn1_insert_def thr_fn1_delete_def job_insert_def job_append_def
      intro: compat_print compat_wrlock compat_unlock local_compat local_bodies local_thr_fn1 split: if_splits)

text \<open>
  The invariant of the two threads: run alone, the first thread would finish its program in
  good order, and the second holds the read lock exactly while it walks, with the ids printed so
  far being those of the part of the queue it has passed.
\<close>

abbreviation id_at :: "jq \<Rightarrow> addr \<Rightarrow> int option" where
  "id_at s a \<equiv> map_option j_id (jobs s a)"

fun thr2_inv :: "jq \<Rightarrow> thr_fn2_pc \<Rightarrow> bool" where
  "thr2_inv s (Walk p ids) \<longleftrightarrow> q_lock s = ReadHeld 1 \<and> (\<exists>zs ys. queue_rep s (zs @ ys)
     \<and> p = first_or None ys \<and> map Some ids = map (id_at s) zs)"
| "thr2_inv s (Unlock ids) \<longleftrightarrow> q_lock s = ReadHeld 1 \<and> (\<exists>xs. queue_rep s xs
     \<and> map Some ids = map (id_at s) xs)"
| "thr2_inv s _ \<longleftrightarrow> q_lock s \<in> {Free, WriteHeld}"

definition thr1_inv :: "jq \<Rightarrow> jq stmt list \<Rightarrow> bool" where
  "thr1_inv s fs \<longleftrightarrow> (\<exists>t t'. ghost s t \<and> stable t \<and> safe_run orderly fs t
     \<and> run_stmts fs t = Inr t' \<and> q_lock t' \<noteq> WriteHeld) \<and> (\<forall>f \<in> set fs. compat f)"

definition jq_inv :: "jq_sys \<Rightarrow> bool" where
  "jq_inv c \<longleftrightarrow> thr1_inv (shared c) (rest1 c) \<and> thr2_inv (shared c) (pc2 c)"

lemma ghost_rep: "ghost s t \<Longrightarrow> queue_rep s xs = queue_rep t xs"
  by (cases s; cases t) (auto simp: ghost_def queue_rep_def)

lemma ghost_jobs: "ghost s t \<Longrightarrow> jobs s = jobs t"
  by (cases s; cases t) (auto simp: ghost_def)

lemma ghost_out: "ghost s t \<Longrightarrow> ghost (s\<lparr>out := w\<rparr>) t"
  by (cases s; cases t) (auto simp: ghost_def)

lemma ghost_reader:
  "ghost s t \<Longrightarrow> q_lock s \<noteq> WriteHeld \<Longrightarrow> l \<noteq> WriteHeld \<Longrightarrow> ghost (s\<lparr>q_lock := l, out := w\<rparr>) t"
  by (cases s; cases t) (auto simp: ghost_def)

lemma queue_rep_upd [simp]:
  "queue_rep (s\<lparr>out := w\<rparr>) xs = queue_rep s xs" "queue_rep (s\<lparr>q_lock := l\<rparr>) xs = queue_rep s xs"
  by (simp_all add: queue_rep_def)

lemma thr2_inv_thr1:
  assumes g: "ghost s t" and g': "ghost s' t'" and ord: "orderly t t'" and inv: "thr2_inv s pc"
    and lock: "if q_lock s \<in> range ReadHeld then q_lock s' = q_lock s else q_lock s' \<in> {Free, WriteHeld}"
  shows "thr2_inv s' pc"
proof (cases "q_lock s = ReadHeld 1")
  case True
  with lock have l': "q_lock s' = ReadHeld 1" by auto
  with True g g' have "q_lock t \<noteq> WriteHeld" "q_lock t' \<noteq> WriteHeld" by (auto simp: ghost_def)
  with ord have step: "queue_rep t xs \<Longrightarrow> queue_rep t' xs \<and> (\<forall>a \<in> set xs. id_at t' a = id_at t a)" for xs
    by (simp add: orderly_def)
  have *: "queue_rep s xs \<Longrightarrow> queue_rep s' xs \<and> (\<forall>a \<in> set xs. id_at s' a = id_at s a)" for xs
    using step [of xs] ghost_rep [OF g] ghost_rep [OF g'] ghost_jobs [OF g] ghost_jobs [OF g'] by simp
  show ?thesis
  proof (cases pc)
    case (Walk p ids)
    with inv obtain zs ys where r: "queue_rep s (zs @ ys)" "p = first_or None ys"
        "map Some ids = map (id_at s) zs"
      by auto
    then have "map Some ids = map (id_at s') zs" using * [OF r(1)] by (simp add: map_eq_conv)
    with Walk r l' * [OF r(1)] show ?thesis by auto
  next
    case (Unlock ids)
    with inv obtain xs where r: "queue_rep s xs" "map Some ids = map (id_at s) xs"
      by auto
    then have "map Some ids = map (id_at s') xs" using * [OF r(1)] by (simp add: map_eq_conv)
    with Unlock r l' * [OF r(1)] show ?thesis by auto
  qed (use inv True in auto)
next
  case False
  with inv have "q_lock s \<in> {Free, WriteHeld}" by (cases pc) auto
  with lock have "q_lock s' \<in> {Free, WriteHeld}" by (auto split: if_splits)
  with inv False show ?thesis by (cases pc) auto
qed

text \<open>One lemma for each kind of step.\<close>

lemma thr1_step_inv:
  assumes inv: "thr1_inv s (f # fs)" "thr2_inv s pc" and step: "f s = Inr s'"
  shows "thr1_inv s' fs \<and> thr2_inv s' pc"
proof -
  from inv obtain t t' u where g: "ghost s t" and t': "f t = Inr t'" "orderly t t'" "safe_run orderly fs t'"
      and f: "compat f" and u: "run_stmts fs t' = Inr u" "q_lock u \<noteq> WriteHeld"
    unfolding thr1_inv_def by auto
  have "f s \<noteq> Inl Blocks" using step by simp
  then obtain s'' where s'': "f s = Inr s''" "ghost s'' t'" "if q_lock s \<in> range ReadHeld
        then q_lock s'' = q_lock s else q_lock s'' \<in> {Free, WriteHeld}"
    using f g t'(1) unfolding compat_def by blast
  have "s'' = s'" using s''(1) step by simp
  then have g': "ghost s' t'" and lock: "if q_lock s \<in> range ReadHeld
        then q_lock s' = q_lock s else q_lock s' \<in> {Free, WriteHeld}"
    using s''(2,3) by blast+
  have "thr2_inv s' pc" by (rule thr2_inv_thr1 [OF g g' t'(2) inv(2) lock])
  moreover have "stable t'" using t'(2) by (simp add: orderly_def)
  ultimately show ?thesis using inv(1) g' t' u unfolding thr1_inv_def by auto
qed

lemma thr1_inv_out: "thr1_inv s fs \<Longrightarrow> thr1_inv (s\<lparr>out := w\<rparr>) fs"
  unfolding thr1_inv_def using ghost_out by blast

lemma thr1_inv_reader:
  "thr1_inv s fs \<Longrightarrow> q_lock s \<noteq> WriteHeld \<Longrightarrow> l \<noteq> WriteHeld \<Longrightarrow> thr1_inv (s\<lparr>q_lock := l, out := w\<rparr>) fs"
  unfolding thr1_inv_def using ghost_reader by blast

lemma thr1_inv_rep: "thr1_inv s fs \<Longrightarrow> q_lock s \<noteq> WriteHeld \<Longrightarrow> \<exists>xs. queue_rep s xs"
  unfolding thr1_inv_def stable_def using ghost_rep by (auto simp: ghost_def)

lemma thr2_lock_inv:
  assumes inv: "thr1_inv s fs" "q_lock s \<in> {Free, WriteHeld}" and step: "rdlock s = Inr s1"
  shows "thr1_inv (s1\<lparr>out := w\<rparr>) fs \<and> thr2_inv (s1\<lparr>out := w\<rparr>) (Walk (q_head s1) [])"
proof -
  have free: "q_lock s = Free" and s1: "s1 = s\<lparr>q_lock := ReadHeld 1\<rparr>"
    using inv(2) step by (auto simp: rdlock_def)
  obtain xs where xs: "queue_rep s xs" using thr1_inv_rep [OF inv(1)] free by auto
  then have "q_head s = first_or None xs" by (simp add: queue_rep_def)
  with xs s1 have "thr2_inv (s1\<lparr>out := w\<rparr>) (Walk (q_head s1) [])"
    by simp (metis append_Nil list.simps(8))
  with thr1_inv_reader [OF inv(1)] free s1 show ?thesis by simp
qed

lemma thr2_visit_inv:
  assumes inv: "thr2_inv s (Walk (Some a) ids)" and j: "jobs s a = Some j"
  shows "thr2_inv (s\<lparr>out := w\<rparr>) (Walk (j_next j) (ids @ [j_id j]))"
proof -
  from inv obtain zs ys where r: "queue_rep s (zs @ ys)" "Some a = first_or None ys"
      "map Some ids = map (id_at s) zs" "q_lock s = ReadHeld 1"
    unfolding thr2_inv.simps by blast
  from r(2) obtain ys' where ys: "ys = a # ys'" by (cases ys) simp_all
  with r(1) j have "j_next j = first_or None ys'" by (simp add: queue_rep_def)
  moreover have "queue_rep s ((zs @ [a]) @ ys')" using r ys by simp
  moreover have "map Some (ids @ [j_id j]) = map (id_at s) (zs @ [a])" using r j by simp
  ultimately show ?thesis
    using r(4) unfolding thr2_inv.simps
    by (intro conjI exI [of _ "zs @ [a]"] exI [of _ ys']) simp_all
qed

lemma thr2_end_inv:
  assumes "thr2_inv s (Walk None ids)"
  shows "thr2_inv (s\<lparr>out := w\<rparr>) (Unlock ids)"
proof -
  from assms obtain zs ys where r: "queue_rep s (zs @ ys)" "None = first_or None ys"
      "map Some ids = map (id_at s) zs" "q_lock s = ReadHeld 1"
    unfolding thr2_inv.simps by blast
  from r(2) have "ys = []" by (cases ys) simp_all
  with r show ?thesis unfolding thr2_inv.simps by (intro conjI exI [of _ zs]) simp_all
qed

lemma jq_step_inv:
  assumes "jq_step c c'" and "jq_inv c"
  shows "jq_inv c'"
  using assms
proof cases
  case (thr1 f fs s')
  with assms(2) thr1_step_inv [of "shared c" f fs "pc2 c" s'] show ?thesis by (simp add: jq_inv_def)
next
  case thr2_enter
  with assms(2) show ?thesis by (simp add: jq_inv_def)
next
  case (thr2_leave s')
  with assms(2) show ?thesis by (auto simp: jq_inv_def print_line_def thr1_inv_out)
next
  case (thr2_lock s1 s2)
  with assms(2) thr2_lock_inv [of "shared c" "rest1 c" s1] show ?thesis
    by (auto simp: jq_inv_def print_line_def)
next
  case (thr2_visit a ids j)
  with assms(2) thr2_visit_inv [of "shared c" a ids j] show ?thesis
    by (simp add: jq_inv_def thr1_inv_out del: thr2_inv.simps)
next
  case (thr2_end ids)
  with assms(2) thr2_end_inv [of "shared c" ids] show ?thesis
    by (simp add: jq_inv_def thr1_inv_out del: thr2_inv.simps)
next
  case (thr2_unlock ids s')
  then have l: "q_lock (shared c) = ReadHeld 1" using assms(2) by (auto simp: jq_inv_def)
  with thr2_unlock have s': "s' = (shared c)\<lparr>q_lock := Free\<rparr>" by (auto simp: unlock_def)
  have "thr1_inv s' (rest1 c)"
    using thr1_inv_reader [of "shared c" "rest1 c" Free "out (shared c)"] assms(2) l s'
    by (simp add: jq_inv_def)
  with thr2_unlock s' show ?thesis by (simp add: jq_inv_def)
qed

lemma jq_start_inv: "good_malloc mal n \<Longrightarrow> jq_inv (jq_start mal n)"
proof -
  assume good: "good_malloc mal n"
  let ?s = "shared (jq_start mal n)"
  have "safe_run orderly (thr_fn1 mal n) ?s
      \<and> (\<exists>t'. run_stmts (thr_fn1 mal n) ?s = Inr t' \<and> q_lock t' \<noteq> WriteHeld)"
    using hoareD [OF hoare_thr_fn1 [OF good] jq_start_round]
    by (auto simp: round_at_def idle_rep_def)
  moreover have "ghost ?s ?s" "stable ?s" "q_lock ?s = Free"
    by (auto simp: ghost_def jq_start_def queue_init_def stable_def queue_rep_def intro!: exI [of _ "[]"])
  ultimately show ?thesis
    using compat_thr_fn1 by (auto simp: jq_inv_def thr1_inv_def jq_start_def)
qed

interpretation jq_threads: inductive_invariant
  "\<lambda>c. \<exists>mal n. good_malloc mal n \<and> c = jq_start mal n" jq_step jq_inv
  using jq_start_inv jq_step_inv by unfold_locales blast+

lemma thr1_inv_next:
  assumes "thr1_inv s (f # fs)"
  shows "(f s = Inl Blocks \<and> (\<exists>k. q_lock s = ReadHeld k)) \<or> (\<exists>s'. f s = Inr s')"
proof -
  from assms obtain t t' where "ghost s t" "f t = Inr t'" "compat f"
    unfolding thr1_inv_def by auto
  then show ?thesis unfolding compat_def by blast
qed

lemma thr2_inv_walk:
  assumes "thr2_inv s (Walk (Some a) ids)"
  shows "jobs s a \<noteq> None"
proof -
  from assms obtain zs ys where r: "queue_rep s (zs @ ys)" "Some a = first_or None ys"
    unfolding thr2_inv.simps by blast
  then have "a \<in> set (zs @ ys)" using first_or_in [of ys a] by simp
  with r(1) show ?thesis using seg_alloc [of "jobs s" None "zs @ ys" None a] by (auto simp: queue_rep_def)
qed

lemma delay_loop_iff:
  "delay_loop clk d k = Some r \<longleftrightarrow> k \<le> r \<and> d \<le> clk r \<and> (\<forall>i. k \<le> i \<and> i < r \<longrightarrow> clk i < d)"
proof
  assume ret: "delay_loop clk d k = Some r"
  show "k \<le> r \<and> d \<le> clk r \<and> (\<forall>i. k \<le> i \<and> i < r \<longrightarrow> clk i < d)"
  proof (rule delay_loop.raw_induct [where P = "\<lambda>clk d k r. k \<le> r \<and> d \<le> clk r \<and> (\<forall>i. k \<le> i \<and> i < r \<longrightarrow> clk i < d)", OF _ ret])
    fix f and clk :: "nat \<Rightarrow> int" and d k r
    assume IH: "\<And>clk d k r. f clk d k = Some r \<Longrightarrow> k \<le> r \<and> d \<le> clk r \<and> (\<forall>i. k \<le> i \<and> i < r \<longrightarrow> clk i < d)"
      and eq: "(if d > clk k then f clk d (Suc k) else Some k) = Some r"
    show "k \<le> r \<and> d \<le> clk r \<and> (\<forall>i. k \<le> i \<and> i < r \<longrightarrow> clk i < d)"
    proof (cases "clk k < d")
      case True
      with eq IH [of clk d "Suc k" r] have *: "Suc k \<le> r" "d \<le> clk r" "\<forall>i. Suc k \<le> i \<and> i < r \<longrightarrow> clk i < d"
        by auto
      have "clk i < d" if "k \<le> i" "i < r" for i
        using that *(3) True by (cases "i = k") auto
      with * show ?thesis by simp
    next
      case False
      with eq have "r = k" by simp
      with False show ?thesis by auto
    qed
  qed
next
  assume "k \<le> r \<and> d \<le> clk r \<and> (\<forall>i. k \<le> i \<and> i < r \<longrightarrow> clk i < d)"
  then show "delay_loop clk d k = Some r"
  proof (induction "r - k" arbitrary: k)
    case 0
    then show ?case by (simp add: delay_loop.simps)
  next
    case (Suc m)
    then have "delay_loop clk d (Suc k) = Some r" by auto
    moreover have "clk k < d" using Suc by auto
    ultimately show ?case by (simp add: delay_loop.simps [of clk d k])
  qed
qed

text \<open>Every state of the second thread but the two at the lock and the last allows a step.\<close>

lemma thr2_progress:
  assumes "thr2_inv (shared c) (pc2 c)" and "pc2 c \<noteq> RdLock" and "pc2 c \<noteq> Done"
  shows "\<exists>c'. jq_step c c'"
proof (cases "pc2 c")
  case Test
  then show ?thesis
    using jq_step.thr2_leave [of c] jq_step.thr2_enter [of c]
    by (cases "q_head (shared c) = q_tail (shared c)") (auto simp: print_line_def)
next
  case (Walk p ids)
  with assms(1) show ?thesis
    by (cases p) (auto dest: thr2_inv_walk intro: jq_step.thr2_end jq_step.thr2_visit simp del: thr2_inv.simps)
next
  case (Unlock ids)
  with assms(1) have "\<exists>s'. unlock (shared c) = Inr s'" by (auto simp: unlock_def)
  with Unlock show ?thesis by (blast intro: jq_step.thr2_unlock)
qed (use assms in auto)

lemma thr2_lock_progress:
  assumes "pc2 c = RdLock" and "q_lock (shared c) = Free"
  shows "\<exists>c'. jq_step c c'"
  using assms jq_step.thr2_lock [of c] by (auto simp: rdlock_def print_line_def)

lemma thr1_inv_Nil: "thr1_inv s [] \<Longrightarrow> q_lock s \<noteq> WriteHeld"
  by (auto simp: thr1_inv_def ghost_def)

section \<open>Properties of the threads\<close>

text \<open>
  With \<open>malloc\<close> returning distinct blocks, \<open>thr_fn1\<close> runs without a fault; after its first loop
  the queue holds the odd jobs in descending and then the even jobs in ascending order, and after
  the second loop it is empty.
\<close>

lemma thr_fn1_order:
  assumes "good_malloc mal n"
  shows "\<exists>s s'. run_stmts (concat (map (thr_fn1_insert mal) [0..<n])) (shared (jq_start mal n)) = Inr s
    \<and> idle_rep s (map (job_at mal) (rev (filter odd [0..<n]) @ filter even [0..<n]))
    \<and> run_stmts (thr_fn1 mal n) (shared (jq_start mal n)) = Inr s' \<and> idle_rep s' []"
proof -
  obtain s where s: "run_stmts (concat (map (thr_fn1_insert mal) [0..<n])) (shared (jq_start mal n)) = Inr s"
      "idle_rep s (map (job_at mal) (qorder n))"
    using hoareD [OF hoare_loop1 [OF assms] jq_start_round] by (auto simp: round_at_def)
  moreover obtain s' where "run_stmts (thr_fn1 mal n) (shared (jq_start mal n)) = Inr s'" "idle_rep s' []"
    using hoareD [OF hoare_thr_fn1 [OF assms] jq_start_round] by (auto simp: round_at_def)
  ultimately show ?thesis unfolding qorder_eq by blast
qed

text \<open>
  C2: in every interleaving of the two threads, the queue is well formed whenever no writer is
  inside its section, no statement of the first thread fails (it can at most be suspended), the
  second thread never follows a dangling pointer, and when it has finished a walk it has printed
  exactly the ids of the queue as it is then.
\<close>

theorem jq_threads_safe:
  assumes "good_malloc mal n" and "jq_step\<^sup>*\<^sup>* (jq_start mal n) c"
  shows "(q_lock (shared c) \<noteq> WriteHeld \<longrightarrow> (\<exists>xs. queue_rep (shared c) xs))
    \<and> (\<forall>f fs e. rest1 c = f # fs \<longrightarrow> f (shared c) = Inl e \<longrightarrow> e = Blocks)
    \<and> (\<forall>a ids. pc2 c = Walk (Some a) ids \<longrightarrow> jobs (shared c) a \<noteq> None)
    \<and> (\<forall>ids. pc2 c = Unlock ids \<longrightarrow> (\<exists>xs. queue_rep (shared c) xs
         \<and> map Some ids = map (\<lambda>a. map_option j_id (jobs (shared c) a)) xs))"
proof -
  have inv: "thr1_inv (shared c) (rest1 c)" "thr2_inv (shared c) (pc2 c)"
    using jq_threads.inv_reachable [OF _ assms(2)] assms(1) by (auto simp: jq_inv_def)
  have "\<exists>xs. queue_rep (shared c) xs" if "q_lock (shared c) \<noteq> WriteHeld"
    using thr1_inv_rep [OF inv(1) that] .
  moreover have "e = Blocks" if "rest1 c = f # fs" "f (shared c) = Inl e" for f fs e
    using thr1_inv_next [of "shared c" f fs] inv(1) that by auto
  moreover have "jobs (shared c) a \<noteq> None" if "pc2 c = Walk (Some a) ids" for a ids
    using thr2_inv_walk [of "shared c" a ids] inv(2) that by simp
  ultimately show ?thesis using inv(2) by auto
qed

theorem jq_threads_safe_witness:
  "let mal = \<lambda>i. Some (Suc i, \<lparr>j_id = 0, j_prev = None, j_next = None\<rparr>);
       c = (jq_start mal 2)\<lparr>shared := (shared (jq_start mal 2))\<lparr>out := ''inserting'' @ [CHR 0x0A]\<rparr>,
             rest1 := tl (thr_fn1 mal 2)\<rparr>
   in jq_step\<^sup>*\<^sup>* (jq_start mal 2) c \<and> (\<exists>xs. queue_rep (shared c) xs)"
proof -
  let ?mal = "\<lambda>i. Some (Suc i, \<lparr>j_id = 0, j_prev = None, j_next = None\<rparr>)"
  let ?c = "(jq_start ?mal 2)\<lparr>shared := (shared (jq_start ?mal 2))\<lparr>out := ''inserting'' @ [CHR 0x0A]\<rparr>,
             rest1 := tl (thr_fn1 ?mal 2)\<rparr>"
  have good: "good_malloc ?mal 2" by (simp add: good_malloc_def inj_on_def)
  have "thr_fn1 ?mal 2 = print_line ''inserting'' # tl (thr_fn1 ?mal 2)"
    by (simp add: thr_fn1_def thr_fn1_insert_def upt_rec)
  then have "jq_step (jq_start ?mal 2) ?c"
    by (intro jq_step.thr1 [of _ "print_line ''inserting''"])
      (simp_all add: jq_start_def print_line_def queue_init_def)
  then have run: "jq_step\<^sup>*\<^sup>* (jq_start ?mal 2) ?c" ..
  moreover have "q_lock (shared ?c) \<noteq> WriteHeld" by (simp add: jq_start_def queue_init_def)
  ultimately show ?thesis using jq_threads_safe [OF good run] unfolding Let_def by blast
qed

text \<open>
  C22: the two threads never block each other: in every reachable state either both are done or
  some thread can make a step.
\<close>

theorem jq_no_deadlock:
  assumes "good_malloc mal n" and "jq_step\<^sup>*\<^sup>* (jq_start mal n) c"
  shows "(rest1 c = [] \<and> pc2 c = Done) \<or> (\<exists>c'. jq_step c c')"
proof -
  have inv: "thr1_inv (shared c) (rest1 c)" "thr2_inv (shared c) (pc2 c)"
    using jq_threads.inv_reachable [OF _ assms(2)] assms(1) by (auto simp: jq_inv_def)
  show ?thesis
  proof (cases "pc2 c \<in> {RdLock, Done}")
    case True
    with inv(2) have lock: "q_lock (shared c) \<in> {Free, WriteHeld}" by auto
    show ?thesis
    proof (cases "rest1 c")
      case Nil
      with inv(1) lock have "q_lock (shared c) = Free" by (auto dest: thr1_inv_Nil)
      with True Nil show ?thesis by (auto intro: thr2_lock_progress)
    next
      case (Cons f fs)
      then have "\<exists>s'. f (shared c) = Inr s'" using thr1_inv_next [of "shared c" f fs] inv(1) lock by auto
      with Cons show ?thesis by (blast intro: jq_step.thr1)
    qed
  next
    case False
    with inv(2) thr2_progress show ?thesis by blast
  qed
qed

theorem jq_no_deadlock_witness:
  "\<exists>c'. jq_step (jq_start (\<lambda>i. Some (Suc i, \<lparr>j_id = 0, j_prev = None, j_next = None\<rparr>)) 2) c'"
proof -
  let ?mal = "\<lambda>i. Some (Suc i, \<lparr>j_id = 0, j_prev = None, j_next = None\<rparr>)"
  have good: "good_malloc ?mal 2" by (simp add: good_malloc_def inj_on_def)
  show ?thesis using jq_no_deadlock [OF good rtranclp.rtrancl_refl] by (simp add: jq_start_def)
qed

text \<open>
  \<open>delay(sec)\<close> returns exactly at the first poll of the clock that is at least \<open>sec\<close> seconds
  after the time read on entry (and so does not return when no poll is).
\<close>

lemma delay_returns_iff:
  "delay sec clk = Some k \<longleftrightarrow>
     1 \<le> k \<and> clk 0 + sec \<le> clk k \<and> (\<forall>i. 1 \<le> i \<and> i < k \<longrightarrow> clk i < clk 0 + sec)"
  unfolding delay_def by (rule delay_loop_iff)

end
