(* ===== verification/Barrier_Sort.thy ===== *)
theory Barrier_Sort
  imports Unix_Prelude
begin

text \<open>
  The parallel sort of \<open>pthread/barrier_sort.c\<close> and the plain sort of \<open>pthread/norm_qsort.c\<close>:
  worker threads sort disjoint segments of one array with \<open>qsort\<close>, meet the main thread at a
  barrier, and the main thread merges the segments. The numbers of threads and of elements for
  each thread (\<open>NTHR\<close>, \<open>TNUM\<close>) are parameters.
\<close>

section \<open>Comparison and qsort\<close>

definition NTHR :: nat where
  "NTHR = 8"

definition NUMNUM :: nat where
  "NUMNUM = 8000000"

definition TNUM :: nat where
  "TNUM = NUMNUM div NTHR"

text \<open>The largest value of the 64-bit type \<open>long\<close>.\<close>

definition LONG_MAX :: int where
  "LONG_MAX = 2 ^ 63 - 1"

definition cmplong :: "int \<Rightarrow> int \<Rightarrow> int" where
  "cmplong l1 l2 = (if l1 = l2 then 0 else if l1 < l2 then -1 else 1)"

text \<open>What the C standard asks of the function passed to \<open>qsort\<close>: a consistent total order.\<close>

locale comparator =
  fixes cmp :: "'a \<Rightarrow> 'a \<Rightarrow> int"
  assumes total: "cmp x y \<le> 0 \<or> cmp y x \<le> 0"
    and trans: "cmp x y \<le> 0 \<Longrightarrow> cmp y z \<le> 0 \<Longrightarrow> cmp x z \<le> 0"

text \<open>
  What it promises in return: a permutation of the array, in ascending order with respect to the
  comparison function.
\<close>

definition is_qsort :: "(('a \<Rightarrow> 'a \<Rightarrow> int) \<Rightarrow> 'a list \<Rightarrow> 'a list) \<Rightarrow> bool" where
  "is_qsort qs \<longleftrightarrow> (\<forall>cmp xs. mset (qs cmp xs) = mset xs
     \<and> (comparator cmp \<longrightarrow> sorted_wrt (\<lambda>x y. cmp x y \<le> 0) (qs cmp xs)))"

text \<open>One function with that contract, insertion by comparison.\<close>

fun insert_cmp :: "('a \<Rightarrow> 'a \<Rightarrow> int) \<Rightarrow> 'a \<Rightarrow> 'a list \<Rightarrow> 'a list" where
  "insert_cmp cmp x [] = [x]"
| "insert_cmp cmp x (y # ys) = (if cmp x y \<le> 0 then x # y # ys else y # insert_cmp cmp x ys)"

fun sort_cmp :: "('a \<Rightarrow> 'a \<Rightarrow> int) \<Rightarrow> 'a list \<Rightarrow> 'a list" where
  "sort_cmp cmp [] = []"
| "sort_cmp cmp (x # xs) = insert_cmp cmp x (sort_cmp cmp xs)"

section \<open>Threads and barrier\<close>

text \<open>\<open>qsort(&nums[idx], TNUM, ...)\<close>: the segment is sorted in place.\<close>

definition sort_segment ::
  "((int \<Rightarrow> int \<Rightarrow> int) \<Rightarrow> int list \<Rightarrow> int list) \<Rightarrow> nat \<Rightarrow> nat \<Rightarrow> int list \<Rightarrow> int list" where
  "sort_segment qs tnum idx nums =
     take idx nums @ qs cmplong (take tnum (drop idx nums)) @ drop (idx + tnum) nums"

text \<open>
  A worker (\<open>thr_fn\<close>) sorts its segment, waits at the barrier and returns. The main thread creates
  the workers one after the other, waits at the barrier and goes on; a failing \<open>pthread_create\<close>
  ends the process.
\<close>

datatype worker = NotCreated | Created | Sorted | Waiting | Returned
datatype main_pc = Creating nat | MainWaiting | MainPast | is_exit: MainExit int

record sort_sys =
  nums :: "int list"
  workers :: "worker list"
  main_at :: main_pc

text \<open>How many threads wait at the barrier, which opens for \<open>NTHR + 1\<close> of them.\<close>

definition barrier_count :: "sort_sys \<Rightarrow> nat" where
  "barrier_count c = length (filter (\<lambda>w. w = Waiting) (workers c)) + (if main_at c = MainWaiting then 1 else 0)"

inductive sort_step ::
  "((int \<Rightarrow> int \<Rightarrow> int) \<Rightarrow> int list \<Rightarrow> int list) \<Rightarrow> nat \<Rightarrow> nat \<Rightarrow> sort_sys \<Rightarrow> sort_sys \<Rightarrow> bool"
  for qs nthr tnum where
  create: "main_at c = Creating i \<Longrightarrow> i < nthr \<Longrightarrow>
     sort_step qs nthr tnum c (c\<lparr>workers := (workers c)[i := Created], main_at := Creating (Suc i)\<rparr>)"
| create_fails: "main_at c = Creating i \<Longrightarrow> i < nthr \<Longrightarrow>
     sort_step qs nthr tnum c (c\<lparr>main_at := MainExit (-1)\<rparr>)"
| qsort: "\<not> is_exit (main_at c) \<Longrightarrow> i < nthr \<Longrightarrow> workers c ! i = Created \<Longrightarrow>
     sort_step qs nthr tnum c
       (c\<lparr>nums := sort_segment qs tnum (i * tnum) (nums c), workers := (workers c)[i := Sorted]\<rparr>)"
| wait: "\<not> is_exit (main_at c) \<Longrightarrow> i < nthr \<Longrightarrow> workers c ! i = Sorted \<Longrightarrow>
     sort_step qs nthr tnum c (c\<lparr>workers := (workers c)[i := Waiting]\<rparr>)"
| main_wait: "main_at c = Creating nthr \<Longrightarrow>
     sort_step qs nthr tnum c (c\<lparr>main_at := MainWaiting\<rparr>)"
| opens: "barrier_count c = nthr + 1 \<Longrightarrow>
     sort_step qs nthr tnum c
       (c\<lparr>workers := map (\<lambda>w. if w = Waiting then Returned else w) (workers c), main_at := MainPast\<rparr>)"

definition sort_start :: "nat \<Rightarrow> int list \<Rightarrow> sort_sys" where
  "sort_start nthr xs = \<lparr>nums = xs, workers = replicate nthr NotCreated, main_at = Creating 0\<rparr>"

section \<open>The merge\<close>

text \<open>
  The inner loop looks for the smallest of the current heads; \<open>minidx\<close> is declared outside both
  loops and not initialised, so before the first assignment it has no value.
\<close>

definition scan_step :: "nat \<Rightarrow> int list \<Rightarrow> nat list \<Rightarrow> nat \<Rightarrow> (int \<times> nat option) stmt" where
  "scan_step tnum xs idx i = (\<lambda>(num, minidx).
     bindE (aget idx i) (\<lambda>k.
       if k < (i + 1) * tnum
       then bindE (aget xs k) (\<lambda>v. if num > v then Inr (v, Some i) else Inr (num, minidx))
       else Inr (num, minidx)))"

definition merge_iter ::
  "nat \<Rightarrow> nat \<Rightarrow> int list \<Rightarrow> nat \<Rightarrow> (nat list \<times> nat option \<times> int list) stmt" where
  "merge_iter nthr tnum xs sidx = (\<lambda>(idx, minidx, snums).
     bindE (run_stmts (map (scan_step tnum xs idx) [0..<nthr]) (LONG_MAX, minidx)) (\<lambda>(num, mi).
     bindE (aset snums sidx num) (\<lambda>snums'.
     case mi of None \<Rightarrow> Inl Uninitialised
     | Some q \<Rightarrow> bindE (aget idx q) (\<lambda>k. bindE (aset idx q (k + 1)) (\<lambda>idx'. Inr (idx', mi, snums'))))))"

definition merge :: "nat \<Rightarrow> nat \<Rightarrow> int list \<Rightarrow> int list c" where
  "merge nthr tnum xs =
     bindE (run_stmts (map (merge_iter nthr tnum xs) [0..<nthr * tnum])
             (map (\<lambda>i. i * tnum) [0..<nthr], None, replicate (nthr * tnum) 0))
       (\<lambda>(idx, minidx, snums). Inr snums)"

text \<open>The main thread past the barrier.\<close>

definition barrier_sort :: "nat \<Rightarrow> nat \<Rightarrow> sort_sys \<Rightarrow> int list c" where
  "barrier_sort nthr tnum c = (if main_at c = MainPast then merge nthr tnum (nums c) else Inl Blocks)"

text \<open>\<open>norm_qsort.c\<close> sorts the whole array at once.\<close>

definition norm_qsort :: "((int \<Rightarrow> int \<Rightarrow> int) \<Rightarrow> int list \<Rightarrow> int list) \<Rightarrow> int list \<Rightarrow> int list" where
  "norm_qsort qs xs = qs cmplong xs"

section \<open>Lemmas on qsort\<close>

context comparator
begin

lemma set_insert_cmp: "set (insert_cmp cmp x ys) = insert x (set ys)"
  by (induction ys) auto

lemma sorted_insert_cmp:
  "sorted_wrt (\<lambda>x y. cmp x y \<le> 0) ys \<Longrightarrow> sorted_wrt (\<lambda>x y. cmp x y \<le> 0) (insert_cmp cmp x ys)"
proof (induction ys)
  case Nil
  then show ?case by simp
next
  case (Cons y ys)
  then show ?case
    using total [of x y] by (auto simp: set_insert_cmp intro: trans)
qed

lemma sorted_sort_cmp: "sorted_wrt (\<lambda>x y. cmp x y \<le> 0) (sort_cmp cmp xs)"
  by (induction xs) (simp_all add: sorted_insert_cmp)

end

interpretation cmplong: comparator cmplong
  by unfold_locales (auto simp: cmplong_def split: if_splits)

lemma mset_insert_cmp: "mset (insert_cmp cmp x ys) = add_mset x (mset ys)"
  by (induction ys) auto

lemma is_qsort_sort_cmp: "is_qsort sort_cmp"
proof -
  have "mset (sort_cmp cmp xs) = mset xs" for cmp :: "'a \<Rightarrow> 'a \<Rightarrow> int" and xs
    by (induction xs) (simp_all add: mset_insert_cmp)
  then show ?thesis by (simp add: is_qsort_def comparator.sorted_sort_cmp)
qed

lemma cmplong_le: "cmplong x y \<le> 0 \<longleftrightarrow> x \<le> y"
  by (simp add: cmplong_def)

lemma qsort_cmplong:
  assumes "is_qsort qs"
  shows "qs cmplong xs = sort xs"
proof -
  have "mset (qs cmplong xs) = mset xs" and "sorted_wrt (\<lambda>x y. cmplong x y \<le> 0) (qs cmplong xs)"
    using assms cmplong.comparator_axioms unfolding is_qsort_def by blast+
  moreover from this have "sorted (qs cmplong xs)" unfolding cmplong_le by simp
  ultimately show ?thesis by (metis properties_for_sort)
qed

section \<open>Correctness of the merge\<close>

text \<open>
  \<open>unread idx tnum xs i\<close> is what the merge has not yet taken of segment \<open>i\<close>.
\<close>

definition unread :: "nat list \<Rightarrow> nat \<Rightarrow> int list \<Rightarrow> nat \<Rightarrow> int list" where
  "unread idx tnum xs i = map (\<lambda>k. xs ! k) [idx ! i ..< (i + 1) * tnum]"

definition avail :: "nat list \<Rightarrow> nat \<Rightarrow> nat \<Rightarrow> bool" where
  "avail idx tnum i \<longleftrightarrow> idx ! i < (i + 1) * tnum"

lemma unread_Cons:
  "avail idx tnum i \<Longrightarrow>
    unread idx tnum xs i = xs ! (idx ! i) # map (\<lambda>k. xs ! k) [Suc (idx ! i) ..< (i + 1) * tnum]"
  by (simp add: unread_def avail_def upt_conv_Cons)

lemma unread_Nil: "\<not> avail idx tnum i \<Longrightarrow> unread idx tnum xs i = []"
  by (simp add: unread_def avail_def)

lemma segment_end: "i < nthr \<Longrightarrow> (i + 1) * tnum \<le> nthr * (tnum::nat)"
  by (metis Suc_eq_plus1 Suc_leI mult_le_mono1)

text \<open>The inner loop finds the first of the smallest heads.\<close>

lemma scan_correct:
  assumes len: "length xs = nthr * tnum" "length idx = nthr" and m: "m \<le> nthr"
  shows "\<exists>num mi'. run_stmts (map (scan_step tnum xs idx) [0..<m]) (LONG_MAX, mi) = Inr (num, mi')
    \<and> (\<forall>i<m. avail idx tnum i \<longrightarrow> num \<le> xs ! (idx ! i))
    \<and> ((num = LONG_MAX \<and> mi' = mi) \<or> (\<exists>q<m. mi' = Some q \<and> avail idx tnum q \<and> num = xs ! (idx ! q)))"
  using m
proof (induction m)
  case 0
  then show ?case by simp
next
  case (Suc m)
  then obtain num mi' where run: "run_stmts (map (scan_step tnum xs idx) [0..<m]) (LONG_MAX, mi) = Inr (num, mi')"
    and le: "\<forall>i<m. avail idx tnum i \<longrightarrow> num \<le> xs ! (idx ! i)"
    and src: "(num = LONG_MAX \<and> mi' = mi) \<or> (\<exists>q<m. mi' = Some q \<and> avail idx tnum q \<and> num = xs ! (idx ! q))"
    by auto
  show ?case
  proof (cases "avail idx tnum m \<and> num > xs ! (idx ! m)")
    case True
    moreover from this have "idx ! m < length xs"
      using segment_end [of m nthr tnum] Suc.prems len by (auto simp: avail_def)
    ultimately have "run_stmts (map (scan_step tnum xs idx) [0..<Suc m]) (LONG_MAX, mi) = Inr (xs ! (idx ! m), Some m)"
      using run Suc.prems len by (simp add: c_simps scan_step_def avail_def)
    with True le show ?thesis by (fastforce simp: less_Suc_eq)
  next
    case False
    have "idx ! m < length xs" if "avail idx tnum m"
      using that segment_end [of m nthr tnum] Suc.prems len by (auto simp: avail_def)
    with False have "run_stmts (map (scan_step tnum xs idx) [0..<Suc m]) (LONG_MAX, mi) = Inr (num, mi')"
      using run Suc.prems len by (auto simp: c_simps scan_step_def avail_def)
    with False le src show ?thesis by (fastforce simp: less_Suc_eq)
  qed
qed

definition merge_inv :: "nat \<Rightarrow> nat \<Rightarrow> int list \<Rightarrow> nat \<Rightarrow> nat list \<times> nat option \<times> int list \<Rightarrow> bool" where
  "merge_inv nthr tnum xs s = (\<lambda>(idx, mi, sn). length idx = nthr \<and> length sn = nthr * tnum \<and> sorted (take s sn)
     \<and> mset (take s sn) + (\<Sum>i<nthr. mset (unread idx tnum xs i)) = mset xs
     \<and> (\<forall>i<nthr. i * tnum \<le> idx ! i)
     \<and> (\<forall>x \<in> set (take s sn). \<forall>i<nthr. \<forall>y \<in> set (unread idx tnum xs i). x \<le> y))"

definition segments_sorted :: "nat \<Rightarrow> nat \<Rightarrow> int list \<Rightarrow> bool" where
  "segments_sorted nthr tnum xs \<longleftrightarrow> (\<forall>i<nthr. sorted (map (\<lambda>k. xs ! k) [i * tnum ..< (i + 1) * tnum]))"

lemma sorted_unread:
  assumes "segments_sorted nthr tnum xs" and "i < nthr" and "i * tnum \<le> idx ! i"
  shows "sorted (unread idx tnum xs i)"
proof (cases "avail idx tnum i")
  case True
  then have "[i * tnum ..< (i + 1) * tnum] = [i * tnum ..< idx ! i] @ [idx ! i ..< (i + 1) * tnum]"
    using assms(3) by (metis avail_def le_add_diff_inverse less_imp_le_nat upt_add_eq_append)
  moreover have "sorted (map (\<lambda>k. xs ! k) [i * tnum ..< (i + 1) * tnum])"
    using assms by (simp add: segments_sorted_def)
  ultimately show ?thesis by (simp add: unread_def sorted_append)
qed (simp add: unread_Nil)

lemma unread_exists:
  assumes inv: "merge_inv nthr tnum xs s (idx, mi, sn)" and s: "s < nthr * tnum" and len: "length xs = nthr * tnum"
  shows "\<exists>i<nthr. avail idx tnum i"
proof (rule ccontr)
  assume "\<not> ?thesis"
  then have "(\<Sum>i<nthr. mset (unread idx tnum xs i)) = {#}" by (simp add: unread_Nil)
  with inv have "mset (take s sn) = mset xs" by (simp add: merge_inv_def)
  then have "length (take s sn) = length xs" by (metis size_mset)
  with inv s len show False by (simp add: merge_inv_def)
qed

text \<open>Taking the head of one segment.\<close>

lemma unread_advance:
  assumes "q < length idx" and "avail idx tnum q"
  shows "unread (idx[q := Suc (idx ! q)]) tnum xs i
    = (if i = q then tl (unread idx tnum xs q) else unread idx tnum xs i)"
proof (cases "i = q")
  case True
  with assms show ?thesis by (simp add: unread_Cons) (simp add: unread_def)
next
  case False
  with assms show ?thesis by (simp add: unread_def)
qed

lemma sum_unread_advance:
  assumes "q < length idx" and "avail idx tnum q" and "q < nthr"
  shows "(\<Sum>i<nthr. mset (unread idx tnum xs i))
    = add_mset (xs ! (idx ! q)) (\<Sum>i<nthr. mset (unread (idx[q := Suc (idx ! q)]) tnum xs i))"
proof -
  let ?new = "\<lambda>i. mset (unread (idx[q := Suc (idx ! q)]) tnum xs i)"
  have q: "mset (unread idx tnum xs q) = add_mset (xs ! (idx ! q)) (?new q)"
    using assms by (simp add: unread_advance unread_Cons)
  have "(\<Sum>i<nthr. mset (unread idx tnum xs i))
      = mset (unread idx tnum xs q) + (\<Sum>i \<in> {..<nthr} - {q}. mset (unread idx tnum xs i))"
    using assms by (intro sum.remove) auto
  also have "(\<Sum>i \<in> {..<nthr} - {q}. mset (unread idx tnum xs i)) = (\<Sum>i \<in> {..<nthr} - {q}. ?new i)"
    using assms by (intro sum.cong) (auto simp: unread_advance)
  also have "mset (unread idx tnum xs q) + (\<Sum>i \<in> {..<nthr} - {q}. ?new i)
      = add_mset (xs ! (idx ! q)) (?new q + (\<Sum>i \<in> {..<nthr} - {q}. ?new i))"
    by (simp add: q)
  also have "?new q + (\<Sum>i \<in> {..<nthr} - {q}. ?new i) = (\<Sum>i<nthr. ?new i)"
    using assms by (intro sum.remove [symmetric]) auto
  finally show ?thesis .
qed

text \<open>One round of the outer loop appends the smallest unread element.\<close>

lemma merge_iter_inv:
  assumes inv: "merge_inv nthr tnum xs s (idx, mi, sn)" and s: "s < nthr * tnum"
    and len: "length xs = nthr * tnum" and sorted: "segments_sorted nthr tnum xs"
    and small: "\<forall>x \<in> set xs. x < LONG_MAX"
  shows "\<exists>st. merge_iter nthr tnum xs s (idx, mi, sn) = Inr st \<and> merge_inv nthr tnum xs (Suc s) st"
proof -
  have l: "length idx = nthr" "length sn = nthr * tnum" using inv by (simp_all add: merge_inv_def)
  obtain num mi' where run: "run_stmts (map (scan_step tnum xs idx) [0..<nthr]) (LONG_MAX, mi) = Inr (num, mi')"
    and le: "\<forall>i<nthr. avail idx tnum i \<longrightarrow> num \<le> xs ! (idx ! i)"
    and src: "(num = LONG_MAX \<and> mi' = mi) \<or> (\<exists>q<nthr. mi' = Some q \<and> avail idx tnum q \<and> num = xs ! (idx ! q))"
    using scan_correct [OF len l(1) order_refl] by blast
  obtain i where i: "i < nthr" "avail idx tnum i" using unread_exists [OF inv s len] by blast
  then have "idx ! i < length xs" using segment_end [of i nthr tnum] len by (simp add: avail_def)
  with small i le have "num < LONG_MAX" by (meson le_less_trans nth_mem)
  with src obtain q where q: "q < nthr" "mi' = Some q" "avail idx tnum q" "num = xs ! (idx ! q)" by auto
  let ?idx = "idx[q := Suc (idx ! q)]" and ?sn = "sn[s := num]"
  have step: "merge_iter nthr tnum xs s (idx, mi, sn) = Inr (?idx, Some q, ?sn)"
    using run q l s by (simp add: merge_iter_def)
  have tk: "take (Suc s) ?sn = take s sn @ [num]" using l s by (simp add: take_Suc_conv_app_nth)
  have heads: "num \<le> y" if "j < nthr" "y \<in> set (unread idx tnum xs j)" for j y
  proof -
    have "avail idx tnum j" using that unread_Nil by fastforce
    then have "y = xs ! (idx ! j) \<or> xs ! (idx ! j) \<le> y"
      using that sorted_unread [OF sorted that(1), of idx] inv unread_Cons by (auto simp: merge_inv_def)
    with le that \<open>avail idx tnum j\<close> show ?thesis by force
  qed
  have new: "set (unread ?idx tnum xs j) \<subseteq> set (unread idx tnum xs j)" for j
    using l q by (cases "unread idx tnum xs q") (auto simp: unread_advance)
  have "num \<in> set (unread idx tnum xs q)" using q by (simp add: unread_Cons)
  then have below: "x \<le> num" if "x \<in> set (take s sn)" for x
    using inv that q by (auto simp: merge_inv_def)
  have "merge_inv nthr tnum xs (Suc s) (?idx, Some q, ?sn)"
    unfolding merge_inv_def prod.case tk
  proof (intro conjI)
    show "sorted (take s sn @ [num])" using inv below by (simp add: merge_inv_def sorted_append)
    show "mset (take s sn @ [num]) + (\<Sum>i<nthr. mset (unread ?idx tnum xs i)) = mset xs"
      using inv sum_unread_advance [of q idx tnum nthr xs] q l by (simp add: merge_inv_def)
    show "\<forall>i<nthr. i * tnum \<le> ?idx ! i"
      using inv l q(1) by (auto simp: merge_inv_def nth_list_update le_SucI)
    show "\<forall>x \<in> set (take s sn @ [num]). \<forall>i<nthr. \<forall>y \<in> set (unread ?idx tnum xs i). x \<le> y"
      using inv heads subsetD [OF new] by (auto simp: merge_inv_def)
  qed (use l in simp_all)
  with step show ?thesis by blast
qed

lemma merge_loop_inv:
  assumes "s \<le> nthr * tnum" and init: "merge_inv nthr tnum xs 0 st0"
    and len: "length xs = nthr * tnum" and sorted: "segments_sorted nthr tnum xs"
    and small: "\<forall>x \<in> set xs. x < LONG_MAX"
  shows "\<exists>st. run_stmts (map (merge_iter nthr tnum xs) [0..<s]) st0 = Inr st \<and> merge_inv nthr tnum xs s st"
  using assms(1)
proof (induction s)
  case 0
  then show ?case using init by simp
next
  case (Suc s)
  then obtain st where "run_stmts (map (merge_iter nthr tnum xs) [0..<s]) st0 = Inr st" "merge_inv nthr tnum xs s st"
    by auto
  then show ?case
    using merge_iter_inv [OF _ _ len sorted small, of s] Suc.prems
    by (cases st) (fastforce simp: c_simps)
qed

lemma upt_segments: "[0..<n * t] = concat (map (\<lambda>i. [i * t ..< (i + 1) * t]) [0..<n])"
proof (induction n)
  case (Suc n)
  have "[0..<Suc n * t] = [0..<n * t] @ [n * t ..< (n + 1) * t]"
    by (metis Suc_eq_plus1 add.commute le_add1 mult_Suc upt_add_eq_append zero_le)
  with Suc show ?case by simp
qed simp

lemma mset_segments:
  assumes "length xs = n * t"
  shows "(\<Sum>i<n. mset (map (\<lambda>k. xs ! k) [i * t ..< (i + 1) * t])) = mset xs"
proof -
  have "mset (map (\<lambda>k. xs ! k) (concat (map (\<lambda>i. [i * t ..< (i + 1) * t]) [0..<m])))
      = (\<Sum>i<m. mset (map (\<lambda>k. xs ! k) [i * t ..< (i + 1) * t]))" for m
    by (induction m) simp_all
  moreover have "map (\<lambda>k. xs ! k) [0..<n * t] = xs" using assms by (metis map_nth)
  ultimately show ?thesis by (metis upt_segments)
qed

lemma merge_correct:
  assumes len: "length xs = nthr * tnum" and sorted: "segments_sorted nthr tnum xs"
    and small: "\<forall>x \<in> set xs. x < LONG_MAX"
  shows "merge nthr tnum xs = Inr (sort xs)"
proof -
  let ?idx = "map (\<lambda>i. i * tnum) [0..<nthr]"
  have "merge_inv nthr tnum xs 0 (?idx, None, replicate (nthr * tnum) 0)"
    using mset_segments [OF len] by (simp add: merge_inv_def unread_def)
  from merge_loop_inv [OF order_refl this len sorted small]
  obtain idx mi sn where run: "run_stmts (map (merge_iter nthr tnum xs) [0..<nthr * tnum])
      (?idx, None, replicate (nthr * tnum) 0) = Inr (idx, mi, sn)"
    and inv: "merge_inv nthr tnum xs (nthr * tnum) (idx, mi, sn)"
    by auto
  from inv have all: "take (nthr * tnum) sn = sn" by (simp add: merge_inv_def)
  have "mset sn + (\<Sum>i<nthr. mset (unread idx tnum xs i)) = mset xs" "sorted sn" "length sn = length xs"
    using inv len unfolding merge_inv_def prod.case all by auto
  then have "mset sn = mset xs"
    by (metis add_cancel_left_right size_eq_0_iff_empty size_mset size_union)
  with \<open>sorted sn\<close> have "sn = sort xs" by (metis properties_for_sort)
  with run show ?thesis by (simp add: merge_def)
qed

section \<open>The threads up to the barrier\<close>

lemma length_sort_segment:
  assumes "is_qsort qs" and "idx + tnum \<le> length xs"
  shows "length (sort_segment qs tnum idx xs) = length xs"
  using assms(2) by (simp add: sort_segment_def qsort_cmplong [OF assms(1)])

lemma mset_sort_segment:
  assumes "is_qsort qs"
  shows "mset (sort_segment qs tnum idx xs) = mset xs"
proof -
  have "mset xs = mset (take idx xs) + (mset (take tnum (drop idx xs)) + mset (drop tnum (drop idx xs)))"
    by (metis append_take_drop_id mset_append)
  then show ?thesis
    by (simp add: sort_segment_def qsort_cmplong [OF assms] add.commute [of idx])
qed

text \<open>Sorting one segment leaves the others alone.\<close>

definition segment :: "nat \<Rightarrow> int list \<Rightarrow> nat \<Rightarrow> int list" where
  "segment tnum xs i = map (\<lambda>k. xs ! k) [i * tnum ..< (i + 1) * tnum]"

lemma nth_sort_segment:
  assumes "is_qsort qs" and "a + tnum \<le> length xs"
  shows "sort_segment qs tnum a xs ! k
    = (if a \<le> k \<and> k < a + tnum then sort (take tnum (drop a xs)) ! (k - a) else xs ! k)"
  using assms(2) by (simp add: sort_segment_def qsort_cmplong [OF assms(1)] nth_append) auto

lemma segment_take_drop:
  assumes "i * tnum + tnum \<le> length xs"
  shows "segment tnum xs i = take tnum (drop (i * tnum) xs)"
  using assms unfolding segment_def by (intro nth_equalityI) auto

lemma segment_same:
  assumes "is_qsort qs" and "i * tnum + tnum \<le> length xs"
  shows "segment tnum (sort_segment qs tnum (i * tnum) xs) i = sort (segment tnum xs i)"
proof -
  have "segment tnum (sort_segment qs tnum (i * tnum) xs) i = sort (take tnum (drop (i * tnum) xs))"
    using assms(2) nth_sort_segment [OF assms] unfolding segment_def by (intro nth_equalityI) auto
  with segment_take_drop [OF assms(2)] show ?thesis by simp
qed

lemma segment_other:
  assumes "is_qsort qs" and "i * tnum + tnum \<le> length xs" and "i \<noteq> j"
  shows "segment tnum (sort_segment qs tnum (i * tnum) xs) j = segment tnum xs j"
proof -
  have "i * tnum + tnum \<le> j * tnum \<or> j * tnum + tnum \<le> i * tnum"
    using assms(3) by (metis Suc_leI add.commute linorder_neqE_nat mult_Suc mult_le_mono1)
  then show ?thesis
    unfolding segment_def by (intro map_cong refl) (auto simp: nth_sort_segment [OF assms(1,2)])
qed

fun main_ok :: "nat \<Rightarrow> worker list \<Rightarrow> main_pc \<Rightarrow> bool" where
  "main_ok nthr ws (Creating i) \<longleftrightarrow> i \<le> nthr \<and> (\<forall>k<nthr. (ws ! k = NotCreated \<longleftrightarrow> i \<le> k) \<and> ws ! k \<noteq> Returned)"
| "main_ok nthr ws MainWaiting \<longleftrightarrow> (\<forall>k<nthr. ws ! k \<noteq> NotCreated \<and> ws ! k \<noteq> Returned)"
| "main_ok nthr ws MainPast \<longleftrightarrow> (\<forall>k<nthr. ws ! k = Returned)"
| "main_ok nthr ws (MainExit e) \<longleftrightarrow> e = -1"

lemma main_ok_worker:
  assumes "main_ok nthr ws m" and "length ws = nthr" and "i < nthr"
    and "ws ! i \<in> {Created, Sorted}" and "w \<in> {Sorted, Waiting}"
  shows "main_ok nthr (ws[i := w]) m"
  using assms by (cases m) (auto simp: nth_list_update)

definition sort_inv :: "nat \<Rightarrow> nat \<Rightarrow> int list \<Rightarrow> sort_sys \<Rightarrow> bool" where
  "sort_inv nthr tnum xs0 c \<longleftrightarrow> length (nums c) = nthr * tnum \<and> mset (nums c) = mset xs0 \<and> length (workers c) = nthr
     \<and> (\<forall>i<nthr. workers c ! i \<in> {Sorted, Waiting, Returned} \<longrightarrow> sorted (segment tnum (nums c) i))
     \<and> main_ok nthr (workers c) (main_at c)"

lemma barrier_full:
  assumes count: "barrier_count c = nthr + 1" and len: "length (workers c) = nthr"
  shows "main_at c = MainWaiting \<and> (\<forall>w \<in> set (workers c). w = Waiting)"
proof -
  let ?n = "length (filter (\<lambda>w. w = Waiting) (workers c))"
  have le: "?n \<le> length (workers c)" by (rule length_filter_le)
  have m: "main_at c = MainWaiting"
    using count le len by (cases "main_at c = MainWaiting") (simp_all add: barrier_count_def)
  then have "?n = length (workers c)" using count len by (simp add: barrier_count_def)
  then have "\<forall>w \<in> set (workers c). w = Waiting"
    using length_filter_less [of _ "workers c" "\<lambda>w. w = Waiting"] by (metis less_irrefl)
  with m show ?thesis by blast
qed

lemma sort_step_inv:
  assumes qs: "is_qsort qs" and inv: "sort_inv nthr tnum xs0 c" and step: "sort_step qs nthr tnum c c'"
  shows "sort_inv nthr tnum xs0 c'"
  using step
proof cases
  case (create i)
  then show ?thesis using inv by (auto simp: sort_inv_def nth_list_update)
next
  case (create_fails i)
  then show ?thesis using inv by (simp add: sort_inv_def)
next
  case (qsort i)
  have le: "i * tnum + tnum \<le> length (nums c)"
    using inv segment_end [of i nthr tnum] qsort by (simp add: sort_inv_def add.commute)
  then have "length (nums c') = length (nums c)" "mset (nums c') = mset (nums c)"
    using qsort length_sort_segment [OF qs le] mset_sort_segment [OF qs] by simp_all
  moreover have "sorted (segment tnum (nums c') j)" if "j < nthr" "workers c' ! j \<in> {Sorted, Waiting, Returned}" for j
  proof (cases "j = i")
    case True
    then show ?thesis using qsort segment_same [OF qs le] by simp
  next
    case False
    then show ?thesis using qsort segment_other [OF qs le, of j] inv that
      by (auto simp: sort_inv_def nth_list_update)
  qed
  moreover have "main_ok nthr (workers c') (main_at c')"
    using qsort inv main_ok_worker [of nthr "workers c" "main_at c" i Sorted] by (simp add: sort_inv_def)
  ultimately show ?thesis using inv qsort by (simp add: sort_inv_def)
next
  case (wait i)
  then show ?thesis using inv main_ok_worker [of nthr "workers c" "main_at c" i Waiting]
    by (auto simp: sort_inv_def nth_list_update)
next
  case main_wait
  then show ?thesis using inv by (auto simp: sort_inv_def)
next
  case opens
  then show ?thesis using inv barrier_full [of c nthr]
    by (auto simp: sort_inv_def subset_iff)
qed

lemma sort_start_inv: "length xs = nthr * tnum \<Longrightarrow> sort_inv nthr tnum xs (sort_start nthr xs)"
  by (simp add: sort_inv_def sort_start_def)

text \<open>Every step brings some thread further.\<close>

primrec worker_left :: "worker \<Rightarrow> nat" where
  "worker_left NotCreated = 4"
| "worker_left Created = 3"
| "worker_left Sorted = 2"
| "worker_left Waiting = 1"
| "worker_left Returned = 0"

primrec main_left :: "main_pc \<Rightarrow> nat" where
  "main_left (Creating i) = 2"
| "main_left MainWaiting = 1"
| "main_left MainPast = 0"
| "main_left (MainExit e) = 0"

definition sort_msr :: "sort_sys \<Rightarrow> nat" where
  "sort_msr c = sum_list (map worker_left (workers c)) + main_left (main_at c)"

lemma sum_list_worker_update:
  assumes "i < length ws" and "worker_left w < worker_left (ws ! i)"
  shows "sum_list (map worker_left (ws[i := w])) < sum_list (map worker_left ws)"
proof -
  have "worker_left (ws ! i) \<le> sum_list (map worker_left ws)"
    using assms(1) by (simp add: member_le_sum_list)
  with assms show ?thesis by (simp add: map_update sum_list_update)
qed

lemma sort_msr_step:
  assumes inv: "sort_inv nthr tnum xs0 c" and step: "sort_step qs nthr tnum c c'"
  shows "sort_msr c' < sort_msr c"
proof -
  have len: "length (workers c) = nthr" using inv by (simp add: sort_inv_def)
  from step show ?thesis
  proof cases
    case (create i)
    then have "workers c ! i = NotCreated" using inv by (simp add: sort_inv_def)
    with create len show ?thesis
      using sum_list_worker_update [of i "workers c" Created] by (simp add: sort_msr_def)
  next
    case (create_fails i)
    then show ?thesis by (simp add: sort_msr_def)
  next
    case (qsort i)
    with len show ?thesis
      using sum_list_worker_update [of i "workers c" Sorted] by (simp add: sort_msr_def)
  next
    case (wait i)
    with len show ?thesis
      using sum_list_worker_update [of i "workers c" Waiting] by (simp add: sort_msr_def)
  next
    case main_wait
    then show ?thesis by (simp add: sort_msr_def)
  next
    case opens
    have "sum_list (map worker_left (map (\<lambda>w. if w = Waiting then Returned else w) (workers c)))
        \<le> sum_list (map worker_left (workers c))"
      unfolding map_map by (intro sum_list_mono) auto
    with opens barrier_full [of c nthr] len show ?thesis by (simp add: sort_msr_def)
  qed
qed

lemma sort_threads:
  assumes "is_qsort qs" and "length xs = nthr * tnum"
  shows "terminating_system (\<lambda>c. c = sort_start nthr xs) (sort_step qs nthr tnum) (sort_inv nthr tnum xs) sort_msr"
proof
  show "sort_inv nthr tnum xs c" if "c = sort_start nthr xs" for c
    using that sort_start_inv [OF assms(2)] by simp
  show "sort_inv nthr tnum xs c'" if "sort_inv nthr tnum xs c" "sort_step qs nthr tnum c c'" for c c'
    using sort_step_inv [OF assms(1)] that by blast
  show "sort_msr c' < sort_msr c" if "sort_inv nthr tnum xs c" "sort_step qs nthr tnum c c'" for c c'
    using sort_msr_step that by blast
qed

lemma sort_inv_progress:
  assumes inv: "sort_inv nthr tnum xs c" and "main_at c \<noteq> MainPast" and "main_at c \<noteq> MainExit (-1)"
  shows "\<exists>c'. sort_step qs nthr tnum c c'"
proof (cases "main_at c")
  case (Creating i)
  show ?thesis
  proof (cases "i < nthr")
    case True
    with Creating show ?thesis by (blast intro: sort_step.create)
  next
    case False
    with Creating inv have "main_at c = Creating nthr" by (simp add: sort_inv_def)
    then show ?thesis by (blast intro: sort_step.main_wait)
  qed
next
  case MainWaiting
  then have going: "\<not> is_exit (main_at c)" by simp
  consider i where "i < nthr" "workers c ! i = Created" | i where "i < nthr" "workers c ! i = Sorted"
    | "\<forall>i<nthr. workers c ! i = Waiting"
  proof -
    have "workers c ! i \<in> {Created, Sorted, Waiting}" if "i < nthr" for i
      using inv MainWaiting that by (cases "workers c ! i") (auto simp: sort_inv_def)
    then show ?thesis using that by blast
  qed
  then show ?thesis
  proof cases
    case (1 i)
    with going show ?thesis by (blast intro: sort_step.qsort)
  next
    case (2 i)
    with going show ?thesis by (blast intro: sort_step.wait)
  next
    case 3
    then have "filter (\<lambda>w. w = Waiting) (workers c) = workers c"
      using inv by (auto simp: sort_inv_def filter_id_conv in_set_conv_nth)
    then have "barrier_count c = nthr + 1"
      using MainWaiting inv by (simp add: barrier_count_def sort_inv_def)
    then show ?thesis by (blast intro: sort_step.opens)
  qed
next
  case (MainExit e)
  with inv assms show ?thesis by (simp add: sort_inv_def)
qed (use assms in simp)

text \<open>A run of two workers on four numbers, the second worker first.\<close>

definition run_end :: sort_sys where
  "run_end = \<lparr>nums = [1, 3, 0, 2], workers = [Returned, Returned], main_at = MainPast\<rparr>"

lemma sort_run: "(sort_step sort_cmp 2 2)\<^sup>*\<^sup>* (sort_start 2 [3, 1, 2, 0]) run_end"
proof -
  let ?s = "sort_step sort_cmp 2 2" and ?c = "\<lambda>ns ws m. \<lparr>nums = ns, workers = ws, main_at = m\<rparr>"
  have "?s (sort_start 2 [3, 1, 2, 0]) (?c [3, 1, 2, 0] [Created, NotCreated] (Creating 1))"
    using sort_step.create [of "sort_start 2 [3, 1, 2, 0]" 0 2] by (simp add: sort_start_def numeral_2_eq_2)
  moreover have "?s (?c [3, 1, 2, 0] [Created, NotCreated] (Creating 1)) (?c [3, 1, 2, 0] [Created, Created] (Creating 2))"
    using sort_step.create [of "?c [3, 1, 2, 0] [Created, NotCreated] (Creating 1)" 1 2] by (simp add: numeral_2_eq_2)
  moreover have "?s (?c [3, 1, 2, 0] [Created, Created] (Creating 2)) (?c [3, 1, 0, 2] [Created, Sorted] (Creating 2))"
    using sort_step.qsort [of "?c [3, 1, 2, 0] [Created, Created] (Creating 2)" 1 2 sort_cmp 2]
    by (simp add: sort_segment_def cmplong_def)
  moreover have "?s (?c [3, 1, 0, 2] [Created, Sorted] (Creating 2)) (?c [3, 1, 0, 2] [Created, Sorted] MainWaiting)"
    using sort_step.main_wait [of "?c [3, 1, 0, 2] [Created, Sorted] (Creating 2)" 2] by simp
  moreover have "?s (?c [3, 1, 0, 2] [Created, Sorted] MainWaiting) (?c [3, 1, 0, 2] [Created, Waiting] MainWaiting)"
    using sort_step.wait [of "?c [3, 1, 0, 2] [Created, Sorted] MainWaiting" 1 2] by simp
  moreover have "?s (?c [3, 1, 0, 2] [Created, Waiting] MainWaiting) (?c [1, 3, 0, 2] [Sorted, Waiting] MainWaiting)"
    using sort_step.qsort [of "?c [3, 1, 0, 2] [Created, Waiting] MainWaiting" 0 2 sort_cmp 2]
    by (simp add: sort_segment_def cmplong_def)
  moreover have "?s (?c [1, 3, 0, 2] [Sorted, Waiting] MainWaiting) (?c [1, 3, 0, 2] [Waiting, Waiting] MainWaiting)"
    using sort_step.wait [of "?c [1, 3, 0, 2] [Sorted, Waiting] MainWaiting" 0 2] by simp
  moreover have "?s (?c [1, 3, 0, 2] [Waiting, Waiting] MainWaiting) run_end"
    using sort_step.opens [of "?c [1, 3, 0, 2] [Waiting, Waiting] MainWaiting" 2] by (simp add: run_end_def barrier_count_def)
  ultimately show ?thesis by (meson converse_rtranclp_into_rtranclp rtranclp.rtrancl_refl)
qed

section \<open>Properties of the parallel sort\<close>

text \<open>
  C3: if every number is below \<open>LONG_MAX\<close> (\<open>random\<close> returns at most \<open>2 ^ 31 - 1\<close>), then, whatever
  order the threads run in, once the main thread is past the barrier its merge ends without a
  fault and yields exactly what \<open>norm_qsort.c\<close> computes: the array in ascending order.
\<close>

theorem barrier_sort_correct:
  assumes "is_qsort qs" and "length xs = nthr * tnum" and "\<forall>x \<in> set xs. x < LONG_MAX"
    and "(sort_step qs nthr tnum)\<^sup>*\<^sup>* (sort_start nthr xs) c" and "main_at c = MainPast"
  shows "barrier_sort nthr tnum c = Inr (norm_qsort qs xs) \<and> norm_qsort qs xs = sort xs"
proof -
  have inv: "sort_inv nthr tnum xs c"
    using inductive_invariant.inv_reachable [OF terminating_system.axioms(1) [OF sort_threads [OF assms(1,2)]] refl assms(4)] .
  then have mset: "mset (nums c) = mset xs" and len: "length (nums c) = nthr * tnum"
    and sorted: "segments_sorted nthr tnum (nums c)"
    using assms(5) by (simp_all add: sort_inv_def segments_sorted_def segment_def)
  have "\<forall>x \<in> set (nums c). x < LONG_MAX" using assms(3) mset by (metis mset_eq_setD)
  with merge_correct [OF len sorted] have "merge nthr tnum (nums c) = Inr (sort (nums c))" by blast
  moreover have "sort (nums c) = sort xs" using mset by (metis mset_sort properties_for_sort sorted_sort)
  ultimately show ?thesis
    using assms(5) by (simp add: barrier_sort_def norm_qsort_def qsort_cmplong [OF assms(1)])
qed

theorem barrier_sort_correct_witness: "barrier_sort 2 2 run_end = Inr [0, 1, 2, 3]"
  using barrier_sort_correct [OF is_qsort_sort_cmp _ _ sort_run] by (simp add: run_end_def LONG_MAX_def)

text \<open>
  C25: a run of the threads has at most \<open>4 * NTHR + 2\<close> steps, and it can only stop with the main
  thread past the barrier or after a failed \<open>pthread_create\<close>: the barrier never blocks forever.
\<close>

theorem barrier_passed:
  assumes "is_qsort qs" and "length xs = nthr * tnum"
    and "(sort_step qs nthr tnum ^^ k) (sort_start nthr xs) c"
  shows "k \<le> 4 * nthr + 2 \<and> (main_at c = MainPast \<or> main_at c = MainExit (-1) \<or> (\<exists>c'. sort_step qs nthr tnum c c'))"
proof -
  note sys = sort_threads [OF assms(1,2)]
  have "k + sort_msr c \<le> sort_msr (sort_start nthr xs)"
    using terminating_system.run_length [OF sys assms(3)] sort_start_inv [OF assms(2)] .
  moreover have "sort_msr (sort_start nthr xs) = 4 * nthr + 2"
    by (simp add: sort_msr_def sort_start_def sum_list_replicate)
  moreover have "sort_inv nthr tnum xs c"
    using inductive_invariant.inv_reachable [OF terminating_system.axioms(1) [OF sys] refl]
      relpowp_imp_rtranclp [OF assms(3)] by blast
  ultimately show ?thesis using sort_inv_progress by (metis add_leE)
qed

theorem barrier_passed_witness: "\<exists>k \<le> 10. (sort_step sort_cmp 2 2 ^^ k) (sort_start 2 [3, 1, 2, 0]) run_end"
proof -
  obtain k where k: "(sort_step sort_cmp 2 2 ^^ k) (sort_start 2 [3, 1, 2, 0]) run_end"
    using rtranclp_imp_relpowp [OF sort_run] by blast
  with barrier_passed [OF is_qsort_sort_cmp _ k] show ?thesis by auto
qed

lemma scan_LONG_MAX:
  assumes "length xs = nthr * tnum" and "\<forall>x \<in> set xs. x = LONG_MAX" and "m \<le> nthr" and "length idx = nthr"
  shows "run_stmts (map (scan_step tnum xs idx) [0..<m]) (LONG_MAX, mi) = Inr (LONG_MAX, mi)"
  using assms(3)
proof (induction m)
  case 0
  then show ?case by simp
next
  case (Suc m)
  then have "Suc m * tnum \<le> length xs" using assms(1) by (metis mult_le_mono1)
  then have "k < Suc m * tnum \<Longrightarrow> xs ! k = LONG_MAX" for k
    using assms(2) by (metis nth_mem less_le_trans)
  with Suc \<open>Suc m * tnum \<le> length xs\<close> assms(4) show ?case
    by (auto simp: c_simps scan_step_def)
qed

text \<open>
  The merge relies on a number below \<open>LONG_MAX\<close> being there: on an array that holds only
  \<open>LONG_MAX\<close> it uses \<open>minidx\<close> before anything was assigned to it.
\<close>

lemma merge_LONG_MAX:
  assumes "length xs = nthr * tnum" and "xs \<noteq> []" and "\<forall>x \<in> set xs. x = LONG_MAX"
  shows "merge nthr tnum xs = Inl Uninitialised"
proof -
  have "0 < nthr * tnum" using assms by (metis length_greater_0_conv)
  then obtain n where n: "nthr * tnum = Suc n" by (metis gr0_conv_Suc)
  have "merge_iter nthr tnum xs 0 (map (\<lambda>i. i * tnum) [0..<nthr], None, replicate (nthr * tnum) 0) = Inl Uninitialised"
    using scan_LONG_MAX [OF assms(1,3) order_refl] n by (simp add: merge_iter_def)
  then show ?thesis by (simp add: merge_def n upt_rec)
qed

end
