(* ===== verification/Foo_Refcount.thy ===== *)
theory Foo_Refcount
  imports Unix_Prelude
begin

text \<open>
  The reference counted object of \<open>pthread/pthread_mutex.c\<close>: \<open>foo_alloc\<close>, \<open>foo_hold\<close> and
  \<open>foo_rele\<close> on a heap of structures with a mutex each, and the two threads of the program as the
  sequences of calls they make. Every call holds the mutex of its object while it works on the
  count, so the threads interleave call by call. The lemmas refine the calls to a map of counts,
  and decide for every interleaving whether it touches a freed object.
\<close>

section \<open>The object\<close>

datatype mutex = MFree | MHeld | MDestroyed

record foo =
  f_count :: int
  f_lock :: mutex
  f_id :: int

text \<open>The memory the threads share, and what was printed.\<close>

datatype foo_line = FooLine int int | DeinitLine int

record foo_mem =
  foos :: "addr \<rightharpoonup> foo"
  foo_out :: "foo_line list"

definition foo_store :: "addr option \<Rightarrow> (foo \<Rightarrow> foo) \<Rightarrow> foo_mem stmt" where
  "foo_store fp f s = bindE (store fp f (foos s)) (\<lambda>h. Inr (s\<lparr>foos := h\<rparr>))"

definition foo_print :: "addr option \<Rightarrow> (foo \<Rightarrow> foo_line) \<Rightarrow> foo_mem stmt" where
  "foo_print fp f s = bindE (deref (foos s) fp) (\<lambda>v. Inr (s\<lparr>foo_out := foo_out s @ [f v]\<rparr>))"

definition foo_mutex_lock :: "addr option \<Rightarrow> foo_mem stmt" where
  "foo_mutex_lock fp s = bindE (deref (foos s) fp) (\<lambda>v.
     case f_lock v of MFree \<Rightarrow> foo_store fp (f_lock_update (\<lambda>_. MHeld)) s
     | MHeld \<Rightarrow> Inl Blocks | MDestroyed \<Rightarrow> Inl UseAfterFree)"

definition foo_mutex_unlock :: "addr option \<Rightarrow> foo_mem stmt" where
  "foo_mutex_unlock fp s = bindE (deref (foos s) fp) (\<lambda>v.
     if f_lock v = MHeld then foo_store fp (f_lock_update (\<lambda>_. MFree)) s else Inl NotHeld)"

definition foo_mutex_destroy :: "addr option \<Rightarrow> foo_mem stmt" where
  "foo_mutex_destroy fp s = bindE (deref (foos s) fp) (\<lambda>v.
     case f_lock v of MFree \<Rightarrow> foo_store fp (f_lock_update (\<lambda>_. MDestroyed)) s
     | MHeld \<Rightarrow> Inl Blocks | MDestroyed \<Rightarrow> Inl UseAfterFree)"

text \<open>\<open>free\<close> of \<open>NULL\<close> does nothing.\<close>

definition foo_free :: "addr option \<Rightarrow> foo_mem stmt" where
  "foo_free fp s = (case fp of None \<Rightarrow> Inr s
     | Some a \<Rightarrow> (if foos s a = None then Inl UseAfterFree else Inr (s\<lparr>foos := (foos s)(a := None)\<rparr>)))"

text \<open>
  \<open>m\<close> is what \<open>malloc\<close> returns and \<open>init_err\<close> what \<open>pthread_mutex_init\<close> returns.
\<close>

definition foo_alloc :: "addr option \<Rightarrow> int \<Rightarrow> int \<Rightarrow> foo_mem \<Rightarrow> addr option \<times> foo_mem" where
  "foo_alloc m init_err fid s = (case m of None \<Rightarrow> (None, s)
     | Some a \<Rightarrow> (if init_err \<noteq> 0 then (None, s\<lparr>foos := (foos s)(a := None)\<rparr>)
                 else (Some a, s\<lparr>foos := (foos s)(a \<mapsto> \<lparr>f_count = 1, f_lock = MFree, f_id = fid\<rparr>)\<rparr>)))"

definition foo_hold :: "addr option \<Rightarrow> foo_mem stmt" where
  "foo_hold fp = run_stmts
     [foo_mutex_lock fp,
      foo_print fp (\<lambda>v. FooLine (f_id v) (f_count v)),
      foo_store fp (f_count_update (\<lambda>n. n + 1)),
      foo_mutex_unlock fp]"

definition foo_rele :: "addr option \<Rightarrow> foo_mem stmt" where
  "foo_rele fp = run_stmts
     [foo_mutex_lock fp,
      foo_store fp (f_count_update (\<lambda>n. n - 1)),
      \<lambda>s. bindE (deref (foos s) fp) (\<lambda>v.
        if f_count v = 0
        then run_stmts [foo_print fp (\<lambda>v. DeinitLine (f_id v)),
                        foo_mutex_unlock fp, foo_mutex_destroy fp, foo_free fp] s
        else foo_mutex_unlock fp s)]"

section \<open>The threads\<close>

datatype foo_call = Hold "addr option" | Rele "addr option"

primrec do_call :: "foo_call \<Rightarrow> foo_mem stmt" where
  "do_call (Hold fp) = foo_hold fp"
| "do_call (Rele fp) = foo_rele fp"

definition foo_thr_fn1 :: "addr option \<Rightarrow> addr option \<Rightarrow> foo_call list" where
  "foo_thr_fn1 foo_val1 foo_val2 =
     replicate 20 (Hold foo_val1) @ replicate 22 (Hold foo_val2) @
     replicate 20 (Rele foo_val1) @ replicate 22 (Rele foo_val2)"

definition foo_thr_fn2 :: "addr option \<Rightarrow> addr option \<Rightarrow> foo_call list" where
  "foo_thr_fn2 foo_val1 foo_val2 =
     replicate 20 (Hold foo_val1) @ replicate 22 (Hold foo_val2) @
     replicate 21 (Rele foo_val1) @ replicate 23 (Rele foo_val2)"

text \<open>
  The calls of both threads in some order that keeps the order of each thread, every call with
  the thread that makes it.
\<close>

datatype foo_thread = Thr1 | Thr2

definition foo_interleavings :: "addr option \<Rightarrow> addr option \<Rightarrow> (foo_thread \<times> foo_call) list set" where
  "foo_interleavings foo_val1 foo_val2 =
     shuffles (map (Pair Thr1) (foo_thr_fn1 foo_val1 foo_val2)) (map (Pair Thr2) (foo_thr_fn2 foo_val1 foo_val2))"

text \<open>
  The program: \<open>m1\<close>, \<open>e1\<close>, \<open>m2\<close> and \<open>e2\<close> are what \<open>malloc\<close> and \<open>pthread_mutex_init\<close> return, and
  \<open>sched\<close> orders the calls of the two threads.
\<close>

definition foo_main ::
  "addr option \<Rightarrow> int \<Rightarrow> addr option \<Rightarrow> int
   \<Rightarrow> (addr option \<Rightarrow> addr option \<Rightarrow> (foo_thread \<times> foo_call) list) \<Rightarrow> foo_mem stmt" where
  "foo_main m1 e1 m2 e2 sched s =
     (let (foo_val1, s1) = foo_alloc m1 e1 1 s; (foo_val2, s2) = foo_alloc m2 e2 2 s1
      in run_stmts (map (do_call \<circ> snd) (sched foo_val1 foo_val2)) s2)"

section \<open>The calls on counts\<close>

text \<open>
  What the calls do to the counts: a freed object has none, and an object is freed when its
  count would become zero.
\<close>

definition refs :: "foo_mem \<Rightarrow> addr \<Rightarrow> int option" where
  "refs s = (\<lambda>a. map_option f_count (foos s a))"

definition put_count :: "int \<Rightarrow> int option" where
  "put_count n = (if n = 0 then None else Some n)"

primrec ref_call :: "foo_call \<Rightarrow> (addr \<rightharpoonup> int) stmt" where
  "ref_call (Hold fp) m = bindE (deref m fp) (\<lambda>n. Inr (m(the fp \<mapsto> n + 1)))"
| "ref_call (Rele fp) m = bindE (deref m fp) (\<lambda>n. Inr (m(the fp := put_count (n - 1))))"

definition unlocked :: "foo_mem \<Rightarrow> bool" where
  "unlocked s \<longleftrightarrow> (\<forall>a v. foos s a = Some v \<longrightarrow> f_lock v = MFree)"

lemmas foo_defs = foo_hold_def foo_rele_def foo_mutex_lock_def foo_mutex_unlock_def foo_mutex_destroy_def
  foo_store_def foo_print_def foo_free_def

lemma foo_hold_found:
  assumes "foos s a = Some v" and "f_lock v = MFree"
  shows "foo_hold (Some a) s = Inr (s\<lparr>foos := (foos s)(a \<mapsto> v\<lparr>f_count := f_count v + 1\<rparr>),
    foo_out := foo_out s @ [FooLine (f_id v) (f_count v)]\<rparr>)"
  using assms by (cases s; cases v) (simp add: foo_defs)

lemma foo_rele_found:
  assumes "foos s a = Some v" and "f_lock v = MFree"
  shows "foo_rele (Some a) s =
    (if f_count v = 1 then Inr (s\<lparr>foos := (foos s)(a := None), foo_out := foo_out s @ [DeinitLine (f_id v)]\<rparr>)
     else Inr (s\<lparr>foos := (foos s)(a \<mapsto> v\<lparr>f_count := f_count v - 1\<rparr>)\<rparr>))"
  using assms by (cases s; cases v) (simp add: foo_defs)

lemma foo_call_lost:
  "foo_hold None s = Inl NullDeref" "foo_rele None s = Inl NullDeref"
  "foos s a = None \<Longrightarrow> foo_hold (Some a) s = Inl UseAfterFree"
  "foos s a = None \<Longrightarrow> foo_rele (Some a) s = Inl UseAfterFree"
  by (simp_all add: foo_defs)

lemma foo_call_refines:
  assumes "unlocked s"
  shows "map_sum id refs (do_call c s) = ref_call c (refs s)"
proof (cases c)
  case (Hold fp)
  show ?thesis
  proof (cases fp)
    case (Some a)
    with Hold assms show ?thesis
      by (cases "foos s a") (auto simp: foo_call_lost foo_hold_found unlocked_def refs_def deref_def fun_eq_iff)
  qed (simp add: Hold foo_call_lost)
next
  case (Rele fp)
  show ?thesis
  proof (cases fp)
    case (Some a)
    with Rele assms show ?thesis
      by (cases "foos s a") (auto simp: foo_call_lost foo_rele_found unlocked_def refs_def deref_def put_count_def fun_eq_iff)
  qed (simp add: Rele foo_call_lost)
qed

lemma foo_call_unlocked:
  assumes "unlocked s" and "do_call c s = Inr s'"
  shows "unlocked s'"
proof -
  obtain fp where fp: "c = Hold fp \<or> c = Rele fp" by (cases c) auto
  with assms obtain a v where a: "fp = Some a" "foos s a = Some v"
    by (cases fp; cases "foos s (the fp)") (auto simp: foo_call_lost)
  then have "f_lock v = MFree" using assms(1) by (simp add: unlocked_def)
  with fp a assms show ?thesis
    by (auto simp: foo_hold_found foo_rele_found unlocked_def split: if_splits)
qed

lemma foo_calls_refine:
  "unlocked s \<Longrightarrow> map_sum id refs (run_stmts (map do_call cs) s) = run_stmts (map ref_call cs) (refs s)"
proof (induction cs arbitrary: s)
  case Nil
  then show ?case by simp
next
  case (Cons c cs)
  have step: "map_sum id refs (do_call c s) = ref_call c (refs s)" using Cons.prems by (rule foo_call_refines)
  show ?case
  proof (cases "do_call c s")
    case (Inl e)
    with step have "ref_call c (refs s) = Inl e" by simp
    with Inl show ?thesis by simp
  next
    case (Inr s')
    with step have "ref_call c (refs s) = Inr (refs s')" by simp
    with Inr Cons.IH [OF foo_call_unlocked [OF Cons.prems Inr]] show ?thesis by simp
  qed
qed

section \<open>One object\<close>

primrec call_on :: "foo_call \<Rightarrow> addr option" where
  "call_on (Hold fp) = fp"
| "call_on (Rele fp) = fp"

primrec delta :: "foo_call \<Rightarrow> int" where
  "delta (Hold fp) = 1"
| "delta (Rele fp) = -1"

text \<open>
  The calls on an object with count \<open>n\<close> succeed if the count does not become zero before the last
  of them.
\<close>

definition deltas :: "addr \<Rightarrow> foo_call list \<Rightarrow> int list" where
  "deltas a cs = map delta (filter (\<lambda>c. call_on c = Some a) cs)"

fun obj_run :: "int list \<Rightarrow> int option \<Rightarrow> int option option" where
  "obj_run [] n = Some n"
| "obj_run (d # ds) None = None"
| "obj_run (d # ds) (Some n) = obj_run ds (put_count (n + d))"

lemma ref_call_found:
  assumes "call_on c = Some a" and "m a = Some n" and "0 < n"
  shows "ref_call c m = Inr (m(a := put_count (n + delta c)))"
  using assms by (cases c) (auto simp: put_count_def)

lemma ref_call_lost: "call_on c = Some a \<Longrightarrow> m a = None \<Longrightarrow> ref_call c m = Inl UseAfterFree"
  by (cases c) simp_all

lemma delta_cases: "delta c = 1 \<or> delta c = -1"
  by (cases c) simp_all

lemma ref_calls_run:
  assumes "\<forall>c \<in> set cs. call_on c \<noteq> None" and "\<forall>a n. m a = Some n \<longrightarrow> 0 < n"
  shows "if \<exists>a. obj_run (deltas a cs) (m a) = None then run_stmts (map ref_call cs) m = Inl UseAfterFree
         else run_stmts (map ref_call cs) m = Inr (\<lambda>a. the (obj_run (deltas a cs) (m a)))"
  using assms
proof (induction cs arbitrary: m)
  case Nil
  then show ?case by (simp add: deltas_def)
next
  case (Cons c cs)
  then obtain a where a: "call_on c = Some a" by auto
  have other: "deltas b (c # cs) = deltas b cs" if "b \<noteq> a" for b using a that by (simp add: deltas_def)
  have here: "deltas a (c # cs) = delta c # deltas a cs" using a by (simp add: deltas_def)
  show ?case
  proof (cases "m a")
    case None
    then have "\<exists>a. obj_run (deltas a (c # cs)) (m a) = None" using here by (metis obj_run.simps(2))
    with None a show ?thesis by (simp add: ref_call_lost)
  next
    case (Some n)
    let ?m = "m(a := put_count (n + delta c))"
    have n: "0 < n" using Some Cons.prems by blast
    have same: "obj_run (deltas b (c # cs)) (m b) = obj_run (deltas b cs) (?m b)" for b
      using other [of b] here Some by (cases "b = a") simp_all
    have "\<forall>b k. ?m b = Some k \<longrightarrow> 0 < k"
      using Cons.prems(2) n delta_cases [of c] by (auto simp: put_count_def split: if_splits)
    with Cons.IH [of ?m] Cons.prems(1)
    have "if \<exists>a. obj_run (deltas a cs) (?m a) = None then run_stmts (map ref_call cs) ?m = Inl UseAfterFree
          else run_stmts (map ref_call cs) ?m = Inr (\<lambda>a. the (obj_run (deltas a cs) (?m a)))" by simp
    with same ref_call_found [of c a m n, OF a Some n] show ?thesis by simp
  qed
qed

lemma obj_run_None: "obj_run ds None = (if ds = [] then Some None else None)"
  by (cases ds) simp_all

lemma obj_run_sum:
  "n \<noteq> 0 \<Longrightarrow> obj_run ds (Some n) =
     (if \<exists>k. 0 < k \<and> k < length ds \<and> n + sum_list (take k ds) = 0 then None
      else Some (put_count (n + sum_list ds)))"
proof (induction ds arbitrary: n)
  case Nil
  then show ?case by (simp add: put_count_def)
next
  case (Cons d ds)
  have split: "(\<exists>k. 0 < k \<and> k < length (d # ds) \<and> n + sum_list (take k (d # ds)) = 0)
      \<longleftrightarrow> (ds \<noteq> [] \<and> n + d = 0) \<or> (\<exists>k. 0 < k \<and> k < length ds \<and> n + d + sum_list (take k ds) = 0)"
    (is "?l \<longleftrightarrow> ?r")
  proof
    assume ?l
    then obtain k where "k < length ds" "n + d + sum_list (take k ds) = 0"
      by (metis (no_types, lifting) add.assoc gr0_conv_Suc length_Cons not_less_eq sum_list.Cons take_Suc_Cons)
    then show ?r by (cases k) auto
  next
    assume ?r
    then show ?l
    proof
      assume "ds \<noteq> [] \<and> n + d = 0"
      then show ?l by (intro exI [of _ 1]) simp
    next
      assume "\<exists>k. 0 < k \<and> k < length ds \<and> n + d + sum_list (take k ds) = 0"
      then obtain k where "0 < k" "k < length ds" "n + d + sum_list (take k ds) = 0" by blast
      then show ?l by (intro exI [of _ "Suc k"]) (simp add: add.assoc)
    qed
  qed
  show ?case
  proof (cases "n + d = 0")
    case True
    then show ?thesis unfolding split by (auto simp: put_count_def obj_run_None)
  next
    case False
    then show ?thesis unfolding split using Cons.IH [of "n + d"] by (auto simp: put_count_def add.assoc)
  qed
qed

section \<open>Two threads\<close>

text \<open>
  The calls on one object: \<open>thr_fn1\<close> takes and releases \<open>k\<close> references, \<open>thr_fn2\<close> releases one more
  than it takes.
\<close>

definition balanced :: "nat \<Rightarrow> int list" where
  "balanced k = replicate k 1 @ replicate k (-1)"

definition releasing :: "nat \<Rightarrow> int list" where
  "releasing k = replicate k 1 @ replicate (Suc k) (-1)"

lemma sum_take_up_down:
  "sum_list (take i (replicate k (1 :: int) @ replicate l (-1))) = int (min i k) - int (min (i - k) l)"
  by (simp add: min_def sum_list_replicate)

lemma sum_balanced: "sum_list (take i (balanced k)) \<ge> 0"
  "sum_list (take i (balanced k)) = 0 \<longleftrightarrow> i = 0 \<or> 2 * k \<le> i"
  unfolding balanced_def sum_take_up_down by (auto simp: min_def)

lemma sum_releasing: "sum_list (take j (releasing k)) \<ge> -1"
  "sum_list (take j (releasing k)) = -1 \<longleftrightarrow> 2 * k + 1 \<le> j"
  unfolding releasing_def sum_take_up_down by (auto simp: min_def)

lemma sum_by_thread:
  "sum_list (map snd zs) = sum_list (map snd (filter (\<lambda>z. fst z = Thr1) zs)) + sum_list (map snd (filter (\<lambda>z. fst z = Thr2) zs))"
  for zs :: "(foo_thread \<times> int) list"
proof (induction zs)
  case (Cons z zs)
  then show ?case by (cases "fst z") simp_all
qed simp

text \<open>No call of the first thread comes before one of the second.\<close>

definition thr2_first :: "foo_thread list \<Rightarrow> bool" where
  "thr2_first ts \<longleftrightarrow> sorted_wrt (\<lambda>t u. t = Thr1 \<longrightarrow> u = Thr1) ts"

lemma thr1_rest: "\<forall>y \<in> set zs. fst y = Thr1 \<Longrightarrow> sorted_wrt (\<lambda>t u. t = Thr1 \<longrightarrow> u = Thr1) (map fst zs)"
  by (induction zs) auto

lemma thr2_first_iff:
  "thr2_first (map fst zs) \<longleftrightarrow> (\<exists>m. (\<forall>z \<in> set (take m zs). fst z = Thr2) \<and> (\<forall>z \<in> set (drop m zs). fst z = Thr1))"
proof (induction zs)
  case Nil
  then show ?case by (simp add: thr2_first_def)
next
  case (Cons z zs)
  show ?case
  proof (cases "fst z")
    case Thr1
    then have "thr2_first (map fst (z # zs)) \<longleftrightarrow> (\<forall>y \<in> set zs. fst y = Thr1)"
      using thr1_rest [of zs] by (auto simp: thr2_first_def)
    moreover have "(\<exists>m. (\<forall>z \<in> set (take m (z # zs)). fst z = Thr2) \<and> (\<forall>z \<in> set (drop m (z # zs)). fst z = Thr1))
        \<longleftrightarrow> (\<forall>y \<in> set zs. fst y = Thr1)" (is "?l \<longleftrightarrow> ?r")
    proof
      assume ?l
      then obtain m where m: "\<forall>z \<in> set (take m (z # zs)). fst z = Thr2" "\<forall>z \<in> set (drop m (z # zs)). fst z = Thr1"
        by blast
      then have "m = 0" using Thr1 by (cases m) auto
      with m show ?r by simp
    next
      assume ?r
      with Thr1 show ?l by (intro exI [of _ 0]) simp
    qed
    ultimately show ?thesis by simp
  next
    case Thr2
    then have "thr2_first (map fst (z # zs)) \<longleftrightarrow> thr2_first (map fst zs)" by (simp add: thr2_first_def)
    moreover have "(\<exists>m. (\<forall>z \<in> set (take m (z # zs)). fst z = Thr2) \<and> (\<forall>z \<in> set (drop m (z # zs)). fst z = Thr1))
        \<longleftrightarrow> (\<exists>m. (\<forall>z \<in> set (take m zs). fst z = Thr2) \<and> (\<forall>z \<in> set (drop m zs). fst z = Thr1))" (is "?l \<longleftrightarrow> ?r")
    proof
      assume ?l
      then obtain m where m: "\<forall>z \<in> set (take m (z # zs)). fst z = Thr2" "\<forall>z \<in> set (drop m (z # zs)). fst z = Thr1"
        by blast
      then have "0 < m" using Thr2 by (cases m) auto
      with m show ?r by (intro exI [of _ "m - 1"]) (auto simp: take_Cons' drop_Cons')
    next
      assume ?r
      then obtain m where "\<forall>z \<in> set (take m zs). fst z = Thr2" "\<forall>z \<in> set (drop m zs). fst z = Thr1" by blast
      with Thr2 show ?l by (intro exI [of _ "Suc m"]) auto
    qed
    ultimately show ?thesis using Cons.IH by simp
  qed
qed

lemma freed_early_iff:
  fixes zs :: "(foo_thread \<times> int) list"
  assumes one: "map snd (filter (\<lambda>z. fst z = Thr1) zs) = balanced k" and two: "map snd (filter (\<lambda>z. fst z = Thr2) zs) = releasing l"
    and k: "0 < k"
  shows "(\<exists>m. 0 < m \<and> m < length zs \<and> 1 + sum_list (take m (map snd zs)) = 0) \<longleftrightarrow> thr2_first (map fst zs)"
proof -
  let ?f = "\<lambda>t m. filter (\<lambda>z. fst z = t) (take m zs)"
  have prefix: "map snd (?f t m) = take (length (?f t m)) (map snd (filter (\<lambda>z. fst z = t) zs))" for t m
    by (metis append_eq_conv_conj append_take_drop_id filter_append map_append length_map)
  have total: "1 + sum_list (take m (map snd zs)) = 0
      \<longleftrightarrow> (length (?f Thr1 m) = 0 \<or> 2 * k \<le> length (?f Thr1 m)) \<and> 2 * l + 1 \<le> length (?f Thr2 m)" for m
  proof -
    have "sum_list (take m (map snd zs)) = sum_list (take (length (?f Thr1 m)) (balanced k)) + sum_list (take (length (?f Thr2 m)) (releasing l))"
      using sum_by_thread [of "take m zs"] prefix [of Thr1 m] prefix [of Thr2 m] one two by (simp add: take_map)
    with sum_balanced [of "length (?f Thr1 m)" k] sum_releasing [of "length (?f Thr2 m)" l] show ?thesis by linarith
  qed
  have all: "length (?f t m) + length (filter (\<lambda>z. fst z = t) (drop m zs)) = length (filter (\<lambda>z. fst z = t) zs)" for t m
    by (metis append_take_drop_id filter_append length_append)
  have len: "length (filter (\<lambda>z. fst z = Thr1) zs) = 2 * k" "length (filter (\<lambda>z. fst z = Thr2) zs) = 2 * l + 1"
    using arg_cong [OF one, of length] arg_cong [OF two, of length] by (simp_all add: balanced_def releasing_def)
  have both: "length (filter (\<lambda>z. fst z = Thr1) ys) + length (filter (\<lambda>z. fst z = Thr2) ys) = length ys" for ys :: "(foo_thread \<times> int) list"
    by (induction ys) (auto intro: foo_thread.exhaust)
  show ?thesis
  proof
    assume "\<exists>m. 0 < m \<and> m < length zs \<and> 1 + sum_list (take m (map snd zs)) = 0"
    then obtain m where m: "m < length zs" "length (?f Thr1 m) = 0 \<or> 2 * k \<le> length (?f Thr1 m)" "2 * l + 1 \<le> length (?f Thr2 m)"
      using total by blast
    have "length (?f Thr1 m) + length (?f Thr2 m) = m" using both [of "take m zs"] m by simp
    then have "length (?f Thr1 m) = 0" using m both [of zs] len by linarith
    moreover have "length (filter (\<lambda>z. fst z = Thr2) (drop m zs)) = 0" using all [of Thr2 m] len m by linarith
    ultimately have "\<forall>z \<in> set (take m zs). fst z \<noteq> Thr1" "\<forall>z \<in> set (drop m zs). fst z \<noteq> Thr2"
      by (simp_all add: filter_empty_conv)
    then show "thr2_first (map fst zs)" unfolding thr2_first_iff by (metis foo_thread.exhaust)
  next
    assume "thr2_first (map fst zs)"
    then obtain m where m: "\<forall>z \<in> set (take m zs). fst z = Thr2" "\<forall>z \<in> set (drop m zs). fst z = Thr1"
      unfolding thr2_first_iff by blast
    then have none: "length (?f Thr1 m) = 0" "length (filter (\<lambda>z. fst z = Thr2) (drop m zs)) = 0"
      by (simp_all add: filter_empty_conv)
    then have "length (?f Thr2 m) = 2 * l + 1" using all [of Thr2 m] len by linarith
    moreover from this none have "min (length zs) m = 2 * l + 1" using both [of "take m zs"] by simp
    moreover have "length zs = 2 * k + 2 * l + 1" using both [of zs] len by linarith
    ultimately show "\<exists>m. 0 < m \<and> m < length zs \<and> 1 + sum_list (take m (map snd zs)) = 0"
      using none total [of m] k by (intro exI [of _ m]) auto
  qed
qed

text \<open>The calls of an interleaving on one object.\<close>

definition on_obj :: "addr \<Rightarrow> (foo_thread \<times> foo_call) list \<Rightarrow> (foo_thread \<times> foo_call) list" where
  "on_obj a zs = filter (\<lambda>z. call_on (snd z) = Some a) zs"

lemma shuffles_by_thread:
  assumes "zs \<in> shuffles (map (Pair Thr1) xs) (map (Pair Thr2) ys)"
  shows "map snd (filter (\<lambda>z. fst z = Thr1) zs) = xs" "map snd (filter (\<lambda>z. fst z = Thr2) zs) = ys"
proof -
  have "filter P zs \<in> shuffles (filter P (map (Pair Thr1) xs)) (filter P (map (Pair Thr2) ys))" for P
    using assms filter_shuffles [of P] by blast
  from this [of "\<lambda>z. fst z = Thr1"] this [of "\<lambda>z. fst z = Thr2"]
  show "map snd (filter (\<lambda>z. fst z = Thr1) zs) = xs" "map snd (filter (\<lambda>z. fst z = Thr2) zs) = ys"
    by (simp_all add: filter_map comp_def)
qed

lemma deltas_by_thread:
  "map snd (filter (\<lambda>z. fst z = t) (map (map_prod id delta) (on_obj a zs))) = deltas a (map snd (filter (\<lambda>z. fst z = t) zs))"
  by (induction zs) (auto simp: on_obj_def deltas_def)

lemma deltas_thr_fn:
  assumes "a \<noteq> b"
  shows "deltas a (foo_thr_fn1 (Some a) (Some b)) = balanced 20" "deltas b (foo_thr_fn1 (Some a) (Some b)) = balanced 22"
    "deltas a (foo_thr_fn2 (Some a) (Some b)) = releasing 20" "deltas b (foo_thr_fn2 (Some a) (Some b)) = releasing 22"
    "x \<noteq> a \<Longrightarrow> x \<noteq> b \<Longrightarrow> deltas x (foo_thr_fn1 (Some a) (Some b)) = []"
    "x \<noteq> a \<Longrightarrow> x \<noteq> b \<Longrightarrow> deltas x (foo_thr_fn2 (Some a) (Some b)) = []"
  using assms by (simp_all add: deltas_def foo_thr_fn1_def foo_thr_fn2_def balanced_def releasing_def)

lemma deltas_length: "length (deltas a (map snd zs)) = length (deltas a (map snd (filter (\<lambda>z. fst z = Thr1) zs)))
    + length (deltas a (map snd (filter (\<lambda>z. fst z = Thr2) zs)))"
proof (induction zs)
  case (Cons z zs)
  then show ?case by (cases "fst z") (simp_all add: deltas_def)
qed (simp add: deltas_def)

lemma obj_run_threads:
  assumes "deltas a (map snd (filter (\<lambda>z. fst z = Thr1) zs)) = balanced k"
    and "deltas a (map snd (filter (\<lambda>z. fst z = Thr2) zs)) = releasing l" and "0 < k"
  shows "obj_run (deltas a (map snd zs)) (Some 1) = (if thr2_first (map fst (on_obj a zs)) then None else Some None)"
proof -
  let ?ys = "map (map_prod id delta) (on_obj a zs)"
  have ds: "deltas a (map snd zs) = map snd ?ys" by (induction zs) (auto simp: deltas_def on_obj_def)
  have early: "(\<exists>m. 0 < m \<and> m < length ?ys \<and> 1 + sum_list (take m (map snd ?ys)) = 0) \<longleftrightarrow> thr2_first (map fst (on_obj a zs))"
    using freed_early_iff [of ?ys k l] assms by (simp add: deltas_by_thread comp_def)
  have "sum_list (map snd ?ys) = sum_list (balanced k) + sum_list (releasing l)"
    using sum_by_thread [of ?ys] assms unfolding deltas_by_thread by simp
  then have "1 + sum_list (map snd ?ys) = 0" by (simp add: balanced_def releasing_def sum_list_replicate)
  with early show ?thesis unfolding ds by (simp add: obj_run_sum put_count_def)
qed

lemma foo_main_counts:
  assumes "a \<noteq> b" and "foos s = Map.empty"
  shows "map_sum id refs (foo_main (Some a) 0 (Some b) 0 (\<lambda>_ _. zs) s) = run_stmts (map ref_call (map snd zs)) [a \<mapsto> 1, b \<mapsto> 1]"
proof -
  let ?s = "snd (foo_alloc (Some b) 0 2 (snd (foo_alloc (Some a) 0 1 s)))"
  have "unlocked ?s" using assms by (simp add: unlocked_def foo_alloc_def)
  moreover have "refs ?s = [a \<mapsto> 1, b \<mapsto> 1]" using assms by (auto simp: refs_def foo_alloc_def fun_eq_iff)
  moreover have "foo_main (Some a) 0 (Some b) 0 (\<lambda>_ _. zs) s = run_stmts (map do_call (map snd zs)) ?s"
    by (simp add: foo_main_def foo_alloc_def)
  ultimately show ?thesis by (simp only: foo_calls_refine)
qed

lemma append_shuffles: "xs @ ys \<in> shuffles xs ys"
  by (induction xs) (auto simp: Cons_in_shuffles_leftI)

lemma on_obj_append: "on_obj a (xs @ ys) = on_obj a xs @ on_obj a ys"
  by (simp add: on_obj_def)

lemma sorted_wrt_replicate: "sorted_wrt (\<lambda>t u. t = Thr1 \<longrightarrow> u = Thr1) (replicate n t)"
  by (induction n) auto

section \<open>Properties of the counted objects\<close>



text \<open>
  C20: the two threads of the program work on both objects without a fault, and free both, exactly
  when for each object some call of \<open>thr_fn1\<close> comes before some call of \<open>thr_fn2\<close>. Otherwise
  \<open>thr_fn2\<close>, which releases one reference more than it takes, frees an object that \<open>thr_fn1\<close> has
  yet to use.
\<close>

theorem foo_threads_outcome:
  assumes "a \<noteq> b" and "foos s = Map.empty" and zs: "zs \<in> foo_interleavings (Some a) (Some b)"
  shows "if thr2_first (map fst (on_obj a zs)) \<or> thr2_first (map fst (on_obj b zs))
         then foo_main (Some a) 0 (Some b) 0 (\<lambda>_ _. zs) s = Inl UseAfterFree
         else \<exists>s'. foo_main (Some a) 0 (Some b) 0 (\<lambda>_ _. zs) s = Inr s' \<and> foos s' = Map.empty"
proof -
  let ?r = "foo_main (Some a) 0 (Some b) 0 (\<lambda>_ _. zs) s" and ?m = "[a \<mapsto> 1, b \<mapsto> 1] :: addr \<rightharpoonup> int"
  note thr = shuffles_by_thread [OF zs [unfolded foo_interleavings_def]] and ds = deltas_thr_fn [OF assms(1)]
  have "snd ` set zs = set (foo_thr_fn1 (Some a) (Some b)) \<union> set (foo_thr_fn2 (Some a) (Some b))"
    using set_shuffles [OF zs [unfolded foo_interleavings_def]] by (simp add: image_Un image_image)
  then have "\<forall>c \<in> set (map snd zs). call_on c \<noteq> None"
    by (auto simp: foo_thr_fn1_def foo_thr_fn2_def)
  then have run: "if \<exists>x. obj_run (deltas x (map snd zs)) (?m x) = None then run_stmts (map ref_call (map snd zs)) ?m = Inl UseAfterFree
      else run_stmts (map ref_call (map snd zs)) ?m = Inr (\<lambda>x. the (obj_run (deltas x (map snd zs)) (?m x)))"
    by (rule ref_calls_run) (simp split: if_splits)
  have obj: "obj_run (deltas a (map snd zs)) (?m a) = (if thr2_first (map fst (on_obj a zs)) then None else Some None)"
      "obj_run (deltas b (map snd zs)) (?m b) = (if thr2_first (map fst (on_obj b zs)) then None else Some None)"
    using assms(1) obj_run_threads [of a zs 20 20] obj_run_threads [of b zs 22 22] unfolding thr ds by simp_all
  have rest: "obj_run (deltas x (map snd zs)) (?m x) = Some None" if "x \<noteq> a" "x \<noteq> b" for x
    using that deltas_length [of x zs] unfolding thr ds(5,6) [OF that] by simp
  have bad: "(\<exists>x. obj_run (deltas x (map snd zs)) (?m x) = None)
      \<longleftrightarrow> thr2_first (map fst (on_obj a zs)) \<or> thr2_first (map fst (on_obj b zs))"
    using obj rest by (metis option.distinct(1))
  show ?thesis
  proof (cases "thr2_first (map fst (on_obj a zs)) \<or> thr2_first (map fst (on_obj b zs))")
    case True
    then have "map_sum id refs ?r = Inl UseAfterFree"
      using run bad foo_main_counts [OF assms(1,2), of zs] by (simp only: if_True)
    then have "?r = Inl UseAfterFree" by (cases ?r) simp_all
    with True show ?thesis by simp
  next
    case False
    then have "obj_run (deltas x (map snd zs)) (?m x) = Some None" for x
      using obj rest by metis
    then have "map_sum id refs ?r = Inr Map.empty"
      using run False bad foo_main_counts [OF assms(1,2), of zs] by simp
    then obtain s' where "?r = Inr s'" "refs s' = Map.empty" by (cases ?r) simp_all
    with False show ?thesis by (simp add: refs_def fun_eq_iff)
  qed
qed

theorem foo_threads_outcome_witness:
  "(\<exists>s'. foo_main (Some 1) 0 (Some 2) 0
       (\<lambda>p q. map (Pair Thr1) (foo_thr_fn1 p q) @ map (Pair Thr2) (foo_thr_fn2 p q)) \<lparr>foos = Map.empty, foo_out = []\<rparr> = Inr s'
     \<and> foos s' = Map.empty)
   \<and> foo_main (Some 1) 0 (Some 2) 0
       (\<lambda>p q. map (Pair Thr2) (foo_thr_fn2 p q) @ map (Pair Thr1) (foo_thr_fn1 p q)) \<lparr>foos = Map.empty, foo_out = []\<rparr>
     = Inl UseAfterFree"
proof -
  let ?one = "map (Pair Thr1) (foo_thr_fn1 (Some 1) (Some 2))" and ?two = "map (Pair Thr2) (foo_thr_fn2 (Some 1) (Some 2))"
  have ord: "?one @ ?two \<in> foo_interleavings (Some 1) (Some 2)" "?two @ ?one \<in> foo_interleavings (Some 1) (Some 2)"
    using append_shuffles [of ?one ?two] append_shuffles [of ?two ?one] shuffles_commutes [of ?one ?two]
    by (simp_all add: foo_interleavings_def)
  have proj: "map fst (on_obj 1 ?one) = replicate 40 Thr1" "map fst (on_obj 1 ?two) = replicate 41 Thr2"
      "map fst (on_obj 2 ?one) = replicate 44 Thr1" "map fst (on_obj 2 ?two) = replicate 45 Thr2"
    by (simp_all add: on_obj_def foo_thr_fn1_def foo_thr_fn2_def flip: replicate_add)
  have "\<not> thr2_first (map fst (on_obj 1 (?one @ ?two)))" "\<not> thr2_first (map fst (on_obj 2 (?one @ ?two)))"
      "thr2_first (map fst (on_obj 1 (?two @ ?one)))"
    unfolding on_obj_append map_append proj by (simp_all add: thr2_first_def sorted_wrt_append sorted_wrt_replicate)
  then show ?thesis
    using foo_threads_outcome [OF _ _ ord(1), of "\<lparr>foos = Map.empty, foo_out = []\<rparr>"]
      foo_threads_outcome [OF _ _ ord(2), of "\<lparr>foos = Map.empty, foo_out = []\<rparr>"]
    by (simp add: foo_main_def foo_alloc_def)
qed

end
