(* ===== verification/Sem_Lock.thy ===== *)
theory Sem_Lock
  imports C_Text Unix_Prelude
begin

text \<open>
  The lock of \<open>IPC/sem_lock.c\<close>, a POSIX semaphore that starts at one, with the loop that looks for
  an unused name, and its client \<open>IPC/semlock_test.c\<close>: two threads that increment a shared counter.
  The lemmas show that the search ends, that the lock excludes, and that no increment is lost.
\<close>

section \<open>Semaphores and locks\<close>

record slock =
  semp :: addr
  sl_name :: string

text \<open>
  The names in use with the semaphores behind them, the values of the open semaphores, the
  allocated locks, and the static counter of \<open>s_alloc\<close>.
\<close>

record sem_sys =
  sem_names :: "string \<rightharpoonup> addr"
  sems :: "addr \<rightharpoonup> nat"
  slocks :: "addr \<rightharpoonup> slock"
  sl_cnt :: nat

datatype sem_err = EExist | EOther int

text \<open>
  \<open>sem_open\<close> with \<open>O_CREAT | O_EXCL\<close> and value 1. \<open>err name\<close> is an error other than \<open>EEXIST\<close>, where
  there is one, and \<open>p\<close> the address of the new semaphore.
\<close>

definition sem_open :: "(string \<Rightarrow> int option) \<Rightarrow> addr \<Rightarrow> string \<Rightarrow> sem_sys \<Rightarrow> (sem_err + addr) \<times> sem_sys" where
  "sem_open err p nm s = (case err nm of Some e \<Rightarrow> (Inl (EOther e), s)
     | None \<Rightarrow> (case sem_names s nm of Some q \<Rightarrow> (Inl EExist, s)
                | None \<Rightarrow> (Inr p, s\<lparr>sem_names := (sem_names s)(nm \<mapsto> p), sems := (sems s)(p \<mapsto> 1)\<rparr>)))"

definition sem_unlink :: "string \<Rightarrow> sem_sys \<Rightarrow> sem_sys" where
  "sem_unlink nm s = s\<lparr>sem_names := (sem_names s)(nm := None)\<rparr>"

text \<open>\<open>snprintf\<close> into the name of a lock, which keeps at most \<open>_POSIX_NAME_MAX - 1\<close> characters.\<close>

definition POSIX_NAME_MAX :: nat where
  "POSIX_NAME_MAX = 14"

definition lock_name :: "nat \<Rightarrow> nat \<Rightarrow> string" where
  "lock_name pid n = take (POSIX_NAME_MAX - 1) (dec_nat pid @ ''.'' @ dec_nat n)"

partial_function (option) alloc_loop ::
  "(string \<Rightarrow> int option) \<Rightarrow> addr \<Rightarrow> nat \<Rightarrow> sem_sys \<Rightarrow> (string \<times> addr option \<times> sem_sys) option" where
  "alloc_loop err p pid s =
     (let nm = lock_name pid (sl_cnt s); s1 = s\<lparr>sl_cnt := sl_cnt s + 1\<rparr>; r = sem_open err p nm s1
      in case fst r of Inr q \<Rightarrow> Some (nm, Some q, snd r)
         | Inl e \<Rightarrow> (if e = EExist then alloc_loop err p pid (snd r) else Some (nm, None, snd r)))"

text \<open>\<open>m\<close> is what \<open>malloc\<close> returns.\<close>

definition s_alloc ::
  "(string \<Rightarrow> int option) \<Rightarrow> addr option \<Rightarrow> addr \<Rightarrow> nat \<Rightarrow> sem_sys \<Rightarrow> (addr option \<times> sem_sys) option" where
  "s_alloc err m p pid s = (case m of None \<Rightarrow> Some (None, s)
     | Some a \<Rightarrow> (case alloc_loop err p pid s of None \<Rightarrow> None
        | Some (nm, None, s1) \<Rightarrow> Some (None, s1)
        | Some (nm, Some q, s1) \<Rightarrow>
            Some (Some a, sem_unlink nm (s1\<lparr>slocks := (slocks s1)(a \<mapsto> \<lparr>semp = q, sl_name = nm\<rparr>)\<rparr>))))"

definition sem_of :: "addr option \<Rightarrow> sem_sys \<Rightarrow> (addr \<times> nat) c" where
  "sem_of sp s = bindE (deref (slocks s) sp) (\<lambda>l. bindE (deref (sems s) (Some (semp l))) (\<lambda>v. Inr (semp l, v)))"

definition s_free :: "addr option \<Rightarrow> sem_sys stmt" where
  "s_free sp s = bindE (sem_of sp s) (\<lambda>(q, v).
     Inr (s\<lparr>sems := (sems s)(q := None), slocks := (slocks s)(the sp := None)\<rparr>))"

text \<open>\<open>sem_wait\<close> blocks at zero; \<open>sem_trywait\<close> returns \<open>-1\<close> instead.\<close>

definition s_lock :: "addr option \<Rightarrow> sem_sys \<Rightarrow> (int \<times> sem_sys) c" where
  "s_lock sp s = bindE (sem_of sp s) (\<lambda>(q, v).
     if v = 0 then Inl Blocks else Inr (0, s\<lparr>sems := (sems s)(q \<mapsto> v - 1)\<rparr>))"

definition s_trylock :: "addr option \<Rightarrow> sem_sys \<Rightarrow> (int \<times> sem_sys) c" where
  "s_trylock sp s = bindE (sem_of sp s) (\<lambda>(q, v).
     if v = 0 then Inr (-1, s) else Inr (0, s\<lparr>sems := (sems s)(q \<mapsto> v - 1)\<rparr>))"

definition s_unlock :: "addr option \<Rightarrow> sem_sys \<Rightarrow> (int \<times> sem_sys) c" where
  "s_unlock sp s = bindE (sem_of sp s) (\<lambda>(q, v). Inr (0, s\<lparr>sems := (sems s)(q \<mapsto> v + 1)\<rparr>))"

section \<open>The two threads of the counter\<close>

text \<open>
  Where a thread is in its loop: before \<open>s_lock\<close>, before it reads \<open>cnt\<close>, before it writes back the
  value it read plus one, before \<open>s_unlock\<close>. \<open>AtLock 0\<close> is the end of the loop.
\<close>

datatype inc_pc = AtLock nat | AtRead nat | AtWrite nat int | AtUnlock nat

datatype inc_thread = IncThr1 | IncThr2

record counter_sys =
  c_sems :: sem_sys
  c_cnt :: int
  c_pc :: "inc_thread \<Rightarrow> inc_pc"

inductive counter_step :: "addr option \<Rightarrow> counter_sys \<Rightarrow> counter_sys \<Rightarrow> bool" for s_mutex where
  inc_lock: "c_pc c t = AtLock (Suc n) \<Longrightarrow> s_lock s_mutex (c_sems c) = Inr (r, s') \<Longrightarrow>
     counter_step s_mutex c (c\<lparr>c_sems := s', c_pc := (c_pc c)(t := AtRead n)\<rparr>)"
| inc_read: "c_pc c t = AtRead n \<Longrightarrow>
     counter_step s_mutex c (c\<lparr>c_pc := (c_pc c)(t := AtWrite n (c_cnt c))\<rparr>)"
| inc_write: "c_pc c t = AtWrite n x \<Longrightarrow>
     counter_step s_mutex c (c\<lparr>c_cnt := x + 1, c_pc := (c_pc c)(t := AtUnlock n)\<rparr>)"
| inc_unlock: "c_pc c t = AtUnlock n \<Longrightarrow> s_unlock s_mutex (c_sems c) = Inr (r, s') \<Longrightarrow>
     counter_step s_mutex c (c\<lparr>c_sems := s', c_pc := (c_pc c)(t := AtLock n)\<rparr>)"

definition counter_start :: "nat \<Rightarrow> sem_sys \<Rightarrow> counter_sys" where
  "counter_start n s = \<lparr>c_sems = s, c_cnt = 0, c_pc = (\<lambda>t. AtLock n)\<rparr>"

section \<open>The search for a name\<close>

lemma alloc_loop_tries:
  assumes free: "sem_names s (lock_name pid (sl_cnt s + k)) = None"
    and used: "\<forall>i<k. sem_names s (lock_name pid (sl_cnt s + i)) \<noteq> None" and err: "\<forall>nm. err nm = None"
  shows "alloc_loop err p pid s = Some (lock_name pid (sl_cnt s + k), Some p,
    s\<lparr>sem_names := (sem_names s)(lock_name pid (sl_cnt s + k) \<mapsto> p), sems := (sems s)(p \<mapsto> 1), sl_cnt := sl_cnt s + k + 1\<rparr>)"
  using free used
proof (induction k arbitrary: s)
  case 0
  then show ?case using err by (subst alloc_loop.simps) (simp add: Let_def sem_open_def)
next
  case (Suc k)
  let ?s = "s\<lparr>sl_cnt := sl_cnt s + 1\<rparr>"
  have "sem_names ?s (lock_name pid (sl_cnt ?s + k)) = None" using Suc.prems(1) by simp
  moreover have "\<forall>i<k. sem_names ?s (lock_name pid (sl_cnt ?s + i)) \<noteq> None" using Suc.prems(2) by auto
  ultimately have "alloc_loop err p pid ?s = Some (lock_name pid (sl_cnt ?s + k), Some p,
      ?s\<lparr>sem_names := (sem_names ?s)(lock_name pid (sl_cnt ?s + k) \<mapsto> p), sems := (sems ?s)(p \<mapsto> 1), sl_cnt := sl_cnt ?s + k + 1\<rparr>)"
    by (rule Suc.IH)
  moreover obtain q where "sem_names s (lock_name pid (sl_cnt s)) = Some q" using Suc.prems(2) by force
  ultimately show ?case using err by (subst alloc_loop.simps) (simp add: Let_def sem_open_def)
qed

text \<open>Up to five digits of the counter fit behind a process id of up to seven.\<close>

lemma lock_name_full:
  assumes "pid < 10 ^ 7" and "n < 10 ^ 5"
  shows "lock_name pid n = dec_nat pid @ ''.'' @ dec_nat n"
  using length_dec_nat [of 7 pid] length_dec_nat [of 5 n] assms by (simp add: lock_name_def POSIX_NAME_MAX_def)

lemma lock_name_inj:
  assumes "pid < 10 ^ 7" and "n < 10 ^ 5" and "k < 10 ^ 5" and "lock_name pid n = lock_name pid k"
  shows "n = k"
  using assms by (simp add: lock_name_full dec_nat_inj)

lemma unused_name:
  assumes "pid < 10 ^ 7" and "finite (dom names)" and "n + card (dom names) < 10 ^ 5"
  shows "\<exists>k \<le> card (dom names). names (lock_name pid (n + k)) = None \<and> (\<forall>i<k. names (lock_name pid (n + i)) \<noteq> None)"
proof -
  let ?f = "\<lambda>k. lock_name pid (n + k)"
  have inj: "inj_on ?f {..card (dom names)}"
    using assms(1,3) by (intro inj_onI) (auto dest!: lock_name_inj [OF assms(1), rotated 2])
  have "\<not> ?f ` {..card (dom names)} \<subseteq> dom names"
    using card_mono [OF assms(2), of "?f ` {..card (dom names)}"] card_image [OF inj] by auto
  then have ex: "\<exists>k. k \<le> card (dom names) \<and> names (?f k) = None" by auto
  let ?k = "LEAST k. k \<le> card (dom names) \<and> names (?f k) = None"
  have "?k \<le> card (dom names) \<and> names (?f ?k) = None" using LeastI_ex [OF ex] .
  moreover have "names (?f i) \<noteq> None" if "i < ?k" for i
    using not_less_Least [OF that] that calculation by auto
  ultimately show ?thesis by blast
qed

section \<open>The lock\<close>

lemma sem_of_Inr:
  "sem_of sp s = Inr (q, v) \<longleftrightarrow> (\<exists>a l. sp = Some a \<and> slocks s a = Some l \<and> q = semp l \<and> sems s q = Some v)"
  by (cases sp) (auto simp: sem_of_def c_simps deref_def split: option.splits)

lemma s_lock_open:
  assumes "sem_of sp s = Inr (q, Suc v)"
  shows "\<exists>s'. s_lock sp s = Inr (0, s') \<and> sem_of sp s' = Inr (q, v)"
proof -
  have "s_lock sp s = Inr (0, s\<lparr>sems := (sems s)(q \<mapsto> v)\<rparr>)" using assms by (simp add: s_lock_def)
  moreover have "sem_of sp (s\<lparr>sems := (sems s)(q \<mapsto> v)\<rparr>) = Inr (q, v)" using assms by (auto simp: sem_of_Inr)
  ultimately show ?thesis by blast
qed

lemma s_lock_shut: "sem_of sp s = Inr (q, 0) \<Longrightarrow> s_lock sp s = Inl Blocks"
  by (simp add: s_lock_def)

lemma s_unlock_any:
  assumes "sem_of sp s = Inr (q, v)"
  shows "\<exists>s'. s_unlock sp s = Inr (0, s') \<and> sem_of sp s' = Inr (q, Suc v)"
proof -
  have "s_unlock sp s = Inr (0, s\<lparr>sems := (sems s)(q \<mapsto> Suc v)\<rparr>)" using assms by (simp add: s_unlock_def)
  moreover have "sem_of sp (s\<lparr>sems := (sems s)(q \<mapsto> Suc v)\<rparr>) = Inr (q, Suc v)" using assms by (auto simp: sem_of_Inr)
  ultimately show ?thesis by blast
qed

section \<open>The counter\<close>

primrec todo :: "inc_pc \<Rightarrow> nat" where
  "todo (AtLock n) = n"
| "todo (AtRead n) = Suc n"
| "todo (AtWrite n x) = Suc n"
| "todo (AtUnlock n) = n"

primrec inside :: "inc_pc \<Rightarrow> bool" where
  "inside (AtLock n) \<longleftrightarrow> False"
| "inside (AtRead n) \<longleftrightarrow> True"
| "inside (AtWrite n x) \<longleftrightarrow> True"
| "inside (AtUnlock n) \<longleftrightarrow> True"

primrec steps_left :: "inc_pc \<Rightarrow> nat" where
  "steps_left (AtLock n) = 4 * n"
| "steps_left (AtRead n) = 4 * n + 3"
| "steps_left (AtWrite n x) = 4 * n + 2"
| "steps_left (AtUnlock n) = 4 * n + 1"

definition counter_msr :: "counter_sys \<Rightarrow> nat" where
  "counter_msr c = steps_left (c_pc c IncThr1) + steps_left (c_pc c IncThr2)"

definition insiders :: "counter_sys \<Rightarrow> nat" where
  "insiders c = of_bool (inside (c_pc c IncThr1)) + of_bool (inside (c_pc c IncThr2))"

definition counter_inv :: "addr option \<Rightarrow> nat \<Rightarrow> counter_sys \<Rightarrow> bool" where
  "counter_inv s_mutex n c \<longleftrightarrow>
     (\<exists>q v. sem_of s_mutex (c_sems c) = Inr (q, v) \<and> v + insiders c = 1)
     \<and> c_cnt c + int (todo (c_pc c IncThr1)) + int (todo (c_pc c IncThr2)) = 2 * int n
     \<and> (\<forall>t k x. c_pc c t = AtWrite k x \<longrightarrow> x = c_cnt c)"

lemma inc_thread_cases: "t = IncThr1 \<or> t = IncThr2" by (cases t) simp_all

lemma other_thread: "IncThr1 \<noteq> t \<Longrightarrow> IncThr2 = t" by (cases t) simp_all

lemma counter_step_inv:
  assumes inv: "counter_inv s_mutex n c" and step: "counter_step s_mutex c c'"
  shows "counter_inv s_mutex n c'"
proof -
  obtain q v where sem: "sem_of s_mutex (c_sems c) = Inr (q, v)" "v + insiders c = 1"
    using inv by (auto simp: counter_inv_def)
  from step show ?thesis
  proof cases
    case (inc_lock t k r s')
    then obtain u where u: "v = Suc u" using s_lock_shut [of s_mutex "c_sems c" q] sem(1) by (cases v) auto
    then have "sem_of s_mutex s' = Inr (q, u)"
      using s_lock_open [of s_mutex "c_sems c" q u] sem(1) inc_lock by auto
    with u inc_lock inv sem inc_thread_cases [of t] show ?thesis
      by (auto simp: counter_inv_def insiders_def)
  next
    case (inc_read t k)
    with inv inc_thread_cases [of t] show ?thesis by (auto simp: counter_inv_def insiders_def)
  next
    case (inc_write t k x)
    with sem have "\<not> inside (c_pc c u)" if "u \<noteq> t" for u
      using that by (cases t; cases u) (auto simp: insiders_def split: if_splits)
    with inc_write inv inc_thread_cases [of t] show ?thesis
      by (fastforce simp: counter_inv_def insiders_def)
  next
    case (inc_unlock t k r s')
    then have "sem_of s_mutex s' = Inr (q, Suc v)"
      using s_unlock_any [of s_mutex "c_sems c" q v] sem(1) by auto
    with inc_unlock inv sem inc_thread_cases [of t] show ?thesis
      by (auto simp: counter_inv_def insiders_def)
  qed
qed

lemma counter_step_msr: "counter_step s_mutex c c' \<Longrightarrow> counter_msr c' < counter_msr c"
  by (erule counter_step.cases) (auto simp: counter_msr_def intro: other_thread)

lemma counter_start_inv:
  "sem_of s_mutex s = Inr (q, 1) \<Longrightarrow> counter_inv s_mutex n (counter_start n s)"
  by (simp add: counter_inv_def counter_start_def insiders_def)

interpretation counter: terminating_system "\<lambda>c. \<exists>s q. c = counter_start n s \<and> sem_of s_mutex s = Inr (q, 1)"
    "counter_step s_mutex" "counter_inv s_mutex n" counter_msr for s_mutex n
  by unfold_locales (auto intro: counter_start_inv counter_step_inv counter_step_msr)

lemma counter_progress:
  assumes "counter_inv s_mutex n c" and "c_pc c t \<noteq> AtLock 0"
  shows "\<exists>c'. counter_step s_mutex c c'"
proof -
  obtain q v where sem: "sem_of s_mutex (c_sems c) = Inr (q, v)" "v + insiders c = 1"
    using assms(1) by (auto simp: counter_inv_def)
  have go: "\<exists>c'. counter_step s_mutex c c'" if "inside (c_pc c u)" for u
    using that s_unlock_any [OF sem(1)]
    by (cases "c_pc c u") (auto intro: counter_step.inc_read counter_step.inc_write counter_step.inc_unlock)
  show ?thesis
  proof (cases "insiders c = 0")
    case True
    with sem obtain s' where "s_lock s_mutex (c_sems c) = Inr (0, s')" using s_lock_open by force
    moreover obtain k where "c_pc c t = AtLock (Suc k)"
      using True assms(2) by (cases t; cases "c_pc c t") (auto simp: insiders_def gr0_conv_Suc)
    ultimately show ?thesis by (blast intro: counter_step.inc_lock)
  next
    case False
    then have "inside (c_pc c IncThr1) \<or> inside (c_pc c IncThr2)" by (auto simp: insiders_def)
    with go show ?thesis by blast
  qed
qed

section \<open>Properties of the semaphore lock\<close>

text \<open>
  C24: as long as fewer than a hundred thousand names have been tried or are in use, the loop of
  \<open>s_alloc\<close> ends after at most as many collisions as there are names in use: it returns a lock
  with its own open semaphore at one, whose name was never truncated, and leaves no name behind.
\<close>

theorem s_alloc_returns:
  assumes "pid < 10 ^ 7" and "finite (dom (sem_names s))" and "sl_cnt s + card (dom (sem_names s)) < 10 ^ 5"
    and "\<forall>nm. err nm = None"
  shows "\<exists>k s'. k \<le> card (dom (sem_names s)) \<and> s_alloc err (Some a) p pid s = Some (Some a, s')
    \<and> sem_of (Some a) s' = Inr (p, 1) \<and> sem_names s' = sem_names s \<and> sl_cnt s' = sl_cnt s + k + 1
    \<and> slocks s' a = Some \<lparr>semp = p, sl_name = dec_nat pid @ ''.'' @ dec_nat (sl_cnt s + k)\<rparr>"
proof -
  obtain k where k: "k \<le> card (dom (sem_names s))" and free: "sem_names s (lock_name pid (sl_cnt s + k)) = None"
    and used: "\<forall>i<k. sem_names s (lock_name pid (sl_cnt s + i)) \<noteq> None"
    using unused_name [OF assms(1-3)] by blast
  have full: "lock_name pid (sl_cnt s + k) = dec_nat pid @ ''.'' @ dec_nat (sl_cnt s + k)"
    using lock_name_full [OF assms(1)] k assms(3) by simp
  let ?s = "s\<lparr>sems := (sems s)(p \<mapsto> 1), sl_cnt := sl_cnt s + k + 1,
      slocks := (slocks s)(a \<mapsto> \<lparr>semp = p, sl_name = lock_name pid (sl_cnt s + k)\<rparr>)\<rparr>"
  have "s_alloc err (Some a) p pid s = Some (Some a, ?s)"
    using alloc_loop_tries [OF free used assms(4), of p] free
    by (simp add: s_alloc_def sem_unlink_def fun_upd_idem)
  moreover have "sem_of (Some a) ?s = Inr (p, 1)" by (simp add: sem_of_Inr)
  ultimately show ?thesis using k full by (intro exI [of _ k] exI [of _ ?s]) simp
qed

theorem s_alloc_returns_witness:
  "\<exists>s'. s_alloc (\<lambda>_. None) (Some 1) 5 42
     \<lparr>sem_names = [''42.0'' \<mapsto> 9], sems = [9 \<mapsto> 1], slocks = Map.empty, sl_cnt = 0\<rparr> = Some (Some 1, s')
     \<and> sem_of (Some 1) s' = Inr (5, 1)"
  using s_alloc_returns [of 42 "\<lparr>sem_names = [''42.0'' \<mapsto> 9], sems = [9 \<mapsto> 1], slocks = Map.empty, sl_cnt = 0\<rparr>" "\<lambda>_. None" 1 5]
  by auto

text \<open>
  C6: in every interleaving of the two threads, at the granularity of single reads and writes of
  the counter, at most one thread is between its \<open>s_lock\<close> and its \<open>s_unlock\<close>, and when both loops
  have ended the counter is exactly \<open>2 * n\<close>: no increment is lost.
\<close>

theorem counter_exact:
  assumes "sem_of s_mutex s = Inr (q, 1)" and "(counter_step s_mutex)\<^sup>*\<^sup>* (counter_start n s) c"
  shows "\<not> (inside (c_pc c IncThr1) \<and> inside (c_pc c IncThr2))
    \<and> ((\<forall>t. c_pc c t = AtLock 0) \<longrightarrow> c_cnt c = 2 * int n)"
proof -
  have "counter_inv s_mutex n c" using counter.inv_reachable assms by blast
  then show ?thesis by (auto simp: counter_inv_def insiders_def)
qed

definition open_lock :: sem_sys where
  "open_lock = \<lparr>sem_names = Map.empty, sems = [5 \<mapsto> 1], slocks = [1 \<mapsto> \<lparr>semp = 5, sl_name = ''42.0''\<rparr>], sl_cnt = 1\<rparr>"

lemma sem_of_open_lock: "sem_of (Some 1) open_lock = Inr (5, 1)"
  by (simp add: open_lock_def sem_of_Inr)

theorem counter_exact_witness:
  "\<exists>c. (counter_step (Some 1))\<^sup>*\<^sup>* (counter_start 1000000 open_lock) c \<and> c_cnt c = 2000000"
proof -
  obtain c where c: "(counter_step (Some 1))\<^sup>*\<^sup>* (counter_start 1000000 open_lock) c" and stuck: "\<nexists>c'. counter_step (Some 1) c c'"
    using counter.reaches_stuck [OF counter_start_inv [OF sem_of_open_lock]] by blast
  have "counter_inv (Some 1) 1000000 c" using counter.inv_reachable c sem_of_open_lock by blast
  then have "\<forall>t. c_pc c t = AtLock 0" using counter_progress stuck by blast
  with counter_exact [OF sem_of_open_lock c] c show ?thesis by auto
qed

text \<open>
  The two threads cannot block each other forever: a run has at most \<open>8 * n\<close> steps, and where
  it cannot go on both loops have ended.
\<close>

lemma counter_ends:
  assumes "sem_of s_mutex s = Inr (q, 1)" and "(counter_step s_mutex ^^ k) (counter_start n s) c"
  shows "k \<le> 8 * n \<and> ((\<forall>t. c_pc c t = AtLock 0) \<or> (\<exists>c'. counter_step s_mutex c c'))"
proof -
  have "k + counter_msr c \<le> counter_msr (counter_start n s)"
    using counter.run_length [OF assms(2) counter_start_inv [OF assms(1)]] .
  moreover have "counter_inv s_mutex n c"
    using counter.inv_reachable relpowp_imp_rtranclp [OF assms(2)] assms(1) by blast
  ultimately show ?thesis
    using counter_progress by (auto simp: counter_msr_def counter_start_def)
qed

text \<open>
  \<open>s_trylock\<close> never blocks: it returns \<open>-1\<close> and changes nothing exactly where \<open>s_lock\<close> would
  block, and does what \<open>s_lock\<close> does otherwise; an \<open>s_unlock\<close> after either takes the lock back to
  where it was.
\<close>

lemma s_trylock_correct:
  assumes "sem_of sp s = Inr (q, v)"
  shows "s_trylock sp s = (if v = 0 then Inr (-1, s) else s_lock sp s)
    \<and> (s_lock sp s = Inl Blocks \<longleftrightarrow> v = 0)
    \<and> (0 < v \<longrightarrow> bindE (s_trylock sp s) (\<lambda>(r, s'). s_unlock sp s') = Inr (0, s))"
proof (cases v)
  case 0
  with assms show ?thesis by (simp add: s_trylock_def s_lock_def)
next
  case (Suc u)
  have "sem_of sp (s\<lparr>sems := (sems s)(q \<mapsto> u)\<rparr>) = Inr (q, u)" "sems s q = Some (Suc u)"
    using assms Suc by (auto simp: sem_of_Inr)
  with assms Suc show ?thesis by (simp add: s_trylock_def s_lock_def s_unlock_def fun_upd_idem)
qed

end
