(* ===== verification/Record_Lock.thy ===== *)
theory Record_Lock
  imports Unix_Prelude
begin

text \<open>
  Advisory record locks: \<open>lock_reg\<close>, \<open>lock_test\<close> and the macros of \<open>flock/lock_reg.c\<close> and
  \<open>flock/flock_helpers.h\<close>, over a table of the locked regions of one file with the documented
  behaviour of \<open>fcntl\<close>. The lemmas read the table byte by byte, show that locks of different
  processes never conflict, and that \<open>lock_test\<close> predicts \<open>lock_reg\<close>.
\<close>

section \<open>Regions\<close>

datatype ltype = F_RDLCK | F_WRLCK | F_UNLCK
datatype whence = SEEK_SET | SEEK_CUR | SEEK_END
datatype lock_cmd = F_SETLK | F_SETLKW

record flock =
  l_type :: ltype
  l_whence :: whence
  l_start :: int
  l_len :: int
  l_pid :: int

text \<open>
  A locked region starts at \<open>lr_lo\<close> and ends before \<open>lr_hi\<close>, or never. An open file has an offset
  and a size, from which \<open>l_whence\<close> counts.
\<close>

type_synonym byte_range = "int \<times> int option"

record region =
  lr_pid :: int
  lr_write :: bool
  lr_range :: byte_range

record open_file =
  f_pos :: int
  f_size :: int

definition flock_range :: "open_file \<Rightarrow> flock \<Rightarrow> byte_range option" where
  "flock_range f fl =
     (let st = l_start fl + (case l_whence fl of SEEK_SET \<Rightarrow> 0 | SEEK_CUR \<Rightarrow> f_pos f | SEEK_END \<Rightarrow> f_size f);
          r = (if l_len fl > 0 then (st, Some (st + l_len fl))
               else if l_len fl = 0 then (st, None) else (st + l_len fl, Some st))
      in if fst r < 0 then None else Some r)"

definition in_range :: "byte_range \<Rightarrow> int \<Rightarrow> bool" where
  "in_range r x \<longleftrightarrow> fst r \<le> x \<and> (case snd r of None \<Rightarrow> True | Some h \<Rightarrow> x < h)"

definition overlap :: "byte_range \<Rightarrow> byte_range \<Rightarrow> bool" where
  "overlap r r' \<longleftrightarrow> (case snd r of None \<Rightarrow> True | Some h \<Rightarrow> fst r' < h) \<and> (case snd r' of None \<Rightarrow> True | Some h \<Rightarrow> fst r < h)"

text \<open>What is left of a range when another is cut out of it.\<close>

definition cut :: "byte_range \<Rightarrow> byte_range \<Rightarrow> byte_range list" where
  "cut r r' = (if \<not> overlap r r' then [r]
     else (if fst r < fst r' then [(fst r, Some (fst r'))] else []) @
          (case snd r' of None \<Rightarrow> []
           | Some h \<Rightarrow> (if case snd r of None \<Rightarrow> True | Some h' \<Rightarrow> h < h' then [(h, snd r)] else [])))"

definition release :: "int \<Rightarrow> byte_range \<Rightarrow> region list \<Rightarrow> region list" where
  "release p r tbl = concat (map (\<lambda>x. if lr_pid x = p then map (\<lambda>y. x\<lparr>lr_range := y\<rparr>) (cut (lr_range x) r) else [x]) tbl)"

text \<open>A region of another process that keeps \<open>p\<close> from locking \<open>r\<close>.\<close>

definition blocker :: "int \<Rightarrow> bool \<Rightarrow> byte_range \<Rightarrow> region list \<Rightarrow> region option" where
  "blocker p w r tbl = find (\<lambda>x. lr_pid x \<noteq> p \<and> overlap (lr_range x) r \<and> (w \<or> lr_write x)) tbl"

section \<open>fcntl\<close>

datatype lock_errno = EINVAL | EAGAIN | EDEADLK

text \<open>
  \<open>F_SETLK\<close> and \<open>F_SETLKW\<close> of process \<open>p\<close>: an unlock always succeeds, a lock replaces what the
  process had on the range. Where another process is in the way, \<open>F_SETLK\<close> fails and \<open>F_SETLKW\<close>
  waits, unless the kernel sees (\<open>cycle\<close>) that waiting would never end.
\<close>

definition fcntl_setlk ::
  "bool \<Rightarrow> int \<Rightarrow> open_file \<Rightarrow> lock_cmd \<Rightarrow> flock \<Rightarrow> region list \<Rightarrow> ((lock_errno option) \<times> region list) c" where
  "fcntl_setlk cycle p f cmd fl tbl = (case flock_range f fl of None \<Rightarrow> Inr (Some EINVAL, tbl)
     | Some r \<Rightarrow>
        if l_type fl = F_UNLCK then Inr (None, release p r tbl)
        else case blocker p (l_type fl = F_WRLCK) r tbl of
               None \<Rightarrow> Inr (None, \<lparr>lr_pid = p, lr_write = (l_type fl = F_WRLCK), lr_range = r\<rparr> # release p r tbl)
             | Some b \<Rightarrow> (case cmd of F_SETLK \<Rightarrow> Inr (Some EAGAIN, tbl)
                 | F_SETLKW \<Rightarrow> if cycle then Inr (Some EDEADLK, tbl) else Inl Blocks))"

definition fcntl_getlk :: "int \<Rightarrow> open_file \<Rightarrow> flock \<Rightarrow> region list \<Rightarrow> flock option" where
  "fcntl_getlk p f fl tbl = (case flock_range f fl of None \<Rightarrow> None
     | Some r \<Rightarrow> (case blocker p (l_type fl = F_WRLCK) r tbl of
         None \<Rightarrow> Some (fl\<lparr>l_type := F_UNLCK\<rparr>)
       | Some b \<Rightarrow> Some \<lparr>l_type = (if lr_write b then F_WRLCK else F_RDLCK), l_whence = SEEK_SET, l_start = fst (lr_range b),
           l_len = (case snd (lr_range b) of None \<Rightarrow> 0 | Some h \<Rightarrow> h - fst (lr_range b)), l_pid = lr_pid b\<rparr>))"

section \<open>The helpers\<close>

text \<open>\<open>lock_reg\<close> returns what \<open>fcntl\<close> returns: 0, or -1 with \<open>errno\<close> set.\<close>

definition lock_reg ::
  "bool \<Rightarrow> int \<Rightarrow> open_file \<Rightarrow> lock_cmd \<Rightarrow> ltype \<Rightarrow> int \<Rightarrow> whence \<Rightarrow> int \<Rightarrow> region list \<Rightarrow> (int \<times> region list) c" where
  "lock_reg cycle p f cmd type offset whence len tbl =
     bindE (fcntl_setlk cycle p f cmd \<lparr>l_type = type, l_whence = whence, l_start = offset, l_len = len, l_pid = 0\<rparr> tbl)
       (\<lambda>(e, tbl'). Inr (if e = None then 0 else -1, tbl'))"

definition lock_test :: "int \<Rightarrow> open_file \<Rightarrow> ltype \<Rightarrow> int \<Rightarrow> whence \<Rightarrow> int \<Rightarrow> region list \<Rightarrow> int c" where
  "lock_test p f type offset whence len tbl =
     (case fcntl_getlk p f \<lparr>l_type = type, l_whence = whence, l_start = offset, l_len = len, l_pid = 0\<rparr> tbl of
        None \<Rightarrow> Inl (Exits (-1))
      | Some fl \<Rightarrow> if l_type fl = F_UNLCK then Inr 0 else Inr (l_pid fl))"

definition read_lock where "read_lock p f offset whence len = lock_reg False p f F_SETLK F_RDLCK offset whence len"
definition readw_lock where "readw_lock cycle p f offset whence len = lock_reg cycle p f F_SETLKW F_RDLCK offset whence len"
definition write_lock where "write_lock p f offset whence len = lock_reg False p f F_SETLK F_WRLCK offset whence len"
definition writew_lock where "writew_lock cycle p f offset whence len = lock_reg cycle p f F_SETLKW F_WRLCK offset whence len"
definition un_lock where "un_lock p f offset whence len = lock_reg False p f F_SETLK F_UNLCK offset whence len"
definition is_read_lockable where "is_read_lockable p f offset whence len = lock_test p f F_RDLCK offset whence len"
definition is_write_lockable where "is_write_lockable p f offset whence len = lock_test p f F_WRLCK offset whence len"

text \<open>When a process ends, its locks go.\<close>

definition drop_locks :: "int \<Rightarrow> region list \<Rightarrow> region list" where
  "drop_locks p tbl = filter (\<lambda>x. lr_pid x \<noteq> p) tbl"

section \<open>The table byte by byte\<close>

definition holds_byte :: "region list \<Rightarrow> int \<Rightarrow> bool \<Rightarrow> int \<Rightarrow> bool" where
  "holds_byte tbl p w x \<longleftrightarrow> (\<exists>r \<in> set tbl. lr_pid r = p \<and> lr_write r = w \<and> in_range (lr_range r) x)"

definition proper :: "byte_range \<Rightarrow> bool" where
  "proper r \<longleftrightarrow> (case snd r of None \<Rightarrow> True | Some h \<Rightarrow> fst r < h)"

text \<open>Every region is not empty, and no byte has a writer beside another process.\<close>

definition compatible :: "region list \<Rightarrow> bool" where
  "compatible tbl \<longleftrightarrow> (\<forall>r \<in> set tbl. proper (lr_range r))
     \<and> (\<forall>r \<in> set tbl. \<forall>s \<in> set tbl. lr_pid r \<noteq> lr_pid s \<longrightarrow> overlap (lr_range r) (lr_range s) \<longrightarrow> \<not> lr_write r \<and> \<not> lr_write s)"

lemma flock_range_proper: "flock_range f fl = Some r \<Longrightarrow> proper r"
  by (auto simp: flock_range_def proper_def Let_def split: if_splits)

lemma overlap_sym: "overlap r s \<longleftrightarrow> overlap s r"
  by (auto simp: overlap_def)

lemma overlap_iff: "proper r \<Longrightarrow> proper s \<Longrightarrow> overlap r s \<longleftrightarrow> (\<exists>x. in_range r x \<and> in_range s x)"
proof
  assume "proper r" "proper s" "overlap r s"
  then show "\<exists>x. in_range r x \<and> in_range s x"
    by (intro exI [of _ "max (fst r) (fst s)"]) (auto simp: proper_def overlap_def in_range_def split: option.splits)
qed (auto simp: overlap_def in_range_def split: option.splits)

lemma cut_proper: "proper r \<Longrightarrow> y \<in> set (cut r s) \<Longrightarrow> proper y"
  by (auto simp: cut_def proper_def overlap_def split: if_splits option.splits)

lemma cut_in_range: "proper s \<Longrightarrow> (\<exists>y \<in> set (cut r s). in_range y x) \<longleftrightarrow> in_range r x \<and> \<not> in_range s x"
  by (auto simp: cut_def in_range_def overlap_def proper_def split: option.splits)

lemma cut_overlap: "proper r \<Longrightarrow> proper s \<Longrightarrow> proper t \<Longrightarrow> y \<in> set (cut r s) \<Longrightarrow> overlap y t \<Longrightarrow> overlap r t"
proof -
  assume r: "proper r" and s: "proper s" and t: "proper t" and y: "y \<in> set (cut r s)" and o: "overlap y t"
  obtain x where "in_range y x" "in_range t x" using o overlap_iff [OF cut_proper [OF r y] t] by blast
  then have "in_range r x" using cut_in_range [OF s, of r x] y by blast
  with \<open>in_range t x\<close> show "overlap r t" using overlap_iff [OF r t] by blast
qed

lemma set_release:
  "z \<in> set (release p r tbl) \<longleftrightarrow>
     (\<exists>x \<in> set tbl. if lr_pid x = p then \<exists>y \<in> set (cut (lr_range x) r). z = x\<lparr>lr_range := y\<rparr> else z = x)"
proof (induction tbl)
  case (Cons x tbl)
  then show ?case by (cases "lr_pid x = p") (auto simp: release_def)
qed (simp add: release_def)

lemma holds_append [simp]: "holds_byte (xs @ ys) q w x \<longleftrightarrow> holds_byte xs q w x \<or> holds_byte ys q w x"
  unfolding holds_byte_def by (simp add: bex_Un)

lemma holds_Cons [simp]:
  "holds_byte (r # tbl) q w x \<longleftrightarrow> (lr_pid r = q \<and> lr_write r = w \<and> in_range (lr_range r) x) \<or> holds_byte tbl q w x"
  by (simp add: holds_byte_def)

lemma holds_Nil [simp]: "\<not> holds_byte [] q w x"
  by (simp add: holds_byte_def)

lemma holds_pieces:
  "holds_byte (map (\<lambda>y. z\<lparr>lr_range := y\<rparr>) ys) q w x \<longleftrightarrow> lr_pid z = q \<and> lr_write z = w \<and> (\<exists>y \<in> set ys. in_range y x)"
  by (induction ys) auto

lemma holds_release:
  assumes "proper r"
  shows "holds_byte (release p r tbl) q w x \<longleftrightarrow> holds_byte tbl q w x \<and> \<not> (q = p \<and> in_range r x)"
proof (induction tbl)
  case Nil
  then show ?case by (simp add: release_def)
next
  case (Cons z tbl)
  have rel: "release p r (z # tbl) = (if lr_pid z = p then map (\<lambda>y. z\<lparr>lr_range := y\<rparr>) (cut (lr_range z) r) else [z]) @ release p r tbl"
    by (simp add: release_def)
  show ?case
  proof (cases "lr_pid z = p")
    case True
    then show ?thesis unfolding rel holds_append Cons.IH by (simp add: holds_pieces cut_in_range [OF assms]) blast
  next
    case False
    then show ?thesis unfolding rel holds_append Cons.IH by auto
  qed
qed

text \<open>A lock or unlock changes exactly the bytes of its range, for exactly the caller.\<close>

lemma setlk_bytes:
  assumes "flock_range f fl = Some r" and "fcntl_setlk cycle p f cmd fl tbl = Inr (None, tbl')"
  shows "holds_byte tbl' q w x \<longleftrightarrow>
    (if q = p \<and> in_range r x then l_type fl \<noteq> F_UNLCK \<and> w = (l_type fl = F_WRLCK) else holds_byte tbl q w x)"
proof (cases "l_type fl = F_UNLCK")
  case True
  with assms have "tbl' = release p r tbl" by (simp add: fcntl_setlk_def)
  with True show ?thesis using holds_release [OF flock_range_proper [OF assms(1)]] by auto
next
  case False
  with assms have "tbl' = \<lparr>lr_pid = p, lr_write = (l_type fl = F_WRLCK), lr_range = r\<rparr> # release p r tbl"
    by (auto simp: fcntl_setlk_def split: option.splits lock_cmd.splits if_splits)
  with False show ?thesis using holds_release [OF flock_range_proper [OF assms(1)]] by auto
qed

lemma blocker_None: "blocker p w r tbl = None \<longleftrightarrow> (\<forall>x \<in> set tbl. lr_pid x \<noteq> p \<longrightarrow> overlap (lr_range x) r \<longrightarrow> \<not> w \<and> \<not> lr_write x)"
  by (auto simp: blocker_def find_None_iff)

lemma blocker_Some:
  "blocker p w r tbl = Some b \<Longrightarrow> b \<in> set tbl \<and> lr_pid b \<noteq> p \<and> overlap (lr_range b) r \<and> (w \<or> lr_write b)"
  by (auto simp: blocker_def find_Some_iff)

lemma release_compatible:
  assumes "compatible tbl" and "proper r"
  shows "compatible (release p r tbl)"
proof -
  have old: "\<exists>x \<in> set tbl. lr_pid x = lr_pid z \<and> lr_write x = lr_write z \<and> proper (lr_range z)
      \<and> (\<forall>t. proper t \<longrightarrow> overlap (lr_range z) t \<longrightarrow> overlap (lr_range x) t)" if z: "z \<in> set (release p r tbl)" for z
  proof -
    obtain x where x: "x \<in> set tbl" "if lr_pid x = p then \<exists>y \<in> set (cut (lr_range x) r). z = x\<lparr>lr_range := y\<rparr> else z = x"
      using z unfolding set_release by blast
    have px: "proper (lr_range x)" using assms(1) x(1) by (simp add: compatible_def)
    show ?thesis
    proof (cases "lr_pid x = p")
      case True
      then obtain y where y: "y \<in> set (cut (lr_range x) r)" "z = x\<lparr>lr_range := y\<rparr>" using x by auto
      then show ?thesis using x(1) cut_proper [OF px y(1)] cut_overlap [OF px assms(2) _ y(1)]
        by (intro bexI [of _ x]) simp_all
    next
      case False
      then show ?thesis using x px by auto
    qed
  qed
  have "\<not> lr_write y \<and> \<not> lr_write z"
    if yz: "y \<in> set (release p r tbl)" "z \<in> set (release p r tbl)" "lr_pid y \<noteq> lr_pid z" "overlap (lr_range y) (lr_range z)" for y z
  proof -
    obtain a b where a: "a \<in> set tbl" "lr_pid a = lr_pid y" "lr_write a = lr_write y" "proper (lr_range y)"
        "\<forall>t. proper t \<longrightarrow> overlap (lr_range y) t \<longrightarrow> overlap (lr_range a) t"
      and b: "b \<in> set tbl" "lr_pid b = lr_pid z" "lr_write b = lr_write z" "proper (lr_range z)"
        "\<forall>t. proper t \<longrightarrow> overlap (lr_range z) t \<longrightarrow> overlap (lr_range b) t"
      using old [OF yz(1)] old [OF yz(2)] by blast
    have "proper (lr_range a)" using assms(1) a(1) by (simp add: compatible_def)
    with a b yz have "overlap (lr_range a) (lr_range b)" using overlap_sym by blast
    with assms(1) a b yz(3) show ?thesis unfolding compatible_def by metis
  qed
  with old show ?thesis unfolding compatible_def by blast
qed

lemma setlk_compatible:
  assumes "compatible tbl" and "fcntl_setlk cycle p f cmd fl tbl = Inr (e, tbl')"
  shows "compatible tbl'"
proof (cases "tbl' = tbl")
  case True
  with assms(1) show ?thesis by simp
next
  case False
  with assms(2) obtain r where r: "flock_range f fl = Some r" by (auto simp: fcntl_setlk_def split: option.splits)
  note rel = release_compatible [OF assms(1) flock_range_proper [OF r], of p]
  show ?thesis
  proof (cases "l_type fl = F_UNLCK")
    case True
    with assms(2) r rel show ?thesis by (simp add: fcntl_setlk_def)
  next
    case locking: False
    let ?n = "\<lparr>lr_pid = p, lr_write = (l_type fl = F_WRLCK), lr_range = r\<rparr>"
    have t: "tbl' = ?n # release p r tbl" and free: "blocker p (l_type fl = F_WRLCK) r tbl = None"
      using assms(2) r locking False by (auto simp: fcntl_setlk_def split: option.splits lock_cmd.splits if_splits)
    have "\<not> lr_write ?n \<and> \<not> lr_write z" if z: "z \<in> set (release p r tbl)" "lr_pid z \<noteq> p" "overlap (lr_range z) r" for z
    proof -
      have "z \<in> set tbl" using z(1,2) unfolding set_release by (auto split: if_splits)
      with free z show ?thesis unfolding blocker_None by auto
    qed
    with rel flock_range_proper [OF r] show ?thesis unfolding t compatible_def by (auto simp: overlap_sym)
  qed
qed

lemma drop_compatible: "compatible tbl \<Longrightarrow> compatible (drop_locks p tbl)"
  by (auto simp: compatible_def drop_locks_def)

lemma holds_drop: "holds_byte (drop_locks p tbl) q w x \<longleftrightarrow> q \<noteq> p \<and> holds_byte tbl q w x"
  by (auto simp: holds_byte_def drop_locks_def)

lemma compatible_bytes:
  assumes "compatible tbl" and "holds_byte tbl p True x" and "p \<noteq> q"
  shows "\<not> holds_byte tbl q w x"
proof
  assume "holds_byte tbl q w x"
  with assms(2) obtain r s where r: "r \<in> set tbl" "lr_pid r = p" "lr_write r" "in_range (lr_range r) x"
    and s: "s \<in> set tbl" "lr_pid s = q" "in_range (lr_range s) x" by (auto simp: holds_byte_def)
  have "overlap (lr_range r) (lr_range s)"
    using overlap_iff [of "lr_range r" "lr_range s"] assms(1) r s by (auto simp: compatible_def)
  with assms r s show False by (auto simp: compatible_def)
qed

section \<open>Properties of the record locks\<close>

text \<open>
  C15: \<open>lock_reg\<close> keeps the locks of different processes apart: no byte that one process has locked
  for writing is locked by another. It returns 0 having changed exactly the bytes of the requested
  range for exactly the caller, or \<open>-1\<close> having changed nothing.
\<close>

theorem lock_reg_correct:
  assumes "compatible tbl"
    and "flock_range f \<lparr>l_type = ty, l_whence = wh, l_start = off, l_len = len, l_pid = 0\<rparr> = Some r"
    and "lock_reg cycle p f cmd ty off wh len tbl = Inr (ret, tbl')"
  shows "compatible tbl'
    \<and> (\<forall>q q' w x. q \<noteq> q' \<longrightarrow> holds_byte tbl' q True x \<longrightarrow> \<not> holds_byte tbl' q' w x)
    \<and> (ret = 0 \<and> (\<forall>q w x. holds_byte tbl' q w x \<longleftrightarrow>
          (if q = p \<and> in_range r x then ty \<noteq> F_UNLCK \<and> w = (ty = F_WRLCK) else holds_byte tbl q w x))
       \<or> ret = -1 \<and> tbl' = tbl)"
proof -
  obtain e where e: "fcntl_setlk cycle p f cmd \<lparr>l_type = ty, l_whence = wh, l_start = off, l_len = len, l_pid = 0\<rparr> tbl = Inr (e, tbl')"
      "ret = (if e = None then 0 else -1)"
    using assms(3) by (auto simp: lock_reg_def c_simps)
  have c: "compatible tbl'" using setlk_compatible [OF assms(1) e(1)] .
  have "tbl' = tbl" if "e \<noteq> None"
    using that e(1) by (auto simp: fcntl_setlk_def split: option.splits if_splits lock_cmd.splits)
  with c e(2) setlk_bytes [OF assms(2), of cycle p cmd tbl tbl'] e(1) compatible_bytes [OF c] show ?thesis
    by (cases e) auto
qed

theorem lock_reg_correct_witness:
  "\<exists>tbl'. write_lock 7 \<lparr>f_pos = 0, f_size = 2\<rparr> 0 SEEK_SET 1 [] = Inr (0, tbl') \<and> holds_byte tbl' 7 True 0 \<and> \<not> holds_byte tbl' 8 False 0"
proof -
  have "lock_reg False 7 \<lparr>f_pos = 0, f_size = 2\<rparr> F_SETLK F_WRLCK 0 SEEK_SET 1 [] =
      Inr (0, [\<lparr>lr_pid = 7, lr_write = True, lr_range = (0, Some 1)\<rparr>])"
    by (simp add: lock_reg_def fcntl_setlk_def flock_range_def blocker_def release_def)
  from lock_reg_correct [OF _ _ this, of "(0, Some 1)"] this show ?thesis
    by (auto simp: write_lock_def compatible_def flock_range_def in_range_def)
qed

text \<open>
  \<open>lock_test\<close> tells in advance what \<open>lock_reg\<close> with \<open>F_SETLK\<close> would do: it returns 0 exactly
  when the lock would be granted, and otherwise the process id of another process that holds a
  conflicting lock on a byte of the range. On a range that starts before the file it exits.
\<close>

lemma lock_test_correct:
  assumes "compatible tbl" and "\<forall>b \<in> set tbl. lr_pid b \<noteq> 0" and "ty \<noteq> F_UNLCK"
    and fl: "fl = \<lparr>l_type = ty, l_whence = wh, l_start = off, l_len = len, l_pid = 0\<rparr>"
  shows "(flock_range f fl = None \<longrightarrow> lock_test p f ty off wh len tbl = Inl (Exits (-1)))
    \<and> (flock_range f fl = Some r \<longrightarrow>
        (\<exists>q. lock_test p f ty off wh len tbl = Inr q
           \<and> (q = 0 \<longleftrightarrow> (\<exists>tbl'. lock_reg False p f F_SETLK ty off wh len tbl = Inr (0, tbl')))
           \<and> (q \<noteq> 0 \<longrightarrow> q \<noteq> p \<and> (\<exists>x w. in_range r x \<and> holds_byte tbl q w x \<and> (w \<or> ty = F_WRLCK)))))"
proof (cases "flock_range f fl")
  case None
  then show ?thesis using fl by (simp add: lock_test_def fcntl_getlk_def)
next
  case (Some r')
  show ?thesis
  proof (cases "blocker p (ty = F_WRLCK) r' tbl")
    case None
    with Some fl assms(3) show ?thesis
      by (auto simp: lock_test_def fcntl_getlk_def lock_reg_def fcntl_setlk_def)
  next
    case (Some b)
    note b = blocker_Some [OF Some]
    have "overlap (lr_range b) r'" "proper (lr_range b)" using b assms(1) by (auto simp: compatible_def)
    then obtain x where "in_range (lr_range b) x" "in_range r' x"
      using overlap_iff flock_range_proper [OF \<open>flock_range f fl = Some r'\<close>] by blast
    then have "\<exists>x w. in_range r' x \<and> holds_byte tbl (lr_pid b) w x \<and> (w \<or> ty = F_WRLCK)"
      using b by (auto simp: holds_byte_def)
    moreover have "lock_test p f ty off wh len tbl = Inr (lr_pid b)" "lr_pid b \<noteq> 0"
      using Some \<open>flock_range f fl = Some r'\<close> fl b assms(2) by (auto simp: lock_test_def fcntl_getlk_def)
    moreover have "lock_reg False p f F_SETLK ty off wh len tbl = Inr (-1, tbl)"
      using Some \<open>flock_range f fl = Some r'\<close> fl assms(3) by (simp add: lock_reg_def fcntl_setlk_def)
    ultimately show ?thesis using \<open>flock_range f fl = Some r'\<close> b by auto
  qed
qed

end
