(* ===== verification/Lock_Deadlock.thy ===== *)
theory Lock_Deadlock
  imports Record_Lock
begin

text \<open>
  Processes that keep each other in step with pipes: \<open>flock/tell_wait.c\<close>, the two processes of
  \<open>flock/deadlock.c\<close> that lock two bytes in opposite orders, and the parent and child of
  \<open>proc_demos/race_cond.c\<close>. The lemmas show that the deadlock is certain, that exactly one process
  is refused, and that the output of \<open>race_cond.c\<close> is always in the same order.
\<close>

section \<open>Pipes between parent and child\<close>

record tell_wait =
  pipe1 :: string
  pipe2 :: string

text \<open>\<open>r1\<close> and \<open>r2\<close> are what the two calls of \<open>pipe\<close> return.\<close>

definition tell_wait_init :: "int \<Rightarrow> int \<Rightarrow> tell_wait c" where
  "tell_wait_init r1 r2 = (if r1 < 0 \<or> r2 < 0 then Inl (Exits (-1)) else Inr \<lparr>pipe1 = '''', pipe2 = ''''\<rparr>)"

text \<open>
  Both ends of both pipes stay open in both processes, so a \<open>read\<close> of an empty pipe waits and
  never sees an end of file.
\<close>

definition tell_parent :: "tell_wait stmt" where
  "tell_parent s = Inr (s\<lparr>pipe1 := pipe1 s @ ''p''\<rparr>)"

definition wait_child :: "tell_wait stmt" where
  "wait_child s = (case pipe1 s of [] \<Rightarrow> Inl Blocks
     | x # xs \<Rightarrow> if x \<noteq> CHR ''p'' then Inl (Exits (-1)) else Inr (s\<lparr>pipe1 := xs\<rparr>))"

definition tell_child :: "tell_wait stmt" where
  "tell_child s = Inr (s\<lparr>pipe2 := pipe2 s @ ''c''\<rparr>)"

definition wait_parent :: "tell_wait stmt" where
  "wait_parent s = (case pipe2 s of [] \<Rightarrow> Inl Blocks
     | x # xs \<Rightarrow> if x \<noteq> CHR ''c'' then Inl (Exits (-1)) else Inr (s\<lparr>pipe2 := xs\<rparr>))"

section \<open>Two processes that lock in opposite orders\<close>

datatype proc = Parent | Child

primrec other :: "proc \<Rightarrow> proc" where
  "other Parent = Child"
| "other Child = Parent"

text \<open>\<open>lockabyte\<close> waits for a write lock on one byte and prints that it got it.\<close>

definition lockabyte ::
  "bool \<Rightarrow> int \<Rightarrow> open_file \<Rightarrow> proc \<Rightarrow> int \<Rightarrow> (region list \<times> (proc \<times> int) list) stmt" where
  "lockabyte cycle p f nm offset = (\<lambda>(tbl, out).
     bindE (writew_lock cycle p f offset SEEK_SET 1 tbl)
       (\<lambda>(r, tbl'). if r < 0 then Inl (Exits (-1)) else Inr (tbl', out @ [(nm, offset)])))"

text \<open>
  Where a process is after the \<open>fork\<close>: before its first \<open>lockabyte\<close>, before it tells the other
  process, before it waits for it, before its second \<open>lockabyte\<close>, before the \<open>return\<close>, or ended.
\<close>

datatype dl_pc = Lock1st | Tell | Wait | Lock2nd | Finish | Exited int

record dl_sys =
  dl_tbl :: "region list"
  dl_out :: "(proc \<times> int) list"
  dl_pipes :: tell_wait
  dl_pc :: "proc \<Rightarrow> dl_pc"
  dl_blocked :: "proc \<Rightarrow> bool"

primrec first_byte :: "proc \<Rightarrow> int" where
  "first_byte Parent = 1"
| "first_byte Child = 0"

primrec second_byte :: "proc \<Rightarrow> int" where
  "second_byte Parent = 0"
| "second_byte Child = 1"

definition wanted :: "proc \<Rightarrow> dl_pc \<Rightarrow> int" where
  "wanted u l = (if l = Lock1st then first_byte u else second_byte u)"

primrec tell_other :: "proc \<Rightarrow> tell_wait stmt" where
  "tell_other Parent = tell_child"
| "tell_other Child = tell_parent"

primrec wait_other :: "proc \<Rightarrow> tell_wait stmt" where
  "wait_other Parent = wait_child"
| "wait_other Child = wait_parent"

text \<open>
  Waiting would never end where the other process is blocked on a byte that this one holds; the
  kernel looks for that when a request has to wait.
\<close>

definition dl_cycle :: "(proc \<Rightarrow> int) \<Rightarrow> dl_sys \<Rightarrow> proc \<Rightarrow> bool" where
  "dl_cycle pid c u \<longleftrightarrow> \<not> dl_blocked c u \<and> dl_blocked c (other u)
     \<and> holds_byte (dl_tbl c) (pid u) True (wanted (other u) (dl_pc c (other u)))"

definition dl_attempt :: "(proc \<Rightarrow> int) \<Rightarrow> dl_sys \<Rightarrow> proc \<Rightarrow> (region list \<times> (proc \<times> int) list) c" where
  "dl_attempt pid c u = lockabyte (dl_cycle pid c u) (pid u) \<lparr>f_pos = 2, f_size = 2\<rparr> u (wanted u (dl_pc c u)) (dl_tbl c, dl_out c)"

definition dl_exit :: "(proc \<Rightarrow> int) \<Rightarrow> proc \<Rightarrow> int \<Rightarrow> dl_sys \<Rightarrow> dl_sys" where
  "dl_exit pid u e c = c\<lparr>dl_tbl := drop_locks (pid u) (dl_tbl c), dl_pc := (dl_pc c)(u := Exited e), dl_blocked := (dl_blocked c)(u := False)\<rparr>"

inductive dl_step :: "(proc \<Rightarrow> int) \<Rightarrow> dl_sys \<Rightarrow> dl_sys \<Rightarrow> bool" for pid where
  dl_lock: "dl_pc c u \<in> {Lock1st, Lock2nd} \<Longrightarrow> dl_attempt pid c u = Inr (tbl, out) \<Longrightarrow>
     dl_step pid c (c\<lparr>dl_tbl := tbl, dl_out := out,
       dl_pc := (dl_pc c)(u := if dl_pc c u = Lock1st then Tell else Finish), dl_blocked := (dl_blocked c)(u := False)\<rparr>)"
| dl_block: "dl_pc c u \<in> {Lock1st, Lock2nd} \<Longrightarrow> dl_attempt pid c u = Inl Blocks \<Longrightarrow> \<not> dl_blocked c u \<Longrightarrow>
     dl_step pid c (c\<lparr>dl_blocked := (dl_blocked c)(u := True)\<rparr>)"
| dl_refused: "dl_pc c u \<in> {Lock1st, Lock2nd} \<Longrightarrow> dl_attempt pid c u = Inl (Exits e) \<Longrightarrow>
     dl_step pid c (dl_exit pid u e c)"
| dl_tell: "dl_pc c u = Tell \<Longrightarrow> tell_other u (dl_pipes c) = Inr p \<Longrightarrow>
     dl_step pid c (c\<lparr>dl_pipes := p, dl_pc := (dl_pc c)(u := Wait)\<rparr>)"
| dl_wait: "dl_pc c u = Wait \<Longrightarrow> wait_other u (dl_pipes c) = Inr p \<Longrightarrow>
     dl_step pid c (c\<lparr>dl_pipes := p, dl_pc := (dl_pc c)(u := Lock2nd)\<rparr>)"
| dl_wait_fails: "dl_pc c u = Wait \<Longrightarrow> wait_other u (dl_pipes c) = Inl (Exits e) \<Longrightarrow>
     dl_step pid c (dl_exit pid u e c)"
| dl_return: "dl_pc c u = Finish \<Longrightarrow> dl_step pid c (dl_exit pid u 0 c)"

definition dl_start :: dl_sys where
  "dl_start = \<lparr>dl_tbl = [], dl_out = [], dl_pipes = \<lparr>pipe1 = '''', pipe2 = ''''\<rparr>, dl_pc = (\<lambda>u. Lock1st), dl_blocked = (\<lambda>u. False)\<rparr>"

section \<open>The outcome of a lock request\<close>

lemma other_other [simp]: "other (other u) = u" by (cases u) simp_all
lemma other_neq [simp]: "other u \<noteq> u" "u \<noteq> other u" by (cases u; simp)+
lemma proc_cases: "v = u \<or> v = other u" by (cases u; cases v) simp_all
lemma bytes_other [simp]: "first_byte (other u) = second_byte u" "second_byte (other u) = first_byte u" by (cases u; simp)+
lemma bytes_neq [simp]: "first_byte u \<noteq> second_byte u" "second_byte u \<noteq> first_byte u" by (cases u; simp)+

lemma blocker_byte:
  assumes "compatible tbl"
  shows "blocker p True (x, Some (x + 1)) tbl = None \<longleftrightarrow> (\<forall>q w. q \<noteq> p \<longrightarrow> \<not> holds_byte tbl q w x)"
proof -
  have "overlap (lr_range r) (x, Some (x + 1)) \<longleftrightarrow> in_range (lr_range r) x" if "r \<in> set tbl" for r
  proof -
    have "proper (lr_range r)" "proper (x, Some (x + 1))" using that assms by (auto simp: compatible_def proper_def)
    then show ?thesis by (simp add: overlap_iff) (auto simp: in_range_def)
  qed
  then show ?thesis unfolding blocker_None holds_byte_def by blast
qed

lemma byte_range: "0 \<le> x \<Longrightarrow> flock_range f \<lparr>l_type = ty, l_whence = SEEK_SET, l_start = x, l_len = 1, l_pid = 0\<rparr> = Some (x, Some (x + 1))"
  by (simp add: flock_range_def)

lemma in_byte: "in_range (x, Some (x + 1)) y \<longleftrightarrow> y = x"
  by (auto simp: in_range_def)

lemma lockabyte_free:
  assumes "compatible tbl" and "0 \<le> x" and "\<forall>q w. q \<noteq> p \<longrightarrow> \<not> holds_byte tbl q w x"
  shows "\<exists>tbl'. lockabyte cycle p f nm x (tbl, out) = Inr (tbl', out @ [(nm, x)]) \<and> compatible tbl'
    \<and> (\<forall>q w y. holds_byte tbl' q w y \<longleftrightarrow> (if q = p \<and> y = x then w else holds_byte tbl q w y))"
proof -
  let ?fl = "\<lparr>l_type = F_WRLCK, l_whence = SEEK_SET, l_start = x, l_len = 1, l_pid = 0\<rparr>"
  have "blocker p True (x, Some (x + 1)) tbl = None" using blocker_byte [OF assms(1)] assms(3) by blast
  then obtain tbl' where t: "fcntl_setlk cycle p f F_SETLKW ?fl tbl = Inr (None, tbl')"
    by (simp add: fcntl_setlk_def byte_range [OF assms(2)])
  then have "lockabyte cycle p f nm x (tbl, out) = Inr (tbl', out @ [(nm, x)])"
    by (simp add: lockabyte_def writew_lock_def lock_reg_def)
  with setlk_compatible [OF assms(1) t] setlk_bytes [OF byte_range [OF assms(2)] t] show ?thesis
    by (auto simp: in_byte)
qed

lemma lockabyte_taken:
  assumes "compatible tbl" and "0 \<le> x" and "q \<noteq> p" and "holds_byte tbl q w x"
  shows "lockabyte cycle p f nm x (tbl, out) = Inl (if cycle then Exits (-1) else Blocks)"
proof -
  obtain b where "blocker p True (x, Some (x + 1)) tbl = Some b"
    using blocker_byte [OF assms(1), of p x] assms(3,4) by (cases "blocker p True (x, Some (x + 1)) tbl") auto
  then show ?thesis
    by (simp add: lockabyte_def writew_lock_def lock_reg_def fcntl_setlk_def byte_range [OF assms(2)])
qed

section \<open>The invariant of the two processes\<close>

primrec owned :: "proc \<Rightarrow> dl_pc \<Rightarrow> int set" where
  "owned u Lock1st = {}"
| "owned u Tell = {first_byte u}"
| "owned u Wait = {first_byte u}"
| "owned u Lock2nd = {first_byte u}"
| "owned u Finish = {first_byte u, second_byte u}"
| "owned u (Exited e) = {}"

definition told :: "dl_pc \<Rightarrow> bool" where
  "told l \<longleftrightarrow> l \<noteq> Lock1st \<and> l \<noteq> Tell"

definition heard :: "dl_pc \<Rightarrow> bool" where
  "heard l \<longleftrightarrow> told l \<and> l \<noteq> Wait"

primrec inbox :: "proc \<Rightarrow> tell_wait \<Rightarrow> string" where
  "inbox Parent p = pipe1 p"
| "inbox Child p = pipe2 p"

primrec sig :: "proc \<Rightarrow> char" where
  "sig Parent = CHR ''p''"
| "sig Child = CHR ''c''"

definition pair_ok :: "dl_pc \<Rightarrow> dl_pc \<Rightarrow> bool" where
  "pair_ok l m \<longleftrightarrow> (heard l \<longrightarrow> told m) \<and> (l = Finish \<longrightarrow> m = Exited (-1))
     \<and> (\<forall>e. l = Exited e \<longrightarrow> (e = 0 \<and> m = Exited (-1)) \<or> (e = -1 \<and> m \<in> {Lock2nd, Finish, Exited 0}))"

definition holdings :: "(proc \<Rightarrow> int) \<Rightarrow> dl_sys \<Rightarrow> bool" where
  "holdings pid c \<longleftrightarrow> compatible (dl_tbl c)
     \<and> (\<forall>q w x. holds_byte (dl_tbl c) q w x \<longleftrightarrow> w \<and> (\<exists>u. q = pid u \<and> x \<in> owned u (dl_pc c u)))"

definition mail :: "dl_sys \<Rightarrow> bool" where
  "mail c \<longleftrightarrow> (\<forall>u. inbox u (dl_pipes c) = (if told (dl_pc c (other u)) \<and> \<not> heard (dl_pc c u) then [sig u] else []))"

definition control :: "dl_sys \<Rightarrow> bool" where
  "control c \<longleftrightarrow> (\<forall>u. pair_ok (dl_pc c u) (dl_pc c (other u)))
     \<and> (\<forall>u. dl_blocked c u \<longrightarrow> dl_pc c u = Lock2nd) \<and> (\<forall>u. \<not> (dl_blocked c u \<and> dl_blocked c (other u)))"

definition dl_inv :: "(proc \<Rightarrow> int) \<Rightarrow> dl_sys \<Rightarrow> bool" where
  "dl_inv pid c \<longleftrightarrow> holdings pid c \<and> mail c \<and> control c"

lemma holds_iff:
  assumes "holdings pid c" and "inj pid"
  shows "holds_byte (dl_tbl c) (pid u) w x \<longleftrightarrow> w \<and> x \<in> owned u (dl_pc c u)"
  using assms unfolding holdings_def by (auto dest: injD)

lemma tell_other_Inr: "tell_other u p = Inr p' \<Longrightarrow> inbox (other u) p' = inbox (other u) p @ [sig (other u)] \<and> inbox u p' = inbox u p"
  by (cases u) (auto simp: tell_child_def tell_parent_def)

lemma wait_other_Inr: "wait_other u p = Inr p' \<Longrightarrow> inbox u p = sig u # inbox u p' \<and> inbox (other u) p' = inbox (other u) p"
  by (cases u) (auto simp: wait_child_def wait_parent_def split: list.splits if_splits)

lemma wait_other_sig: "inbox u p = sig u # xs \<Longrightarrow> \<exists>p'. wait_other u p = Inr p'"
  by (cases u) (auto simp: wait_child_def wait_parent_def)

lemma wait_other_empty: "inbox u p = [] \<Longrightarrow> wait_other u p = Inl Blocks"
  by (cases u) (auto simp: wait_child_def wait_parent_def)

lemma all_procs: "(\<forall>v. P v) \<longleftrightarrow> P u \<and> P (other u)"
  by (metis proc_cases)

lemma ex_procs: "(\<exists>v. P v) \<longleftrightarrow> P u \<or> P (other u)"
  by (metis proc_cases)

text \<open>A request at either lock, by who holds the byte.\<close>

lemma attempt_free:
  assumes "holdings pid c" and "inj pid" and "wanted u (dl_pc c u) \<notin> owned (other u) (dl_pc c (other u))"
  shows "\<exists>tbl. dl_attempt pid c u = Inr (tbl, dl_out c @ [(u, wanted u (dl_pc c u))]) \<and> compatible tbl
    \<and> (\<forall>q w y. holds_byte tbl q w y \<longleftrightarrow> (if q = pid u \<and> y = wanted u (dl_pc c u) then w else holds_byte (dl_tbl c) q w y))"
proof -
  have pos: "0 \<le> wanted u (dl_pc c u)" by (cases u) (simp_all add: wanted_def)
  have ok: "compatible (dl_tbl c)" using assms(1) by (simp add: holdings_def)
  have "\<not> holds_byte (dl_tbl c) q w (wanted u (dl_pc c u))" if "q \<noteq> pid u" for q w
  proof -
    have "holds_byte (dl_tbl c) q w (wanted u (dl_pc c u)) \<longleftrightarrow> w \<and> (\<exists>v. q = pid v \<and> wanted u (dl_pc c u) \<in> owned v (dl_pc c v))"
      using assms(1) unfolding holdings_def by blast
    with that assms(3) show ?thesis unfolding ex_procs [of _ u] by simp
  qed
  then show ?thesis using lockabyte_free [OF ok pos] unfolding dl_attempt_def by blast
qed

lemma attempt_taken:
  assumes "holdings pid c" and "inj pid" and "wanted u (dl_pc c u) \<in> owned (other u) (dl_pc c (other u))"
  shows "dl_attempt pid c u = Inl (if dl_cycle pid c u then Exits (-1) else Blocks)"
proof -
  have pos: "0 \<le> wanted u (dl_pc c u)" by (cases u) (simp_all add: wanted_def)
  have ok: "compatible (dl_tbl c)" using assms(1) by (simp add: holdings_def)
  have "holds_byte (dl_tbl c) (pid (other u)) True (wanted u (dl_pc c u))"
    using holds_iff [OF assms(1,2)] assms(3) by simp
  moreover have "pid (other u) \<noteq> pid u" using assms(2) by (auto dest: injD)
  ultimately show ?thesis using lockabyte_taken [OF ok pos] unfolding dl_attempt_def by blast
qed

lemma first_byte_free:
  assumes "control c" and "dl_pc c u = Lock1st"
  shows "wanted u (dl_pc c u) \<notin> owned (other u) (dl_pc c (other u))"
proof -
  have "pair_ok (dl_pc c (other u)) Lock1st" using assms unfolding control_def by (metis other_other)
  then show ?thesis using assms(2) by (cases "dl_pc c (other u)") (auto simp: wanted_def pair_ok_def heard_def told_def)
qed

lemma second_byte_free:
  assumes "control c" and "dl_pc c u = Lock2nd"
  shows "wanted u (dl_pc c u) \<notin> owned (other u) (dl_pc c (other u)) \<longleftrightarrow> dl_pc c (other u) = Exited (-1)"
proof -
  have "pair_ok (dl_pc c (other u)) Lock2nd" "pair_ok Lock2nd (dl_pc c (other u))"
    using assms unfolding control_def by (metis other_other)+
  then show ?thesis using assms(2) by (cases "dl_pc c (other u)") (auto simp: wanted_def pair_ok_def heard_def told_def)
qed

lemma holdings_lock:
  assumes "holdings pid c" and "inj pid" and "compatible tbl"
    and bytes: "\<forall>q w y. holds_byte tbl q w y \<longleftrightarrow> (if q = pid u \<and> y = x then w else holds_byte (dl_tbl c) q w y)"
    and own: "owned u l = insert x (owned u (dl_pc c u))"
  shows "holdings pid (c\<lparr>dl_tbl := tbl, dl_out := out, dl_pc := (dl_pc c)(u := l), dl_blocked := b\<rparr>)"
proof -
  have "pid (other u) \<noteq> pid u" using assms(2) by (auto dest: injD)
  with assms show ?thesis unfolding holdings_def by (auto simp: ex_procs [of _ u] split: if_splits)
qed

lemma holdings_exit:
  assumes "holdings pid c" and "inj pid"
  shows "holdings pid (dl_exit pid u e c)"
proof -
  have "pid (other u) \<noteq> pid u" using assms(2) by (auto dest: injD)
  with assms(1) show ?thesis unfolding holdings_def dl_exit_def
    by (auto simp: ex_procs [of _ u] holds_drop drop_compatible)
qed

lemma holdings_same:
  assumes "holdings pid c" and "dl_tbl c' = dl_tbl c" and "\<forall>v. owned v (dl_pc c' v) = owned v (dl_pc c v)"
  shows "holdings pid c'"
  using assms by (simp add: holdings_def)

lemma control_upd:
  assumes "control c" and "dl_pc c' = (dl_pc c)(u := l)" and "dl_blocked c' = (dl_blocked c)(u := b)"
    and "pair_ok l (dl_pc c (other u))" and "pair_ok (dl_pc c (other u)) l"
    and "b \<longrightarrow> l = Lock2nd \<and> \<not> dl_blocked c (other u)"
  shows "control c'"
  using assms unfolding control_def all_procs [of _ u] by simp blast

lemma mail_upd:
  assumes "mail c" and "dl_pc c' = (dl_pc c)(u := l)" and "dl_pipes c' = dl_pipes c"
    and "told l = told (dl_pc c u)" and "heard l = heard (dl_pc c u)"
  shows "mail c'"
  using assms unfolding mail_def all_procs [of _ u] by simp

lemma mail_tell:
  assumes "mail c" and "control c" and "dl_pc c u = Tell" and "tell_other u (dl_pipes c) = Inr p"
  shows "mail (c\<lparr>dl_pipes := p, dl_pc := (dl_pc c)(u := Wait)\<rparr>)"
proof -
  have "pair_ok (dl_pc c (other u)) Tell" using assms(2,3) unfolding control_def by (metis other_other)
  then have "\<not> heard (dl_pc c (other u))" by (simp add: pair_ok_def told_def)
  with assms(1,3) tell_other_Inr [OF assms(4)] show ?thesis
    unfolding mail_def all_procs [of _ u] by (simp add: told_def heard_def)
qed

lemma mail_wait:
  assumes "mail c" and "dl_pc c u = Wait" and "wait_other u (dl_pipes c) = Inr p"
  shows "mail (c\<lparr>dl_pipes := p, dl_pc := (dl_pc c)(u := Lock2nd)\<rparr>)" "told (dl_pc c (other u))"
  using assms(1,2) wait_other_Inr [OF assms(3)] unfolding mail_def all_procs [of _ u]
  by (auto simp: told_def heard_def split: if_splits)

lemma at_wait:
  assumes "mail c" and "dl_pc c u = Wait"
  shows "if told (dl_pc c (other u)) then \<exists>p. wait_other u (dl_pipes c) = Inr p else wait_other u (dl_pipes c) = Inl Blocks"
proof -
  have "inbox u (dl_pipes c) = (if told (dl_pc c (other u)) then [sig u] else [])"
    using assms unfolding mail_def by (simp add: heard_def)
  then show ?thesis using wait_other_sig [of u "dl_pipes c"] wait_other_empty [of u "dl_pipes c"] by simp
qed

lemma control_pairs:
  assumes "control c"
  shows "pair_ok (dl_pc c u) (dl_pc c (other u))" "pair_ok (dl_pc c (other u)) (dl_pc c u)"
  using assms unfolding control_def by (metis other_other)+

text \<open>The first lock is always granted; the second only once the other process has been refused.\<close>

lemma step_lock:
  assumes inv: "dl_inv pid c" and inj: "inj pid"
    and pc: "dl_pc c u \<in> {Lock1st, Lock2nd}" and att: "dl_attempt pid c u = Inr (tbl, out)"
  shows "dl_inv pid (c\<lparr>dl_tbl := tbl, dl_out := out,
       dl_pc := (dl_pc c)(u := if dl_pc c u = Lock1st then Tell else Finish), dl_blocked := (dl_blocked c)(u := False)\<rparr>)"
proof -
  define l where "l = (if dl_pc c u = Lock1st then Tell else Finish)"
  let ?c = "c\<lparr>dl_tbl := tbl, dl_out := out, dl_pc := (dl_pc c)(u := l), dl_blocked := (dl_blocked c)(u := False)\<rparr>"
  have h: "holdings pid c" and m: "mail c" and k: "control c" using inv by (auto simp: dl_inv_def)
  note pairs = control_pairs [OF k, of u]
  have free: "wanted u (dl_pc c u) \<notin> owned (other u) (dl_pc c (other u))"
    using attempt_taken [OF h inj, of u] att by auto
  have bytes: "compatible tbl" "\<forall>q w y. holds_byte tbl q w y \<longleftrightarrow> (if q = pid u \<and> y = wanted u (dl_pc c u) then w else holds_byte (dl_tbl c) q w y)"
    using attempt_free [OF h inj free] att by auto
  have l: "told l = told (dl_pc c u)" "heard l = heard (dl_pc c u)"
      "owned u l = insert (wanted u (dl_pc c u)) (owned u (dl_pc c u))"
    using pc by (auto simp: l_def told_def heard_def wanted_def)
  have "pair_ok l (dl_pc c (other u)) \<and> pair_ok (dl_pc c (other u)) l"
  proof (cases "dl_pc c u = Lock1st")
    case True
    then show ?thesis using pairs unfolding l_def by (auto simp: pair_ok_def told_def heard_def)
  next
    case False
    then have "dl_pc c u = Lock2nd" using pc by simp
    then have "dl_pc c (other u) = Exited (-1)" using second_byte_free [OF k] free by blast
    with False show ?thesis by (simp add: l_def pair_ok_def told_def)
  qed
  then have "control ?c" by (intro control_upd [OF k, of ?c u l False]) simp_all
  moreover have "mail ?c" using l by (intro mail_upd [OF m, of ?c u l]) simp_all
  moreover have "holdings pid ?c" using holdings_lock [OF h inj bytes l(3)] by simp
  ultimately show ?thesis unfolding l_def dl_inv_def by simp
qed

lemma step_refused:
  assumes inv: "dl_inv pid c" and inj: "inj pid"
    and pc: "dl_pc c u \<in> {Lock1st, Lock2nd}" and att: "dl_attempt pid c u = Inl (Exits e)"
  shows "dl_inv pid (dl_exit pid u e c)"
proof -
  have h: "holdings pid c" and m: "mail c" and k: "control c" using inv by (auto simp: dl_inv_def)
  have taken: "wanted u (dl_pc c u) \<in> owned (other u) (dl_pc c (other u))"
    using attempt_free [OF h inj, of u] att by auto
  then have two: "dl_pc c u = Lock2nd" using first_byte_free [OF k, of u] pc by blast
  have "e = -1" and "dl_cycle pid c u" using attempt_taken [OF h inj taken] att by (auto split: if_splits)
  then have "dl_pc c (other u) = Lock2nd" using k by (simp add: dl_cycle_def control_def)
  then have "pair_ok (Exited e) (dl_pc c (other u)) \<and> pair_ok (dl_pc c (other u)) (Exited e)"
    using \<open>e = -1\<close> by (simp add: pair_ok_def told_def heard_def)
  then have "control (dl_exit pid u e c)" by (intro control_upd [OF k, of _ u]) (auto simp: dl_exit_def)
  moreover have "mail (dl_exit pid u e c)"
    by (rule mail_upd [OF m, of _ u]) (use two in \<open>auto simp: dl_exit_def told_def heard_def\<close>)
  ultimately show ?thesis using holdings_exit [OF h inj] by (simp add: dl_inv_def)
qed

lemma step_block:
  assumes inv: "dl_inv pid c" and inj: "inj pid"
    and pc: "dl_pc c u \<in> {Lock1st, Lock2nd}" and att: "dl_attempt pid c u = Inl Blocks" and nb: "\<not> dl_blocked c u"
  shows "dl_inv pid (c\<lparr>dl_blocked := (dl_blocked c)(u := True)\<rparr>)" (is "dl_inv pid ?c")
proof -
  have h: "holdings pid c" and m: "mail c" and k: "control c" using inv by (auto simp: dl_inv_def)
  have taken: "wanted u (dl_pc c u) \<in> owned (other u) (dl_pc c (other u))"
    using attempt_free [OF h inj, of u] att by auto
  then have two: "dl_pc c u = Lock2nd" using first_byte_free [OF k, of u] pc by blast
  have "\<not> dl_cycle pid c u" using attempt_taken [OF h inj taken] att by (auto split: if_splits)
  moreover have "holds_byte (dl_tbl c) (pid u) True (first_byte u)" using holds_iff [OF h inj] two by simp
  ultimately have "\<not> dl_blocked c (other u)"
    using nb k by (auto simp: dl_cycle_def wanted_def control_def)
  with two have "control ?c"
    by (intro control_upd [OF k, of _ u Lock2nd True]) (use control_pairs [OF k, of u] in auto)
  moreover have "mail ?c" using m by (simp add: mail_def)
  moreover have "holdings pid ?c" using h by (simp add: holdings_def)
  ultimately show ?thesis by (simp add: dl_inv_def)
qed

lemma dl_step_inv:
  assumes inj: "inj pid" and inv: "dl_inv pid c" and step: "dl_step pid c c'"
  shows "dl_inv pid c'"
proof -
  have h: "holdings pid c" and m: "mail c" and k: "control c" using inv by (auto simp: dl_inv_def)
  from step show ?thesis
  proof cases
    case (dl_lock u tbl out)
    then show ?thesis using step_lock [OF inv inj] by blast
  next
    case (dl_block u)
    then show ?thesis using step_block [OF inv inj] by blast
  next
    case (dl_refused u e)
    then show ?thesis using step_refused [OF inv inj] by blast
  next
    case (dl_tell u p)
    have "holdings pid c'" by (rule holdings_same [OF h]) (use dl_tell in auto)
    moreover have "control c'"
      by (rule control_upd [OF k, of _ u Wait "dl_blocked c u"])
        (use dl_tell control_pairs [OF k, of u] k in \<open>auto simp: pair_ok_def told_def heard_def control_def\<close>)
    ultimately show ?thesis using mail_tell [OF m k] dl_tell by (simp add: dl_inv_def)
  next
    case (dl_wait u p)
    have "holdings pid c'" by (rule holdings_same [OF h]) (use dl_wait in auto)
    moreover have "control c'"
      by (rule control_upd [OF k, of _ u Lock2nd "dl_blocked c u"])
        (use dl_wait mail_wait(2) [OF m, of u p] control_pairs [OF k, of u] k in
          \<open>auto simp: pair_ok_def told_def heard_def control_def\<close>)
    ultimately show ?thesis using mail_wait(1) [OF m] dl_wait by (simp add: dl_inv_def)
  next
    case (dl_wait_fails u e)
    then show ?thesis using at_wait [OF m, of u] by (auto split: if_splits)
  next
    case (dl_return u)
    have "control c'"
      by (rule control_upd [OF k, of _ u "Exited 0" False])
        (use dl_return control_pairs [OF k, of u] in \<open>auto simp: dl_exit_def pair_ok_def told_def heard_def\<close>)
    moreover have "mail c'"
      by (rule mail_upd [OF m, of _ u "Exited 0"]) (use dl_return in \<open>auto simp: dl_exit_def told_def heard_def\<close>)
    ultimately show ?thesis using holdings_exit [OF h inj] dl_return by (simp add: dl_inv_def)
  qed
qed

primrec dl_left :: "dl_pc \<Rightarrow> nat" where
  "dl_left Lock1st = 5"
| "dl_left Tell = 4"
| "dl_left Wait = 3"
| "dl_left Lock2nd = 2"
| "dl_left Finish = 1"
| "dl_left (Exited e) = 0"

definition dl_msr :: "dl_sys \<Rightarrow> nat" where
  "dl_msr c = 2 * dl_left (dl_pc c Parent) + of_bool (\<not> dl_blocked c Parent)
     + 2 * dl_left (dl_pc c Child) + of_bool (\<not> dl_blocked c Child)"

lemma dl_msr_other:
  "dl_msr c = 2 * dl_left (dl_pc c u) + of_bool (\<not> dl_blocked c u) + (2 * dl_left (dl_pc c (other u)) + of_bool (\<not> dl_blocked c (other u)))"
  by (cases u) (simp_all add: dl_msr_def)

lemma dl_msr_less:
  assumes "dl_pc c' = (dl_pc c)(u := l)" and "dl_blocked c' = (dl_blocked c)(u := b)"
    and "dl_left l < dl_left (dl_pc c u) \<or> l = dl_pc c u \<and> b \<and> \<not> dl_blocked c u"
  shows "dl_msr c' < dl_msr c"
  using assms unfolding dl_msr_other [of _ u] by auto

lemma dl_step_msr: "dl_step pid c c' \<Longrightarrow> dl_msr c' < dl_msr c"
proof (induction rule: dl_step.induct)
  case (dl_lock c u tbl out)
  then show ?case by (intro dl_msr_less [of _ _ u "if dl_pc c u = Lock1st then Tell else Finish" False]) auto
next
  case (dl_block c u)
  then show ?case by (intro dl_msr_less [of _ _ u "dl_pc c u" True]) auto
next
  case (dl_refused c u e)
  then show ?case by (intro dl_msr_less [of _ _ u "Exited e" False]) (auto simp: dl_exit_def)
next
  case (dl_tell c u p)
  then show ?case by (intro dl_msr_less [of _ _ u Wait "dl_blocked c u"]) auto
next
  case (dl_wait c u p)
  then show ?case by (intro dl_msr_less [of _ _ u Lock2nd "dl_blocked c u"]) auto
next
  case (dl_wait_fails c u e)
  then show ?case by (intro dl_msr_less [of _ _ u "Exited e" False]) (auto simp: dl_exit_def)
next
  case (dl_return c u)
  then show ?case by (intro dl_msr_less [of _ _ u "Exited 0" False]) (auto simp: dl_exit_def)
qed

lemma dl_system:
  assumes "inj pid"
  shows "terminating_system (\<lambda>c. c = dl_start) (dl_step pid) (dl_inv pid) dl_msr"
proof
  show "dl_inv pid c" if "c = dl_start" for c
    using that by (simp add: dl_inv_def dl_start_def holdings_def compatible_def mail_def all_procs [of _ Parent]
        told_def heard_def control_def pair_ok_def)
qed (use dl_step_inv [OF assms] dl_step_msr in blast)+

lemma dl_progress:
  assumes inj: "inj pid" and inv: "dl_inv pid c" and alive: "\<forall>e. dl_pc c u \<noteq> Exited e"
  shows "\<exists>c'. dl_step pid c c'"
proof -
  have h: "holdings pid c" and m: "mail c" and k: "control c" using inv by (auto simp: dl_inv_def)
  have ready: "\<exists>c'. dl_step pid c c'" if "dl_pc c v \<in> {Lock1st, Tell, Finish}" for v
    using that
  proof (elim insertE)
    assume "dl_pc c v = Lock1st"
    with attempt_free [OF h inj first_byte_free [OF k this]] show ?thesis by (blast intro: dl_step.dl_lock)
  next
    assume "dl_pc c v = Tell"
    then show ?thesis by (cases v) (fastforce simp: tell_child_def tell_parent_def intro: dl_step.dl_tell)+
  qed (auto intro: dl_step.dl_return)
  have wait: "\<exists>c'. dl_step pid c c'" if "dl_pc c v = Wait" for v
  proof (cases "told (dl_pc c (other v))")
    case True
    with at_wait [OF m that] that show ?thesis by (auto intro: dl_step.dl_wait)
  next
    case False
    then show ?thesis using ready [of "other v"] by (auto simp: told_def)
  qed
  have attempt: "\<exists>c'. dl_step pid c c'" if "dl_pc c v = Lock2nd" "\<not> dl_blocked c v" for v
  proof (cases "dl_attempt pid c v")
    case (Inl e)
    then have "wanted v (dl_pc c v) \<in> owned (other v) (dl_pc c (other v))" using attempt_free [OF h inj, of v] by auto
    then have "e = Exits (-1) \<or> e = Blocks" using attempt_taken [OF h inj, of v] Inl by auto
    with Inl that show ?thesis by (blast intro: dl_step.dl_refused dl_step.dl_block)
  next
    case (Inr r)
    with that show ?thesis by (cases r) (blast intro: dl_step.dl_lock)
  qed
  have "\<exists>c'. dl_step pid c c'" if two: "dl_pc c u = Lock2nd" "dl_blocked c u"
  proof (cases "dl_pc c (other u)")
    case Lock2nd
    then show ?thesis using attempt [of "other u"] two k by (auto simp: control_def)
  next
    case (Exited e)
    then have "e = -1" using control_pairs(2) [OF k, of u] two by (auto simp: pair_ok_def)
    with Exited have "wanted u (dl_pc c u) \<notin> owned (other u) (dl_pc c (other u))"
      using second_byte_free [OF k two(1)] by simp
    with attempt_free [OF h inj this] two show ?thesis by (blast intro: dl_step.dl_lock)
  qed (use ready [of "other u"] wait [of "other u"] in auto)
  then show ?thesis using alive ready [of u] wait [of u] attempt [of u] by (cases "dl_pc c u") auto
qed

section \<open>Properties of the two processes\<close>



section \<open>Parent and child that print one after the other\<close>

text \<open>
  \<open>race_cond.c\<close>: the child prints its line character by character and tells the parent; the parent
  waits for that before it prints its own. \<open>rc_child\<close> is what the child has yet to print.
\<close>

definition child_line :: string where
  "child_line = ''output from child'' @ [CHR 0x0A]"

definition parent_line :: string where
  "parent_line = ''output from parent'' @ [CHR 0x0A]"

datatype rc_pc = RWait | RPut string | RExit int

record rc_sys =
  rc_pipe :: string
  rc_child :: string
  rc_told :: bool
  rc_parent :: rc_pc
  rc_out :: string

inductive race_step :: "rc_sys \<Rightarrow> rc_sys \<Rightarrow> bool" where
  child_put: "rc_child c = x # xs \<Longrightarrow> race_step c (c\<lparr>rc_child := xs, rc_out := rc_out c @ [x]\<rparr>)"
| child_tell: "rc_child c = [] \<Longrightarrow> \<not> rc_told c \<Longrightarrow> race_step c (c\<lparr>rc_pipe := rc_pipe c @ ''p'', rc_told := True\<rparr>)"
| parent_wait: "rc_parent c = RWait \<Longrightarrow> rc_pipe c = x # xs \<Longrightarrow>
     race_step c (c\<lparr>rc_pipe := xs, rc_parent := if x \<noteq> CHR ''p'' then RExit (-1) else RPut parent_line\<rparr>)"
| parent_put: "rc_parent c = RPut (x # xs) \<Longrightarrow> race_step c (c\<lparr>rc_parent := RPut xs, rc_out := rc_out c @ [x]\<rparr>)"
| parent_exit: "rc_parent c = RPut [] \<Longrightarrow> race_step c (c\<lparr>rc_parent := RExit 0\<rparr>)"

definition race_start :: rc_sys where
  "race_start = \<lparr>rc_pipe = '''', rc_child = child_line, rc_told = False, rc_parent = RWait, rc_out = ''''\<rparr>"

definition race_inv :: "rc_sys \<Rightarrow> bool" where
  "race_inv c \<longleftrightarrow> (case rc_parent c of
     RWait \<Rightarrow> rc_out c @ rc_child c = child_line \<and> rc_pipe c = (if rc_told c then ''p'' else '''') \<and> (rc_told c \<longrightarrow> rc_child c = [])
   | RPut ys \<Rightarrow> rc_out c @ ys = child_line @ parent_line \<and> rc_told c \<and> rc_child c = [] \<and> rc_pipe c = ''''
   | RExit e \<Rightarrow> rc_out c = child_line @ parent_line \<and> rc_told c \<and> rc_child c = [] \<and> rc_pipe c = '''' \<and> e = 0)"

primrec rc_left :: "rc_pc \<Rightarrow> nat" where
  "rc_left RWait = length parent_line + 2"
| "rc_left (RPut ys) = length ys + 1"
| "rc_left (RExit e) = 0"

definition race_msr :: "rc_sys \<Rightarrow> nat" where
  "race_msr c = length (rc_child c) + of_bool (\<not> rc_told c) + rc_left (rc_parent c)"

lemma race_step_inv: "race_inv c \<Longrightarrow> race_step c c' \<Longrightarrow> race_inv c'"
  by (erule race_step.cases) (auto simp: race_inv_def split: rc_pc.splits if_splits)

lemma race_step_msr: "race_step c c' \<Longrightarrow> race_msr c' < race_msr c"
  by (erule race_step.cases) (auto simp: race_msr_def)

lemma race_start_inv: "race_inv race_start"
  by (simp add: race_inv_def race_start_def)

interpretation race: terminating_system "\<lambda>c. c = race_start" race_step race_inv race_msr
  by unfold_locales (auto intro: race_start_inv race_step_inv race_step_msr)

lemma race_progress: "race_inv c \<Longrightarrow> (\<And>e. rc_parent c \<noteq> RExit e) \<Longrightarrow> \<exists>c'. race_step c c'"
proof (cases "rc_parent c")
  case RWait
  assume "race_inv c"
  with RWait show ?thesis
    by (cases "rc_child c"; cases "rc_told c")
      (auto simp: race_inv_def intro: race_step.child_put race_step.child_tell race_step.parent_wait)
next
  case (RPut ys)
  then show ?thesis by (cases ys) (auto intro: race_step.parent_put race_step.parent_exit)
qed auto

text \<open>
  C34: however parent and child of \<open>race_cond.c\<close> are scheduled, what has been printed at any moment
  is the beginning of the child's line followed by the parent's, and when neither can go on both
  lines are complete and the parent has exited with 0.
\<close>

theorem race_output:
  assumes "race_step\<^sup>*\<^sup>* race_start c"
  shows "(\<exists>rest. rc_out c @ rest = child_line @ parent_line)
    \<and> ((\<exists>c'. race_step c c') \<or> rc_parent c = RExit 0 \<and> rc_out c = child_line @ parent_line)"
proof -
  have inv: "race_inv c" using race.inv_reachable assms by blast
  have "\<exists>rest. rc_out c @ rest = child_line @ parent_line"
  proof (cases "rc_parent c")
    case RWait
    with inv have "rc_out c @ (rc_child c @ parent_line) = child_line @ parent_line"
      by (simp add: race_inv_def flip: append_assoc)
    then show ?thesis by blast
  qed (use inv in \<open>auto simp: race_inv_def\<close>)
  moreover have "(\<exists>c'. race_step c c') \<or> rc_parent c = RExit 0 \<and> rc_out c = child_line @ parent_line"
    using race_progress [OF inv] inv by (cases "rc_parent c") (auto simp: race_inv_def)
  ultimately show ?thesis by blast
qed

theorem race_output_witness: "\<exists>c. race_step\<^sup>*\<^sup>* race_start c \<and> rc_out c = ''output from child'' @ [CHR 0x0A] @ ''output from parent'' @ [CHR 0x0A]"
proof -
  obtain c where "race_step\<^sup>*\<^sup>* race_start c" "\<nexists>c'. race_step c c'"
    using race.reaches_stuck [OF race_start_inv] by blast
  with race_output [of c] show ?thesis by (auto simp: child_line_def parent_line_def)
qed

end
