(* ===== verification/Daemon.thy ===== *)
theory Daemon
  imports Record_Lock C_Text
begin

text \<open>
  The daemon of \<open>daemon/daemonize.c\<close>: how it leaves its terminal and its open files behind, the lock
  file that keeps a second instance from running, and the thread that waits for signals. What the
  system calls answer is a parameter. The lemmas give the state every successful \<open>daemonize\<close> ends in
  and show that at most one daemon runs.
\<close>

section \<open>Becoming a daemon\<close>

datatype fork_res = ForkFails | IsParent | IsChild int
datatype rlim = RlimInfinity | RlimMax nat
datatype disposition = SigDfl | SigIgn

text \<open>
  The attributes of a process that \<open>daemonize\<close> changes; a file descriptor maps to the path it was
  opened with.
\<close>

record daemon_proc =
  dp_pid :: int
  dp_sid :: int
  dp_ctty :: bool
  dp_umask :: nat
  dp_cwd :: string
  dp_fds :: "nat \<rightharpoonup> string"
  dp_hup :: disposition
  dp_blocked :: bool
  dp_thread :: bool

text \<open>The answers of the system calls.\<close>

record daemon_os =
  os_rlimit :: "rlim option"
  os_nofile :: nat
  os_fork1 :: fork_res
  os_fork2 :: fork_res
  os_sigaction :: bool
  os_chdir :: bool
  os_null :: bool

definition setsid :: "daemon_proc \<Rightarrow> daemon_proc" where
  "setsid p = p\<lparr>dp_sid := dp_pid p, dp_ctty := False\<rparr>"

text \<open>A new descriptor is the lowest one that is free, below the limit of the process.\<close>

definition new_fd :: "daemon_os \<Rightarrow> daemon_proc \<Rightarrow> nat option" where
  "new_fd os p = find (\<lambda>i. dp_fds p i = None) [0..<os_nofile os]"

definition open_null :: "daemon_os \<Rightarrow> daemon_proc \<Rightarrow> int \<times> daemon_proc" where
  "open_null os p = (case (if os_null os then new_fd os p else None) of None \<Rightarrow> (-1, p)
     | Some i \<Rightarrow> (int i, p\<lparr>dp_fds := (dp_fds p)(i \<mapsto> ''/dev/null'')\<rparr>))"

definition dup0 :: "daemon_os \<Rightarrow> daemon_proc \<Rightarrow> int \<times> daemon_proc" where
  "dup0 os p = (case dp_fds p 0 of None \<Rightarrow> (-1, p)
     | Some path \<Rightarrow> (case new_fd os p of None \<Rightarrow> (-1, p) | Some i \<Rightarrow> (int i, p\<lparr>dp_fds := (dp_fds p)(i \<mapsto> path)\<rparr>)))"

definition rlim_fds :: "rlim \<Rightarrow> nat" where
  "rlim_fds rl = (case rl of RlimInfinity \<Rightarrow> 1024 | RlimMax n \<Rightarrow> n)"

definition close_fds :: "nat \<Rightarrow> daemon_proc \<Rightarrow> daemon_proc" where
  "close_fds n p = fold (\<lambda>i p. p\<lparr>dp_fds := (dp_fds p)(i := None)\<rparr>) [0..<n] p"

definition do_fork :: "fork_res \<Rightarrow> daemon_proc stmt" where
  "do_fork r p = (case r of ForkFails \<Rightarrow> Inl (Exits (-1)) | IsParent \<Rightarrow> Inl (Exits 0)
     | IsChild pid \<Rightarrow> Inr (p\<lparr>dp_pid := pid\<rparr>))"

definition attach_null :: "daemon_os \<Rightarrow> daemon_proc stmt" where
  "attach_null os p =
     (let (fd0, p0) = open_null os p; (fd1, p1) = dup0 os p0; (fd2, p2) = dup0 os p1
      in if fd0 \<noteq> 0 \<or> fd1 \<noteq> 1 \<or> fd2 \<noteq> 2 then Inl (Exits 1) else Inr p2)"

definition daemonize :: "daemon_os \<Rightarrow> daemon_proc stmt" where
  "daemonize os p = (case os_rlimit os of None \<Rightarrow> Inl (Exits (-1))
     | Some rl \<Rightarrow> run_stmts
         [do_fork (os_fork1 os),
          \<lambda>p. Inr (setsid p),
          \<lambda>p. if os_sigaction os then Inr (p\<lparr>dp_hup := SigIgn\<rparr>) else Inl (Exits (-1)),
          do_fork (os_fork2 os),
          \<lambda>p. if os_chdir os then Inr (p\<lparr>dp_cwd := ''/''\<rparr>) else Inl (Exits (-1)),
          \<lambda>p. Inr (close_fds (rlim_fds rl) p),
          attach_null os] (p\<lparr>dp_umask := 0\<rparr>))"

section \<open>The lock file\<close>

text \<open>
  The lock file, with its record locks, and what the calls on it answer: whether \<open>open\<close> works, whether
  \<open>ftruncate\<close> does, and how many bytes \<open>write\<close> wrote, \<open>None\<close> being its failure. The program looks
  at the answer of \<open>open\<close> only. The size of \<open>buf\<close> is 16.
\<close>

record lock_os =
  lo_open :: bool
  lo_trunc :: bool
  lo_write :: "nat option"

record lock_file =
  lf_text :: string
  lf_locks :: "region list"

definition lockfile :: "int \<Rightarrow> lock_file \<Rightarrow> ((lock_errno option) \<times> region list) c" where
  "lockfile pid lf = fcntl_setlk False pid \<lparr>f_pos = 0, f_size = int (length (lf_text lf))\<rparr> F_SETLK
     \<lparr>l_type = F_WRLCK, l_whence = SEEK_SET, l_start = 0, l_len = 0, l_pid = 0\<rparr> (lf_locks lf)"

definition sprintf_pid :: "int \<Rightarrow> string c" where
  "sprintf_pid pid = (if length (dec pid) < 16 then Inr (dec pid) else Inl OutOfBounds)"

text \<open>
  \<open>ftruncate\<close> to length 0 and a \<open>write\<close> at the start of the file, whose offset is still 0. A write
  overwrites as many bytes as it reports.
\<close>

definition ftruncate0 :: "bool \<Rightarrow> string \<Rightarrow> string" where
  "ftruncate0 ok t = (if ok then [] else t)"

definition write_start :: "nat option \<Rightarrow> string \<Rightarrow> string \<Rightarrow> string" where
  "write_start r bytes t = (case r of None \<Rightarrow> t | Some n \<Rightarrow> take n bytes @ drop (min n (length bytes)) t)"

definition already_running :: "lock_os \<Rightarrow> int \<Rightarrow> lock_file \<Rightarrow> (int \<times> lock_file) c" where
  "already_running lo pid lf = (if \<not> lo_open lo then Inl (Exits 1)
     else bindE (lockfile pid lf) (\<lambda>(e, tbl).
       case e of
         Some EAGAIN \<Rightarrow> Inr (1, lf)
       | Some _ \<Rightarrow> Inl (Exits 1)
       | None \<Rightarrow> bindE (sprintf_pid pid) (\<lambda>buf. Inr (0, lf\<lparr>lf_locks := tbl,
           lf_text := write_start (lo_write lo) (buf @ [CHR 0x00]) (ftruncate0 (lo_trunc lo) (lf_text lf))\<rparr>))))"

section \<open>The signal thread and main\<close>

definition SIGHUP :: nat where "SIGHUP = 1"
definition SIGTERM :: nat where "SIGTERM = 15"

datatype daemon_log = SigwaitFailed | Rereading | GotTerm | Unexpected nat

text \<open>
  What the thread logs for the answers of successive \<open>sigwait\<close> calls, an error number and a signal
  each, and the status it exits with, if it does before the answers run out.
\<close>

fun sig_loop :: "(int \<times> nat) list \<Rightarrow> daemon_log list \<times> int option" where
  "sig_loop [] = ([], None)"
| "sig_loop ((err, signo) # rest) =
     (if err \<noteq> 0 then ([SigwaitFailed], Some 1)
      else if signo = SIGHUP then map_prod (Cons Rereading) id (sig_loop rest)
      else if signo = SIGTERM then ([GotTerm], Some 0)
      else map_prod (Cons (Unexpected signo)) id (sig_loop rest))"

text \<open>\<open>strrchr\<close>: the name behind the last slash.\<close>

definition cmd_name :: "string \<Rightarrow> string" where
  "cmd_name argv0 = rev (takeWhile (\<lambda>x. x \<noteq> CHR ''/'') (rev argv0))"

text \<open>
  \<open>main\<close> up to its endless loop; \<open>sa\<close>, \<open>sm\<close> and \<open>thr\<close> tell whether \<open>sigaction\<close>,
  \<open>pthread_sigmask\<close> and \<open>pthread_create\<close> work. A thread that cannot be created is only logged.
\<close>

definition daemon_main ::
  "daemon_os \<Rightarrow> lock_os \<Rightarrow> bool \<Rightarrow> bool \<Rightarrow> bool \<Rightarrow> daemon_proc \<Rightarrow> lock_file \<Rightarrow> (daemon_proc \<times> lock_file) c" where
  "daemon_main os lo sa sm thr p lf =
     bindE (daemonize os p) (\<lambda>p1. bindE (already_running lo (dp_pid p1) lf) (\<lambda>(r, lf1).
       if r \<noteq> 0 then Inl (Exits 1)
       else if \<not> sa then Inl (Exits 1)
       else if \<not> sm then Inl (Exits 1)
       else Inr (p1\<lparr>dp_hup := SigDfl, dp_blocked := True, dp_thread := thr\<rparr>, lf1)))"

section \<open>Open files\<close>

lemma close_fds_app: "dp_fds (close_fds n p) i = (if i < n then None else dp_fds p i)"
  unfolding close_fds_def by (induction n) simp_all

lemma close_fds_rest:
  "dp_pid (close_fds n p) = dp_pid p" "dp_sid (close_fds n p) = dp_sid p" "dp_ctty (close_fds n p) = dp_ctty p"
  "dp_umask (close_fds n p) = dp_umask p" "dp_cwd (close_fds n p) = dp_cwd p" "dp_hup (close_fds n p) = dp_hup p"
  unfolding close_fds_def by (induction n) simp_all

lemma new_fd_Some:
  "new_fd os p = Some i \<longleftrightarrow> i < os_nofile os \<and> dp_fds p i = None \<and> (\<forall>j<i. dp_fds p j \<noteq> None)"
  unfolding new_fd_def find_Some_iff by (auto simp: nth_upt)

text \<open>The three descriptors come out right exactly when they were closed and can be opened.\<close>

lemma attach_null_ok:
  assumes "\<forall>i<3. dp_fds p i = None" and "3 \<le> os_nofile os" and "os_null os"
  shows "attach_null os p = Inr (p\<lparr>dp_fds := (dp_fds p)(0 \<mapsto> ''/dev/null'', 1 \<mapsto> ''/dev/null'', 2 \<mapsto> ''/dev/null'')\<rparr>)"
proof -
  have "new_fd os p = Some 0" using assms by (simp add: new_fd_Some)
  moreover have "new_fd os (p\<lparr>dp_fds := (dp_fds p)(0 \<mapsto> ''/dev/null'')\<rparr>) = Some 1" using assms by (simp add: new_fd_Some)
  moreover have "new_fd os (p\<lparr>dp_fds := (dp_fds p)(0 \<mapsto> ''/dev/null'', 1 \<mapsto> ''/dev/null'')\<rparr>) = Some 2"
    using assms by (auto simp: new_fd_Some less_Suc_eq numeral_2_eq_2)
  ultimately show ?thesis using assms(3) by (simp add: attach_null_def open_null_def dup0_def)
qed

lemma open_null_Inr:
  assumes "open_null os p = (0, p0)"
  shows "os_null os \<and> dp_fds p 0 = None \<and> p0 = p\<lparr>dp_fds := (dp_fds p)(0 \<mapsto> ''/dev/null'')\<rparr>"
  using assms by (auto simp: open_null_def new_fd_Some split: if_splits option.splits)

lemma dup0_Inr:
  assumes "dup0 os p = (int k, p0)" and "dp_fds p 0 = Some path"
  shows "dp_fds p k = None \<and> k < os_nofile os \<and> p0 = p\<lparr>dp_fds := (dp_fds p)(k \<mapsto> path)\<rparr>"
  using assms by (auto simp: dup0_def new_fd_Some split: option.splits)

lemma attach_null_Inr:
  assumes "attach_null os p = Inr p'"
  shows "os_null os \<and> 3 \<le> os_nofile os \<and> (\<forall>i<3. dp_fds p i = None)
    \<and> p' = p\<lparr>dp_fds := (dp_fds p)(0 \<mapsto> ''/dev/null'', 1 \<mapsto> ''/dev/null'', 2 \<mapsto> ''/dev/null'')\<rparr>"
proof -
  obtain p0 p1 where steps: "open_null os p = (0, p0)" "dup0 os p0 = (int 1, p1)" "dup0 os p1 = (int 2, p')"
    using assms by (auto simp: attach_null_def Let_def split: prod.splits if_splits)
  have zero: "os_null os" "dp_fds p 0 = None" "p0 = p\<lparr>dp_fds := (dp_fds p)(0 \<mapsto> ''/dev/null'')\<rparr>"
    using open_null_Inr [OF steps(1)] by auto
  then have "dp_fds p0 0 = Some ''/dev/null''" by simp
  note one = dup0_Inr [OF steps(2) this]
  then have "dp_fds p1 0 = Some ''/dev/null''" using zero by simp
  note two = dup0_Inr [OF steps(3) this]
  show ?thesis using zero one two by (auto simp: less_Suc_eq numeral_3_eq_3 numeral_2_eq_2)
qed

section \<open>The lock file\<close>

lemma whole_file: "flock_range f \<lparr>l_type = ty, l_whence = SEEK_SET, l_start = 0, l_len = 0, l_pid = 0\<rparr> = Some (0, None)"
  by (simp add: flock_range_def)

lemma lockfile_free:
  assumes "\<forall>r \<in> set (lf_locks lf). lr_pid r = p" and "compatible (lf_locks lf)"
  shows "\<exists>tbl. lockfile p lf = Inr (None, tbl) \<and> compatible tbl
    \<and> (\<forall>q w x. holds_byte tbl q w x \<longleftrightarrow> (if q = p \<and> 0 \<le> x then w else holds_byte (lf_locks lf) q w x))"
proof -
  let ?f = "\<lparr>f_pos = 0, f_size = int (length (lf_text lf))\<rparr>"
    and ?fl = "\<lparr>l_type = F_WRLCK, l_whence = SEEK_SET, l_start = 0, l_len = 0, l_pid = 0\<rparr>"
  have "blocker p True (0, None) (lf_locks lf) = None" using assms(1) by (simp add: blocker_None)
  then obtain tbl where t: "fcntl_setlk False p ?f F_SETLK ?fl (lf_locks lf) = Inr (None, tbl)"
    by (simp add: fcntl_setlk_def whole_file)
  have "compatible tbl" using setlk_compatible [OF assms(2) t] .
  with t setlk_bytes [OF whole_file t] show ?thesis by (auto simp: lockfile_def in_range_def)
qed

lemma lockfile_taken:
  assumes "compatible (lf_locks lf)" and "holds_byte (lf_locks lf) q w x" and "q \<noteq> p" and "0 \<le> x"
  shows "lockfile p lf = Inr (Some EAGAIN, lf_locks lf)"
proof -
  obtain r where r: "r \<in> set (lf_locks lf)" "lr_pid r = q" "in_range (lr_range r) x"
    using assms(2) by (auto simp: holds_byte_def)
  then have "overlap (lr_range r) (0, None)"
    using assms(4) by (auto simp: overlap_def in_range_def split: option.splits)
  then obtain b where "blocker p True (0, None) (lf_locks lf) = Some b"
    using r assms(3) blocker_None [of p True "(0, None)" "lf_locks lf"] by (cases "blocker p True (0, None) (lf_locks lf)") auto
  then show ?thesis by (simp add: lockfile_def fcntl_setlk_def whole_file)
qed

text \<open>
  Daemons that start and end in any order; \<open>dm_running\<close> are those that went past \<open>already_running\<close>,
  and \<open>dm_answers\<close> what the calls answered to the last of them.
\<close>

record daemons =
  dm_file :: lock_file
  dm_running :: "int set"
  dm_answers :: lock_os

inductive daemons_step :: "daemons \<Rightarrow> daemons \<Rightarrow> bool" where
  dm_start: "p \<notin> dm_running d \<Longrightarrow> already_running lo p (dm_file d) = Inr (0, lf) \<Longrightarrow>
     daemons_step d (d\<lparr>dm_file := lf, dm_running := insert p (dm_running d), dm_answers := lo\<rparr>)"
| dm_refused: "p \<notin> dm_running d \<Longrightarrow> already_running lo p (dm_file d) = Inr (1, lf) \<Longrightarrow>
     daemons_step d (d\<lparr>dm_file := lf\<rparr>)"
| dm_end: "p \<in> dm_running d \<Longrightarrow>
     daemons_step d (d\<lparr>dm_file := (dm_file d)\<lparr>lf_locks := drop_locks p (lf_locks (dm_file d))\<rparr>, dm_running := dm_running d - {p}\<rparr>)"

definition daemons_inv :: "daemons \<Rightarrow> bool" where
  "daemons_inv d \<longleftrightarrow> compatible (lf_locks (dm_file d))
     \<and> (\<forall>q w x. holds_byte (lf_locks (dm_file d)) q w x \<longleftrightarrow> w \<and> q \<in> dm_running d \<and> 0 \<le> x)
     \<and> (\<forall>p \<in> dm_running d. \<forall>q \<in> dm_running d. p = q)
     \<and> (\<forall>p \<in> dm_running d. \<exists>t. lf_text (dm_file d) =
          write_start (lo_write (dm_answers d)) (dec p @ [CHR 0x00]) (ftruncate0 (lo_trunc (dm_answers d)) t))"

lemma inv_locked:
  assumes "daemons_inv d" and "p \<in> dm_running d" and "q \<noteq> p" and "lo_open lo"
  shows "already_running lo q (dm_file d) = Inr (1, dm_file d)"
proof -
  have "holds_byte (lf_locks (dm_file d)) p True 0" using assms by (simp add: daemons_inv_def)
  then have "lockfile q (dm_file d) = Inr (Some EAGAIN, lf_locks (dm_file d))"
    using lockfile_taken assms by (metis daemons_inv_def order_refl)
  then show ?thesis using assms(4) by (simp add: already_running_def)
qed

lemma already_running_open: "already_running lo p lf = Inr x \<Longrightarrow> lo_open lo"
  by (cases "lo_open lo") (simp_all add: already_running_def)

lemma already_running_free:
  assumes "daemons_inv d" and "dm_running d = {}" and "already_running lo p (dm_file d) = Inr (r, lf)"
  shows "r = 0 \<and> daemons_inv (d\<lparr>dm_file := lf, dm_running := insert p (dm_running d), dm_answers := lo\<rparr>)"
proof -
  have none: "\<not> holds_byte (lf_locks (dm_file d)) q w x" for q w x using assms by (simp add: daemons_inv_def)
  have "x \<notin> set (lf_locks (dm_file d))" for x
  proof
    assume x: "x \<in> set (lf_locks (dm_file d))"
    then have "in_range (lr_range x) (fst (lr_range x))"
      using assms(1) by (auto simp: daemons_inv_def compatible_def proper_def in_range_def split: option.splits)
    with x none show False by (auto simp: holds_byte_def)
  qed
  then obtain tbl where t: "lockfile p (dm_file d) = Inr (None, tbl)" "compatible tbl"
      "\<forall>q w x. holds_byte tbl q w x \<longleftrightarrow> (if q = p \<and> 0 \<le> x then w else holds_byte (lf_locks (dm_file d)) q w x)"
    using lockfile_free [of "dm_file d" p] assms(1) by (auto simp: daemons_inv_def)
  then have "r = 0" "lf = (dm_file d)\<lparr>lf_locks := tbl,
      lf_text := write_start (lo_write lo) (dec p @ [CHR 0x00]) (ftruncate0 (lo_trunc lo) (lf_text (dm_file d)))\<rparr>"
    using assms(3) already_running_open [OF assms(3)] by (auto simp: already_running_def c_simps sprintf_pid_def split: if_splits)
  with t assms(2) none show ?thesis by (auto simp: daemons_inv_def)
qed

lemma daemons_step_inv:
  assumes inv: "daemons_inv d" and step: "daemons_step d d'"
  shows "daemons_inv d'"
  using step
proof cases
  case (dm_start p lo lf)
  then have "dm_running d = {}" using inv_locked [OF inv, of _ p lo] already_running_open by force
  then show ?thesis using already_running_free [OF inv] dm_start by blast
next
  case (dm_refused p lo lf)
  then have "dm_running d \<noteq> {}" using already_running_free [OF inv] by fastforce
  then obtain q where "q \<in> dm_running d" "p \<noteq> q" using dm_refused by blast
  then show ?thesis using inv_locked [OF inv, of q p lo] already_running_open [of lo p] dm_refused inv by auto
next
  case (dm_end p)
  then show ?thesis using inv by (auto simp: daemons_inv_def drop_compatible holds_drop)
qed

definition daemons_start :: "string \<Rightarrow> lock_os \<Rightarrow> daemons" where
  "daemons_start old lo = \<lparr>dm_file = \<lparr>lf_text = old, lf_locks = []\<rparr>, dm_running = {}, dm_answers = lo\<rparr>"

text \<open>
  A write that wrote the process id and its terminator leaves the id as the text of the file, whether
  or not \<open>ftruncate\<close> worked: the terminator cuts off what is left of an earlier text.
\<close>

lemma pid_text:
  "takeWhile (\<lambda>x. x \<noteq> CHR 0x00) (write_start (Some (Suc (length (dec p)))) (dec p @ [CHR 0x00]) t) = dec p"
proof -
  have "takeWhile (\<lambda>x. x \<noteq> CHR 0x00) (dec p @ CHR 0x00 # ys) = dec p" for ys
    using dec_no_nul [of p] by (subst takeWhile_append2) auto
  then show ?thesis by (simp add: write_start_def)
qed

lemma daemons_start_inv: "daemons_inv (daemons_start old lo)"
  by (simp add: daemons_inv_def daemons_start_def compatible_def)

interpretation daemons: inductive_invariant "\<lambda>d. \<exists>old lo. d = daemons_start old lo" daemons_step daemons_inv
  by unfold_locales (auto intro: daemons_start_inv daemons_step_inv)

lemma close_fds_eq: "close_fds n p = p\<lparr>dp_fds := (\<lambda>i. if i < n then None else dp_fds p i)\<rparr>"
  unfolding close_fds_def by (induction n) (auto simp: fun_eq_iff less_Suc_eq)

lemma null_fds:
  "f(0 \<mapsto> x, 1 \<mapsto> x, 2 \<mapsto> x) = (\<lambda>i. if i < 3 then Some x else f i)" for f :: "nat \<rightharpoonup> string"
  by (auto simp: fun_eq_iff less_Suc_eq numeral_3_eq_3 numeral_2_eq_2)

lemma attach_null_iff:
  "attach_null os p = Inr p' \<longleftrightarrow> os_null os \<and> 3 \<le> os_nofile os \<and> (\<forall>i<3. dp_fds p i = None)
    \<and> p' = p\<lparr>dp_fds := (\<lambda>i. if i < 3 then Some ''/dev/null'' else dp_fds p i)\<rparr>"
  using attach_null_ok [of p os] attach_null_Inr [of os p p'] unfolding null_fds by auto

lemma attach_null_close:
  "attach_null os (close_fds n p) = Inr p' \<longleftrightarrow> os_null os \<and> 3 \<le> os_nofile os \<and> (\<forall>i<3. i < n \<or> dp_fds p i = None)
    \<and> p' = p\<lparr>dp_fds := (\<lambda>i. if i < 3 then Some ''/dev/null'' else if i < n then None else dp_fds p i)\<rparr>"
proof -
  have "(\<forall>i<3. (if i < n then None else dp_fds p i) = None) \<longleftrightarrow> (\<forall>i<3. i < n \<or> dp_fds p i = None)" by auto
  then show ?thesis unfolding attach_null_iff close_fds_eq by (simp cong: if_cong)
qed

section \<open>Properties of the daemon\<close>

text \<open>
  C32: \<open>daemonize\<close> returns, in the second child, exactly when the system calls work and descriptors
  0 to 2 are closed by then. The process has then no controlling terminal and is not the leader of
  its session, ignores \<open>SIGHUP\<close>, works in \<open>/\<close> with no file mode mask, and has \<open>/dev/null\<close> on
  descriptors 0 to 2; every other descriptor below the limit is closed and those above it stay.
\<close>

theorem daemonize_correct:
  "daemonize os p = Inr p' \<longleftrightarrow>
     (\<exists>rl a b. os_rlimit os = Some rl \<and> os_fork1 os = IsChild a \<and> os_fork2 os = IsChild b
        \<and> os_sigaction os \<and> os_chdir os \<and> os_null os \<and> 3 \<le> os_nofile os
        \<and> (\<forall>i<3. i < rlim_fds rl \<or> dp_fds p i = None)
        \<and> p' = p\<lparr>dp_pid := b, dp_sid := a, dp_ctty := False, dp_umask := 0, dp_cwd := ''/'', dp_hup := SigIgn,
            dp_fds := (\<lambda>i. if i < 3 then Some ''/dev/null'' else if i < rlim_fds rl then None else dp_fds p i)\<rparr>)"
proof (cases "os_rlimit os")
  case None
  then show ?thesis by (simp add: daemonize_def)
next
  case (Some rl)
  show ?thesis
  proof (cases "\<exists>a b. os_fork1 os = IsChild a \<and> os_fork2 os = IsChild b \<and> os_sigaction os \<and> os_chdir os")
    case True
    then obtain a b where ok: "os_fork1 os = IsChild a" "os_fork2 os = IsChild b" "os_sigaction os" "os_chdir os" by blast
    let ?q = "p\<lparr>dp_pid := b, dp_sid := a, dp_ctty := False, dp_umask := 0, dp_cwd := ''/'', dp_hup := SigIgn\<rparr>"
    have "daemonize os p = attach_null os (close_fds (rlim_fds rl) ?q)"
      using Some ok by (cases p) (simp add: daemonize_def do_fork_def setsid_def)
    then show ?thesis using Some ok by (simp add: attach_null_close cong: if_cong)
  next
    case False
    then have "daemonize os p \<noteq> Inr p'"
      by (cases "os_fork1 os"; cases "os_fork2 os") (simp_all add: daemonize_def Some do_fork_def)
    with False show ?thesis by blast
  qed
qed

theorem daemonize_correct_witness:
  "\<exists>p'. daemonize \<lparr>os_rlimit = Some (RlimMax 64), os_nofile = 64, os_fork1 = IsChild 41, os_fork2 = IsChild 42,
      os_sigaction = True, os_chdir = True, os_null = True\<rparr>
    \<lparr>dp_pid = 40, dp_sid = 9, dp_ctty = True, dp_umask = 18, dp_cwd = ''/root'',
      dp_fds = [0 \<mapsto> ''tty'', 1 \<mapsto> ''tty'', 2 \<mapsto> ''tty'', 5 \<mapsto> ''data''], dp_hup = SigDfl, dp_blocked = False, dp_thread = False\<rparr> = Inr p'
    \<and> dp_fds p' 5 = None \<and> dp_fds p' 1 = Some ''/dev/null'' \<and> dp_pid p' = 42 \<and> dp_sid p' = 41"
  unfolding daemonize_correct by (auto simp: rlim_fds_def)


definition full_disk :: lock_os where
  "full_disk = \<lparr>lo_open = True, lo_trunc = True, lo_write = None\<rparr>"


text \<open>
  The signal thread logs one line per signal and goes on until the first \<open>SIGTERM\<close>, which ends
  the daemon with status 0, or the first failing \<open>sigwait\<close>, which ends it with status 1; no other
  signal ends it.
\<close>

lemma sig_loop_correct:
  "sig_loop ws =
     (let quiet = (\<lambda>w. fst w = 0 \<and> snd w \<noteq> SIGTERM) in
      (map (\<lambda>w. if snd w = SIGHUP then Rereading else Unexpected (snd w)) (takeWhile quiet ws)
         @ (case dropWhile quiet ws of [] \<Rightarrow> [] | w # _ \<Rightarrow> [if fst w \<noteq> 0 then SigwaitFailed else GotTerm]),
       case dropWhile quiet ws of [] \<Rightarrow> None | w # _ \<Rightarrow> Some (if fst w \<noteq> 0 then 1 else 0)))"
proof (induction ws rule: sig_loop.induct)
  case (2 err signo rest)
  then show ?case by (auto simp: Let_def SIGHUP_def SIGTERM_def)
qed simp

lemma already_running_granted:
  assumes "already_running lo p lf = Inr (0, lf')"
  shows "\<exists>tbl. lockfile p lf = Inr (None, tbl) \<and> lf' = lf\<lparr>lf_locks := tbl,
    lf_text := write_start (lo_write lo) (dec p @ [CHR 0x00]) (ftruncate0 (lo_trunc lo) (lf_text lf))\<rparr>"
proof -
  note lo = already_running_open [OF assms]
  obtain e tbl where l: "lockfile p lf = Inr (e, tbl)" using assms lo by (cases "lockfile p lf") (auto simp: already_running_def)
  have "e = None"
  proof (cases e)
    case (Some x)
    with assms lo l show ?thesis by (cases x) (simp_all add: already_running_def)
  qed simp
  with assms lo l show ?thesis by (auto simp: already_running_def sprintf_pid_def split: if_splits)
qed


definition demo_os :: daemon_os where
  "demo_os = \<lparr>os_rlimit = Some (RlimMax 64), os_nofile = 64, os_fork1 = IsChild 41, os_fork2 = IsChild 42,
     os_sigaction = True, os_chdir = True, os_null = True\<rparr>"

definition demo_proc :: daemon_proc where
  "demo_proc = \<lparr>dp_pid = 40, dp_sid = 9, dp_ctty = True, dp_umask = 18, dp_cwd = ''/root'',
     dp_fds = [0 \<mapsto> ''tty'', 1 \<mapsto> ''tty'', 2 \<mapsto> ''tty''], dp_hup = SigDfl, dp_blocked = False, dp_thread = False\<rparr>"

definition demo_lo :: lock_os where
  "demo_lo = \<lparr>lo_open = True, lo_trunc = False, lo_write = Some (Suc (length (dec 42)))\<rparr>"


end
