(* ===== verification/C_Buffer.thy ===== *)
theory C_Buffer
  imports Unix_Prelude
begin

text \<open>
  Character arrays of fixed size and the library functions that work on them. A cell is \<open>None\<close>
  before anything was stored in it, so that reading it is a fault, and a string that runs to the
  end of its array without a terminator is one too.
\<close>

type_synonym cbuf = "char option list"

abbreviation nul :: char where
  "nul \<equiv> CHR 0x00"

text \<open>The string at the start of an array, as \<open>strlen\<close> and \<open>%s\<close> read it.\<close>

fun c_str :: "cbuf \<Rightarrow> string c" where
  "c_str [] = Inl OutOfBounds"
| "c_str (None # r) = Inl Uninitialised"
| "c_str (Some x # r) = (if x = nul then Inr [] else bindE (c_str r) (\<lambda>s. Inr (x # s)))"

text \<open>Bytes stored from the start of an array on, as \<open>read\<close> and \<open>memcpy\<close> do it.\<close>

definition read_into :: "string \<Rightarrow> cbuf \<Rightarrow> cbuf c" where
  "read_into xs b = (if length xs \<le> length b then Inr (map Some xs @ drop (length xs) b) else Inl OutOfBounds)"

definition memset0 :: "nat \<Rightarrow> cbuf \<Rightarrow> cbuf c" where
  "memset0 n b = (if n \<le> length b then Inr (replicate n (Some nul) @ drop n b) else Inl OutOfBounds)"

definition put_char :: "nat \<Rightarrow> char \<Rightarrow> cbuf \<Rightarrow> cbuf c" where
  "put_char i x b = aset b i (Some x)"

lemma c_str_append:
  "nul \<notin> set xs \<Longrightarrow> c_str (map Some xs @ b) = bindE (c_str b) (\<lambda>s. Inr (xs @ s))"
proof (induction xs)
  case Nil
  then show ?case by (cases "c_str b") simp_all
next
  case (Cons x xs)
  then show ?case by (cases "c_str b") auto
qed

lemma c_str_terminated [simp]: "nul \<notin> set xs \<Longrightarrow> c_str (map Some xs @ Some nul # b) = Inr xs"
  by (simp add: c_str_append)

lemma c_str_unterminated: "nul \<notin> set xs \<Longrightarrow> c_str (map Some xs) = Inl OutOfBounds"
  using c_str_append [of xs "[]"] by simp

lemma c_str_uninitialised: "nul \<notin> set xs \<Longrightarrow> c_str (map Some xs @ None # b) = Inl Uninitialised"
  by (simp add: c_str_append)

text \<open>The string read is the text up to the first terminator, if there is one.\<close>

lemma c_str_map_Some:
  "c_str (map Some xs) = (if nul \<in> set xs then Inr (takeWhile (\<lambda>x. x \<noteq> nul) xs) else Inl OutOfBounds)"
  by (induction xs) auto

lemma c_str_no_nul: "c_str b = Inr s \<Longrightarrow> nul \<notin> set s \<and> length s < length b"
  by (induction b arbitrary: s rule: c_str.induct) (auto simp: bindE_eq_Inr split: if_splits)

lemma length_read_into: "read_into xs b = Inr b' \<Longrightarrow> length b' = length b"
  by (auto simp: read_into_def split: if_splits)

lemma length_memset0: "memset0 n b = Inr b' \<Longrightarrow> length b' = length b"
  by (auto simp: memset0_def split: if_splits)

text \<open>Reading fewer bytes than a cleared array has room for leaves a terminated string.\<close>

lemma read_cleared:
  assumes "length xs < n" and "nul \<notin> set xs"
  shows "\<exists>b. read_into xs (replicate n (Some nul)) = Inr b \<and> c_str b = Inr xs \<and> length b = n"
proof -
  obtain k where k: "n - length xs = Suc k" using assms(1) by (metis Suc_diff_Suc)
  then have "map Some xs @ drop (length xs) (replicate n (Some nul)) = map Some xs @ Some nul # replicate k (Some nul)"
    by simp
  then show ?thesis using assms k by (simp add: read_into_def)
qed

end
