(* ===== verification/Epoll.thy ===== *)
theory Epoll
  imports C_Buffer "HOL-Library.Word"
begin

text \<open>
  The echo server \<open>epoll_demo/epoll_server.c\<close> and its client \<open>epoll_demo/epoll_cli.c\<close>. Both wait with
  \<open>epoll_wait\<close> and handle the events it reports; what \<open>accept\<close>, \<open>read\<close> and \<open>write\<close> answer comes with
  the event. The lemmas show what is echoed when requests do not overlap, that the server stays in
  bounds for short messages, and what goes wrong otherwise.
\<close>

unbundle bit_operations_syntax

section \<open>Interest lists\<close>

text \<open>The open descriptors and, for those registered, the events waited for.\<close>

record epoll =
  ep_open :: "int set"
  ep_interest :: "int \<rightharpoonup> 32 word"

definition EPOLLIN :: "32 word" where "EPOLLIN = 0x001"
definition EPOLLOUT :: "32 word" where "EPOLLOUT = 0x004"
definition MAXSIZE :: nat where "MAXSIZE = 1024"

text \<open>
  \<open>epoll_ctl\<close> fails on a closed descriptor, on adding one that is registered and on changing or
  deleting one that is not; none of the callers looks at the result.
\<close>

definition add_event :: "int \<Rightarrow> 32 word \<Rightarrow> epoll \<Rightarrow> epoll" where
  "add_event fd state ep =
     (if fd \<notin> ep_open ep \<or> ep_interest ep fd \<noteq> None then ep else ep\<lparr>ep_interest := (ep_interest ep)(fd \<mapsto> state)\<rparr>)"

definition delete_event :: "int \<Rightarrow> 32 word \<Rightarrow> epoll \<Rightarrow> epoll" where
  "delete_event fd state ep =
     (if fd \<notin> ep_open ep \<or> ep_interest ep fd = None then ep else ep\<lparr>ep_interest := (ep_interest ep)(fd := None)\<rparr>)"

definition modify_event :: "int \<Rightarrow> 32 word \<Rightarrow> epoll \<Rightarrow> epoll" where
  "modify_event fd state ep =
     (if fd \<notin> ep_open ep \<or> ep_interest ep fd = None then ep else ep\<lparr>ep_interest := (ep_interest ep)(fd \<mapsto> state)\<rparr>)"

text \<open>\<open>close\<close> takes a descriptor out of the interest list as well.\<close>

definition close_fd :: "int \<Rightarrow> epoll \<Rightarrow> epoll" where
  "close_fd fd ep = ep\<lparr>ep_open := ep_open ep - {fd}, ep_interest := (ep_interest ep)(fd := None)\<rparr>"

text \<open>
  An event, with the answers to the calls its handler may make: the descriptor \<open>accept\<close> returns or
  a negative number, the bytes \<open>read\<close> stores or \<open>None\<close>, the number of bytes \<open>write\<close> takes or \<open>None\<close>.
\<close>

record event =
  ev_fd :: int
  ev_events :: "32 word"
  an_accept :: int
  an_read :: "string option"
  an_write :: "nat option"

definition ev_in :: "event \<Rightarrow> bool" where
  "ev_in e \<longleftrightarrow> ev_events e AND EPOLLIN \<noteq> 0"

definition ev_out :: "event \<Rightarrow> bool" where
  "ev_out e \<longleftrightarrow> ev_events e AND EPOLLOUT \<noteq> 0"

section \<open>The server\<close>

datatype server_log = AcceptError | ReadError | ClientClosed | ReadMessage string | WriteError

record server =
  sv_ep :: epoll
  sv_buf :: cbuf
  sv_sent :: "(int \<times> string) list"
  sv_log :: "server_log list"

definition sv_note :: "server_log \<Rightarrow> server \<Rightarrow> server" where
  "sv_note l s = s\<lparr>sv_log := sv_log s @ [l]\<rparr>"

definition handle_accept :: "event \<Rightarrow> server stmt" where
  "handle_accept e s =
     (if an_accept e < 0 then Inr (sv_note AcceptError s)
      else Inr (s\<lparr>sv_ep := add_event (an_accept e) EPOLLIN ((sv_ep s)\<lparr>ep_open := insert (an_accept e) (ep_open (sv_ep s))\<rparr>)\<rparr>))"

definition do_read :: "event \<Rightarrow> server stmt" where
  "do_read e s = (case an_read e of
     None \<Rightarrow> Inr (sv_note ReadError (s\<lparr>sv_ep := delete_event (ev_fd e) EPOLLIN (close_fd (ev_fd e) (sv_ep s))\<rparr>))
   | Some xs \<Rightarrow> bindE (read_into xs (sv_buf s)) (\<lambda>b.
       if xs = [] then Inr (sv_note ClientClosed (s\<lparr>sv_buf := b, sv_ep := delete_event (ev_fd e) EPOLLIN (close_fd (ev_fd e) (sv_ep s))\<rparr>))
       else bindE (c_str b) (\<lambda>m.
         Inr (sv_note (ReadMessage m) (s\<lparr>sv_buf := b, sv_ep := modify_event (ev_fd e) EPOLLOUT (sv_ep s)\<rparr>)))))"

definition do_write :: "event \<Rightarrow> server stmt" where
  "do_write e s = bindE (c_str (sv_buf s)) (\<lambda>m.
     bindE (memset0 MAXSIZE (sv_buf s)) (\<lambda>b.
       case an_write e of
         None \<Rightarrow> Inr (sv_note WriteError (s\<lparr>sv_buf := b, sv_ep := delete_event (ev_fd e) EPOLLOUT (close_fd (ev_fd e) (sv_ep s))\<rparr>))
       | Some n \<Rightarrow> Inr (s\<lparr>sv_buf := b, sv_sent := sv_sent s @ [(ev_fd e, take n m)], sv_ep := modify_event (ev_fd e) EPOLLIN (sv_ep s)\<rparr>)))"

definition handle_event :: "int \<Rightarrow> event \<Rightarrow> server stmt" where
  "handle_event listenfd e s =
     (if ev_fd e = listenfd \<and> ev_in e then handle_accept e s
      else if ev_in e then do_read e s
      else if ev_out e then do_write e s
      else Inr s)"

definition handle_events :: "int \<Rightarrow> event list \<Rightarrow> server stmt" where
  "handle_events listenfd es = run_stmts (map (handle_event listenfd) es)"

text \<open>
  The loop, over the answers of successive calls of \<open>epoll_wait\<close>: the reported events, or \<open>None\<close> for
  an error.
\<close>

fun serve :: "int \<Rightarrow> event list option list \<Rightarrow> server stmt" where
  "serve listenfd [] s = Inr s"
| "serve listenfd (None # ws) s = Inl (Exits (-1))"
| "serve listenfd (Some es # ws) s = bindE (handle_events listenfd es s) (serve listenfd ws)"

definition do_epoll :: "int \<Rightarrow> int \<Rightarrow> event list option list \<Rightarrow> server c" where
  "do_epoll epollfd listenfd ws =
     (if epollfd < 0 then Inl (Exits (-1))
      else serve listenfd ws
        \<lparr>sv_ep = add_event listenfd EPOLLIN \<lparr>ep_open = {listenfd, epollfd}, ep_interest = Map.empty\<rparr>,
         sv_buf = replicate MAXSIZE (Some nul), sv_sent = [], sv_log = []\<rparr>)"

text \<open>\<open>fd\<close> and \<open>r\<close> are what \<open>socket\<close> and \<open>bind\<close> return.\<close>

definition socket_bind :: "int \<Rightarrow> int \<Rightarrow> int c" where
  "socket_bind fd r = (if fd < 0 then Inl (Exits (-1)) else if r < 0 then Inl (Exits (-1)) else Inr fd)"

definition server_main :: "int \<Rightarrow> int \<Rightarrow> int \<Rightarrow> event list option list \<Rightarrow> server c" where
  "server_main fd r epollfd ws = bindE (socket_bind fd r) (\<lambda>listenfd. do_epoll epollfd listenfd ws)"

section \<open>The client\<close>

definition STDIN_FILENO :: int where "STDIN_FILENO = 0"
definition STDOUT_FILENO :: int where "STDOUT_FILENO = 1"

record client =
  cl_ep :: epoll
  cl_buf :: cbuf
  cl_sent :: "(int \<times> string) list"

definition cl_do_read :: "int \<Rightarrow> event \<Rightarrow> client stmt" where
  "cl_do_read sockfd e s = (case an_read e of
     None \<Rightarrow> Inl (Exits (-1))
   | Some xs \<Rightarrow> bindE (read_into xs (cl_buf s)) (\<lambda>b.
       if xs = [] then Inl (Exits (-1))
       else if ev_fd e = STDIN_FILENO
       then Inr (s\<lparr>cl_buf := b, cl_ep := add_event sockfd EPOLLOUT (cl_ep s)\<rparr>)
       else Inr (s\<lparr>cl_buf := b, cl_ep := add_event STDOUT_FILENO EPOLLOUT (delete_event sockfd EPOLLIN (cl_ep s))\<rparr>)))"

definition cl_do_write :: "int \<Rightarrow> event \<Rightarrow> client stmt" where
  "cl_do_write sockfd e s = bindE (c_str (cl_buf s)) (\<lambda>m.
     case an_write e of
       None \<Rightarrow> Inl (Exits (-1))
     | Some n \<Rightarrow> bindE (memset0 MAXSIZE (cl_buf s)) (\<lambda>b.
         Inr (s\<lparr>cl_buf := b, cl_sent := cl_sent s @ [(ev_fd e, take n m)],
           cl_ep := (if ev_fd e = STDOUT_FILENO then delete_event (ev_fd e) EPOLLOUT (cl_ep s)
                     else modify_event (ev_fd e) EPOLLIN (cl_ep s))\<rparr>)))"

definition cl_handle_event :: "int \<Rightarrow> event \<Rightarrow> client stmt" where
  "cl_handle_event sockfd e s =
     (if ev_in e then cl_do_read sockfd e s
      else if ev_out e then cl_do_write sockfd e s
      else Inr s)"

definition cl_handle_events :: "int \<Rightarrow> event list \<Rightarrow> client stmt" where
  "cl_handle_events sockfd es = run_stmts (map (cl_handle_event sockfd) es)"

text \<open>
  \<open>handle_connection\<close>: the array is not cleared before the loop, so what it holds at first, \<open>b0\<close>, is a
  parameter, and an error of \<open>epoll_wait\<close> (\<open>None\<close>) is ignored.
\<close>

definition cl_start :: "cbuf \<Rightarrow> int \<Rightarrow> int \<Rightarrow> client" where
  "cl_start b0 sockfd epollfd =
     \<lparr>cl_ep = add_event STDIN_FILENO EPOLLIN \<lparr>ep_open = {STDIN_FILENO, STDOUT_FILENO, 2, sockfd, epollfd}, ep_interest = Map.empty\<rparr>,
      cl_buf = b0, cl_sent = []\<rparr>"

definition handle_connection :: "cbuf \<Rightarrow> int \<Rightarrow> int \<Rightarrow> event list option list \<Rightarrow> client c" where
  "handle_connection b0 sockfd epollfd ws =
     (if epollfd < 0 then Inl (Exits (-1))
      else run_stmts (map (\<lambda>w. case w of None \<Rightarrow> Inr | Some es \<Rightarrow> cl_handle_events sockfd es) ws) (cl_start b0 sockfd epollfd))"

text \<open>\<open>pton\<close> is what \<open>inet_pton\<close> returns; the result of \<open>connect\<close> is not looked at.\<close>

definition client_main :: "cbuf \<Rightarrow> int \<Rightarrow> int \<Rightarrow> int \<Rightarrow> event list option list \<Rightarrow> client c" where
  "client_main b0 sockfd pton epollfd ws =
     (if sockfd < 0 then Inl (Exits (-1)) else if pton \<noteq> 1 then Inl (Exits (-1)) else handle_connection b0 sockfd epollfd ws)"

section \<open>Events and interest lists\<close>

lemma mask_facts [simp]:
  "EPOLLIN \<noteq> 0" "EPOLLOUT AND EPOLLIN = 0" "EPOLLOUT \<noteq> 0" "EPOLLIN AND EPOLLOUT = 0"
  "EPOLLIN \<noteq> EPOLLOUT" "EPOLLOUT \<noteq> EPOLLIN"
  by (simp_all add: EPOLLIN_def EPOLLOUT_def)

definition in_event :: "int \<Rightarrow> string \<Rightarrow> event" where
  "in_event fd m = \<lparr>ev_fd = fd, ev_events = EPOLLIN, an_accept = -1, an_read = Some m, an_write = None\<rparr>"

definition out_event :: "int \<Rightarrow> nat \<Rightarrow> event" where
  "out_event fd n = \<lparr>ev_fd = fd, ev_events = EPOLLOUT, an_accept = -1, an_read = None, an_write = Some n\<rparr>"

lemma event_simps [simp]:
  "ev_fd (in_event fd m) = fd" "ev_in (in_event fd m)" "an_read (in_event fd m) = Some m"
  "ev_fd (out_event fd n) = fd" "\<not> ev_in (out_event fd n)" "ev_out (out_event fd n)" "an_write (out_event fd n) = Some n"
  by (simp_all add: in_event_def out_event_def ev_in_def ev_out_def)

section \<open>The server\<close>

text \<open>
  A text that fits the buffer: not empty, without terminator, and shorter than the buffer.
\<close>

definition short_text :: "string \<Rightarrow> bool" where
  "short_text m \<longleftrightarrow> m \<noteq> [] \<and> nul \<notin> set m \<and> length m < MAXSIZE"

abbreviation cleared :: cbuf where
  "cleared \<equiv> replicate MAXSIZE (Some nul)"

lemma memset_all: "length b = MAXSIZE \<Longrightarrow> memset0 MAXSIZE b = Inr cleared"
  by (simp add: memset0_def)

lemma read_short:
  assumes "short_text m"
  shows "\<exists>b. read_into m cleared = Inr b \<and> c_str b = Inr m \<and> length b = MAXSIZE"
  using assms read_cleared unfolding short_text_def by blast

text \<open>A second read before the buffer is cleared: the new text over the beginning of the old.\<close>

lemma read_over:
  assumes "short_text x" and "short_text y" and "read_into x cleared = Inr b"
  shows "\<exists>b'. read_into y b = Inr b' \<and> c_str b' = Inr (y @ drop (length y) x) \<and> length b' = MAXSIZE"
proof -
  have b: "b = map Some x @ replicate (MAXSIZE - length x) (Some nul)" and len: "length b = MAXSIZE"
    using assms by (auto simp: read_into_def short_text_def split: if_splits)
  let ?k = "MAXSIZE - max (length x) (length y)"
  have "0 < ?k" using assms by (auto simp: short_text_def)
  then obtain k where k: "?k = Suc k" by (metis gr0_conv_Suc)
  have "drop (length y) b = map Some (drop (length y) x) @ replicate ?k (Some nul)"
    unfolding b by (cases "length y \<le> length x") (simp_all add: drop_map max_def)
  then have eq: "map Some y @ drop (length y) b = map Some (y @ drop (length y) x) @ Some nul # replicate k (Some nul)"
    unfolding k by simp
  have "nul \<notin> set (y @ drop (length y) x)"
    using assms by (auto simp: short_text_def dest: in_set_dropD)
  then have "c_str (map Some y @ drop (length y) b) = Inr (y @ drop (length y) x)"
    unfolding eq by (rule c_str_terminated)
  then show ?thesis using assms(2) len by (simp add: read_into_def short_text_def)
qed

lemma c_str_cleared [simp]: "c_str cleared = Inr []"
  by (simp add: MAXSIZE_def numeral_eq_Suc)

lemma serve_request:
  assumes fd: "fd \<noteq> listenfd" "fd \<in> ep_open (sv_ep s)" "ep_interest (sv_ep s) fd = Some EPOLLIN"
    and buf: "sv_buf s = cleared" and m: "short_text m" and n: "length m \<le> n"
  shows "\<exists>s'. handle_events listenfd [in_event fd m, out_event fd n] s = Inr s'
    \<and> sv_sent s' = sv_sent s @ [(fd, m)] \<and> sv_buf s' = cleared \<and> sv_ep s' = sv_ep s"
proof -
  obtain b where b: "read_into m cleared = Inr b" "c_str b = Inr m" "length b = MAXSIZE" using read_short [OF m] by blast
  have "m \<noteq> []" using m by (simp add: short_text_def)
  with fd buf b n show ?thesis
    by (simp add: handle_events_def handle_event_def do_read_def do_write_def sv_note_def modify_event_def memset_all fun_upd_idem)
qed

lemma handle_events_append: "handle_events l (es @ fs) s = bindE (handle_events l es s) (handle_events l fs)"
  by (simp add: handle_events_def run_stmts_append)

definition requests :: "(int \<times> string) list \<Rightarrow> event list" where
  "requests rs = concat (map (\<lambda>(fd, m). [in_event fd m, out_event fd (length m)]) rs)"

lemma serve_requests:
  assumes "sv_buf s = cleared"
    and "\<forall>(fd, m) \<in> set rs. fd \<noteq> listenfd \<and> fd \<in> ep_open (sv_ep s) \<and> ep_interest (sv_ep s) fd = Some EPOLLIN \<and> short_text m"
  shows "\<exists>s'. handle_events listenfd (requests rs) s = Inr s'
    \<and> sv_sent s' = sv_sent s @ rs \<and> sv_buf s' = cleared \<and> sv_ep s' = sv_ep s"
  using assms
proof (induction rs arbitrary: s)
  case Nil
  then show ?case by (simp add: requests_def handle_events_def)
next
  case (Cons r rs)
  obtain fd m where r: "r = (fd, m)" by force
  obtain s1 where s1: "handle_events listenfd [in_event fd m, out_event fd (length m)] s = Inr s1"
      "sv_sent s1 = sv_sent s @ [(fd, m)]" "sv_buf s1 = cleared" "sv_ep s1 = sv_ep s"
    using serve_request [of fd listenfd s m] Cons.prems r by auto
  obtain s2 where s2: "handle_events listenfd (requests rs) s1 = Inr s2" "sv_sent s2 = sv_sent s1 @ rs"
      "sv_buf s2 = cleared" "sv_ep s2 = sv_ep s1"
    using Cons.IH [of s1] Cons.prems s1 by auto
  have "requests (r # rs) = [in_event fd m, out_event fd (length m)] @ requests rs" by (simp add: requests_def r)
  then have "handle_events listenfd (requests (r # rs)) s = Inr s2"
    by (simp only: handle_events_append s1(1) bindE_Inr s2(1))
  with s1 s2 r show ?case by simp
qed

text \<open>What has to hold of the server between two events.\<close>

definition server_ok :: "int \<Rightarrow> server \<Rightarrow> bool" where
  "server_ok listenfd s \<longleftrightarrow> length (sv_buf s) = MAXSIZE \<and> None \<notin> set (sv_buf s) \<and> last (sv_buf s) = Some nul
     \<and> ep_interest (sv_ep s) listenfd = Some EPOLLIN
     \<and> dom (ep_interest (sv_ep s)) \<subseteq> ep_open (sv_ep s)
     \<and> ran (ep_interest (sv_ep s)) \<subseteq> {EPOLLIN, EPOLLOUT}"

text \<open>
  What \<open>epoll_wait\<close>, \<open>accept\<close> and \<open>read\<close> may answer: an event that was asked for, a descriptor that
  was not in use, and here fewer bytes than the buffer has room for.
\<close>

definition proper_event :: "server \<Rightarrow> event \<Rightarrow> bool" where
  "proper_event s e \<longleftrightarrow> (case ep_interest (sv_ep s) (ev_fd e) of None \<Rightarrow> False
       | Some st \<Rightarrow> (ev_in e \<longrightarrow> st = EPOLLIN) \<and> (ev_out e \<longrightarrow> st = EPOLLOUT))
     \<and> an_accept e \<notin> ep_open (sv_ep s)
     \<and> (case an_read e of None \<Rightarrow> True | Some xs \<Rightarrow> length xs < MAXSIZE)"

lemma c_str_last:
  assumes "b \<noteq> []" and "None \<notin> set b" and "last b = Some nul"
  shows "\<exists>m. c_str b = Inr m"
  using assms by (induction b rule: c_str.induct) (auto split: if_splits)

lemma read_into_ok:
  assumes "length b = MAXSIZE" "None \<notin> set b" "last b = Some nul" "length xs < MAXSIZE"
  shows "\<exists>b'. read_into xs b = Inr b' \<and> length b' = MAXSIZE \<and> None \<notin> set b' \<and> last b' = Some nul \<and> b' \<noteq> []"
proof -
  have "drop (length xs) b \<noteq> []" using assms by simp
  moreover have "set (drop (length xs) b) \<subseteq> set b" by (rule set_drop_subset)
  ultimately show ?thesis using assms by (auto simp: read_into_def last_drop)
qed

lemma close_ok:
  assumes "dom (ep_interest ep) \<subseteq> ep_open ep" and "ran (ep_interest ep) \<subseteq> R" and "ep_interest ep l = Some st" and "fd \<noteq> l"
  shows "dom (ep_interest (close_fd fd ep)) \<subseteq> ep_open (close_fd fd ep)" "ran (ep_interest (close_fd fd ep)) \<subseteq> R"
    "ep_interest (close_fd fd ep) l = Some st"
  using assms by (auto simp: close_fd_def ran_def dom_def split: if_splits)

lemma delete_closed [simp]: "delete_event fd x (close_fd fd ep) = close_fd fd ep"
  by (simp add: close_fd_def delete_event_def)

lemma modify_ok:
  assumes "dom (ep_interest ep) \<subseteq> ep_open ep" and "ran (ep_interest ep) \<subseteq> R" and "ep_interest ep l = Some st" and "fd \<noteq> l" and "x \<in> R"
  shows "dom (ep_interest (modify_event fd x ep)) \<subseteq> ep_open (modify_event fd x ep)" "ran (ep_interest (modify_event fd x ep)) \<subseteq> R"
    "ep_interest (modify_event fd x ep) l = Some st"
  using assms by (auto simp: modify_event_def ran_def dom_def split: if_splits)

lemma read_event_ok:
  assumes "server_ok listenfd s" and "proper_event s e" and "ev_fd e \<noteq> listenfd"
  shows "\<exists>s'. do_read e s = Inr s' \<and> server_ok listenfd s'"
proof (cases "an_read e")
  case None
  with assms close_ok [of "sv_ep s" "{EPOLLIN, EPOLLOUT}" listenfd EPOLLIN "ev_fd e"] show ?thesis
    by (simp add: do_read_def sv_note_def server_ok_def)
next
  case (Some xs)
  then obtain b where b: "read_into xs (sv_buf s) = Inr b" "length b = MAXSIZE" "None \<notin> set b" "last b = Some nul" "b \<noteq> []"
    using assms(1,2) read_into_ok [of "sv_buf s" xs] by (auto simp: server_ok_def proper_event_def)
  obtain m where "c_str b = Inr m" using c_str_last b by blast
  with Some b assms close_ok [of "sv_ep s" "{EPOLLIN, EPOLLOUT}" listenfd EPOLLIN "ev_fd e"] modify_ok [of "sv_ep s" "{EPOLLIN, EPOLLOUT}" listenfd EPOLLIN "ev_fd e" EPOLLOUT]
  show ?thesis by (simp add: do_read_def sv_note_def server_ok_def)
qed

lemma write_event_ok:
  assumes "server_ok listenfd s" and "ev_fd e \<noteq> listenfd"
  shows "\<exists>s'. do_write e s = Inr s' \<and> server_ok listenfd s'"
proof -
  have pos: "0 < MAXSIZE" by (simp add: MAXSIZE_def)
  then have "sv_buf s \<noteq> []" using assms(1) by (auto simp: server_ok_def)
  then obtain m where "c_str (sv_buf s) = Inr m"
    using c_str_last [of "sv_buf s"] assms(1) by (auto simp: server_ok_def)
  with pos show ?thesis
    using assms close_ok [of "sv_ep s" "{EPOLLIN, EPOLLOUT}" listenfd EPOLLIN "ev_fd e"] modify_ok [of "sv_ep s" "{EPOLLIN, EPOLLOUT}" listenfd EPOLLIN "ev_fd e" EPOLLIN]
    by (auto simp: do_write_def sv_note_def server_ok_def memset_all split: option.splits)
qed

lemma handle_event_ok:
  assumes ok: "server_ok listenfd s" and e: "proper_event s e"
  shows "\<exists>s'. handle_event listenfd e s = Inr s' \<and> server_ok listenfd s'"
proof (cases "ev_fd e = listenfd")
  case True
  then have "\<not> ev_out e" using ok e by (auto simp: proper_event_def server_ok_def)
  moreover have "\<exists>s'. handle_accept e s = Inr s' \<and> server_ok listenfd s'"
    using ok e by (auto simp: handle_accept_def sv_note_def server_ok_def proper_event_def add_event_def ran_def dom_def)
  ultimately show ?thesis using True ok by (simp add: handle_event_def)
next
  case False
  then show ?thesis using read_event_ok [OF ok e] write_event_ok [OF ok] ok by (simp add: handle_event_def)
qed

inductive server_step :: "int \<Rightarrow> server \<Rightarrow> server \<Rightarrow> bool" for listenfd where
  server_event: "proper_event s e \<Longrightarrow> handle_event listenfd e s = Inr s' \<Longrightarrow> server_step listenfd s s'"

definition server_start :: "int \<Rightarrow> int \<Rightarrow> server" where
  "server_start epollfd listenfd =
     \<lparr>sv_ep = add_event listenfd EPOLLIN \<lparr>ep_open = {listenfd, epollfd}, ep_interest = Map.empty\<rparr>,
      sv_buf = cleared, sv_sent = [], sv_log = []\<rparr>"

lemma do_epoll_start: "0 \<le> epollfd \<Longrightarrow> do_epoll epollfd listenfd ws = serve listenfd ws (server_start epollfd listenfd)"
  by (simp add: do_epoll_def server_start_def)

lemma server_start_ok: "server_ok listenfd (server_start epollfd listenfd)"
  by (auto simp: server_ok_def server_start_def add_event_def MAXSIZE_def)

lemma server_step_ok: "server_ok listenfd s \<Longrightarrow> server_step listenfd s s' \<Longrightarrow> server_ok listenfd s'"
  using handle_event_ok by (fastforce elim: server_step.cases)

interpretation server: inductive_invariant "\<lambda>s. \<exists>epollfd. s = server_start epollfd listenfd" "server_step listenfd" "server_ok listenfd"
    for listenfd
  by unfold_locales (auto intro: server_start_ok server_step_ok)

section \<open>The client\<close>

text \<open>The client between two exchanges: it waits for a line only, and the buffer is cleared.\<close>

definition cl_idle :: "int \<Rightarrow> client \<Rightarrow> bool" where
  "cl_idle sockfd s \<longleftrightarrow> cl_buf s = cleared \<and> ep_interest (cl_ep s) = [STDIN_FILENO \<mapsto> EPOLLIN]
     \<and> {STDIN_FILENO, STDOUT_FILENO, sockfd} \<subseteq> ep_open (cl_ep s)"

lemma fileno_neq [simp]: "STDIN_FILENO \<noteq> STDOUT_FILENO" "STDOUT_FILENO \<noteq> STDIN_FILENO"
  by (simp_all add: STDIN_FILENO_def STDOUT_FILENO_def)

lemmas cl_defs = cl_handle_events_def cl_handle_event_def cl_do_read_def cl_do_write_def add_event_def delete_event_def modify_event_def

text \<open>
  Sending a line: the string that goes out is what the array then holds up to its first terminator,
  which is the line itself when the array was cleared before.
\<close>

lemma cl_send_text:
  assumes "ep_interest (cl_ep s) = [STDIN_FILENO \<mapsto> EPOLLIN]" and "{STDIN_FILENO, STDOUT_FILENO, sockfd} \<subseteq> ep_open (cl_ep s)"
    and "sockfd \<noteq> STDIN_FILENO" "sockfd \<noteq> STDOUT_FILENO"
    and "m \<noteq> []" and "read_into m (cl_buf s) = Inr b" and "c_str b = Inr t" and "length b = MAXSIZE" and "length t \<le> n"
  shows "cl_handle_events sockfd [in_event STDIN_FILENO m, out_event sockfd n] s =
    Inr (s\<lparr>cl_buf := cleared, cl_sent := cl_sent s @ [(sockfd, t)],
      cl_ep := (cl_ep s)\<lparr>ep_interest := [STDIN_FILENO \<mapsto> EPOLLIN, sockfd \<mapsto> EPOLLIN]\<rparr>\<rparr>)"
  using assms by (simp add: cl_defs memset_all)

lemma cl_send:
  assumes "cl_idle sockfd s" and "short_text m" and "sockfd \<noteq> STDIN_FILENO" "sockfd \<noteq> STDOUT_FILENO"
  shows "cl_handle_events sockfd [in_event STDIN_FILENO m, out_event sockfd (length m)] s =
    Inr (s\<lparr>cl_buf := cleared, cl_sent := cl_sent s @ [(sockfd, m)],
      cl_ep := (cl_ep s)\<lparr>ep_interest := [STDIN_FILENO \<mapsto> EPOLLIN, sockfd \<mapsto> EPOLLIN]\<rparr>\<rparr>)"
proof -
  obtain b where b: "read_into m cleared = Inr b" "c_str b = Inr m" "length b = MAXSIZE" using read_short [OF assms(2)] by blast
  have "m \<noteq> []" using assms(2) by (simp add: short_text_def)
  with b assms show ?thesis by (intro cl_send_text) (simp_all add: cl_idle_def)
qed

lemma cl_receive:
  assumes "cl_buf s = cleared" and "ep_interest (cl_ep s) = [STDIN_FILENO \<mapsto> EPOLLIN, sockfd \<mapsto> EPOLLIN]"
    and "{STDIN_FILENO, STDOUT_FILENO, sockfd} \<subseteq> ep_open (cl_ep s)"
    and "short_text r" and "sockfd \<noteq> STDIN_FILENO" "sockfd \<noteq> STDOUT_FILENO" and "length r \<le> n"
  shows "cl_handle_events sockfd [in_event sockfd r, out_event STDOUT_FILENO n] s =
    Inr (s\<lparr>cl_buf := cleared, cl_sent := cl_sent s @ [(STDOUT_FILENO, r)], cl_ep := (cl_ep s)\<lparr>ep_interest := [STDIN_FILENO \<mapsto> EPOLLIN]\<rparr>\<rparr>)"
proof -
  obtain b where b: "read_into r cleared = Inr b" "c_str b = Inr r" "length b = MAXSIZE" using read_short [OF assms(4)] by blast
  have upd: "[STDIN_FILENO \<mapsto> EPOLLIN, sockfd \<mapsto> EPOLLIN](sockfd := None) = [STDIN_FILENO \<mapsto> EPOLLIN]"
      "[STDIN_FILENO \<mapsto> EPOLLIN, STDOUT_FILENO \<mapsto> EPOLLOUT](STDOUT_FILENO := None) = [STDIN_FILENO \<mapsto> EPOLLIN]"
    using assms(5) by (auto simp: fun_eq_iff)
  have "r \<noteq> []" using assms(4) by (simp add: short_text_def)
  with b assms upd show ?thesis by (simp add: cl_defs memset_all)
qed

section \<open>Properties of the server\<close>

text \<open>
  C9: as long as every read brings fewer bytes than the buffer holds, no event makes the server
  fault: in every state it can reach, each event \<open>epoll_wait\<close> may report is handled to its end, the
  listening socket stays registered, and a descriptor is registered only while it is open, for
  either reading or writing.
\<close>

theorem server_safe:
  assumes "(server_step listenfd)\<^sup>*\<^sup>* (server_start epollfd listenfd) s" and "proper_event s e"
  shows "(\<exists>s'. handle_event listenfd e s = Inr s') \<and> server_ok listenfd s"
proof -
  have "server_ok listenfd s" using server.inv_reachable assms(1) by blast
  with handle_event_ok assms(2) show ?thesis by blast
qed

theorem server_safe_witness:
  "\<exists>s'. handle_event 3 \<lparr>ev_fd = 3, ev_events = EPOLLIN, an_accept = 5, an_read = None, an_write = None\<rparr> (server_start 4 3) = Inr s'"
  using server_safe [of 3 4 "server_start 4 3" "\<lparr>ev_fd = 3, ev_events = EPOLLIN, an_accept = 5, an_read = None, an_write = None\<rparr>"]
  by (auto simp: proper_event_def server_start_def add_event_def ev_in_def ev_out_def)

text \<open>
  Requests that do not overlap are echoed exactly: when the server reads each message and
  writes the answer before it reads the next, every client gets back its own bytes, in order, and
  the server is ready for the next request.
\<close>

lemma server_echo:
  assumes "sv_buf s = cleared"
    and "\<forall>(fd, m) \<in> set rs. fd \<noteq> listenfd \<and> fd \<in> ep_open (sv_ep s) \<and> ep_interest (sv_ep s) fd = Some EPOLLIN \<and> short_text m"
  shows "\<exists>s'. handle_events listenfd (requests rs) s = Inr s'
    \<and> sv_sent s' = sv_sent s @ rs \<and> sv_buf s' = cleared \<and> sv_ep s' = sv_ep s"
  using assms by (rule serve_requests)

definition two_clients :: server where
  "two_clients = \<lparr>sv_ep = \<lparr>ep_open = {3, 4, 5, 6}, ep_interest = [3 \<mapsto> EPOLLIN, 5 \<mapsto> EPOLLIN, 6 \<mapsto> EPOLLIN]\<rparr>,
     sv_buf = cleared, sv_sent = [], sv_log = []\<rparr>"

text \<open>
  C38: the buffer is shared by all clients: when two clients are read before either is answered, the
  first gets the second one's message over the beginning of its own, and the second gets nothing.
\<close>

theorem server_crosstalk:
  assumes "sv_buf s = cleared" and "distinct [a, b, listenfd]" and "{a, b} \<subseteq> ep_open (sv_ep s)"
    and "ep_interest (sv_ep s) a = Some EPOLLIN" and "ep_interest (sv_ep s) b = Some EPOLLIN"
    and "short_text x" and "short_text y"
  shows "\<exists>s'. handle_events listenfd [in_event a x, in_event b y, out_event a MAXSIZE, out_event b MAXSIZE] s = Inr s'
    \<and> sv_sent s' = sv_sent s @ [(a, y @ drop (length y) x), (b, [])]"
proof -
  obtain b1 where b1: "read_into x cleared = Inr b1" "c_str b1 = Inr x" "length b1 = MAXSIZE" using read_short [OF assms(6)] by blast
  obtain b2 where b2: "read_into y b1 = Inr b2" "c_str b2 = Inr (y @ drop (length y) x)" "length b2 = MAXSIZE"
    using read_over [OF assms(6,7) b1(1)] by blast
  have len: "length (y @ drop (length y) x) \<le> MAXSIZE" using c_str_no_nul [OF b2(2)] b2(3) by simp
  have "x \<noteq> []" "y \<noteq> []" using assms(6,7) by (simp_all add: short_text_def)
  with b1 b2 len assms(1-5) show ?thesis
    by (simp add: handle_events_def handle_event_def do_read_def do_write_def sv_note_def modify_event_def memset_all)
qed

theorem server_crosstalk_witness:
  "\<exists>s'. handle_events 3 [in_event 5 ''hello'', in_event 6 ''you'', out_event 5 MAXSIZE, out_event 6 MAXSIZE] two_clients = Inr s'
    \<and> sv_sent s' = [(5, ''youlo''), (6, [])]"
  using server_crosstalk [of two_clients 5 6 3 "''hello''" "''you''"] by (auto simp: two_clients_def short_text_def MAXSIZE_def)

text \<open>
  A read that fills the whole buffer leaves no room for a terminator: printing the message runs
  off the end of the array, unless the bytes hold a terminator themselves.
\<close>

lemma do_read_full:
  assumes "length (sv_buf s) = MAXSIZE" and "an_read e = Some xs" and "length xs = MAXSIZE"
  shows "do_read e s = Inl OutOfBounds \<longleftrightarrow> nul \<notin> set xs"
proof -
  have "read_into xs (sv_buf s) = Inr (map Some xs)" "xs \<noteq> []"
    using assms by (auto simp: read_into_def MAXSIZE_def)
  with assms(2) show ?thesis by (simp add: do_read_def c_str_map_Some)
qed

section \<open>Properties of the client\<close>

text \<open>
  When nothing was ever stored in the array of the client, the first short line makes it read bytes
  that are indeterminate.
\<close>

lemma client_first_line:
  assumes "short_text m" and "sockfd \<noteq> STDIN_FILENO"
  shows "cl_handle_events sockfd [in_event STDIN_FILENO m, out_event sockfd n] (cl_start (replicate MAXSIZE None) sockfd epollfd) = Inl Uninitialised"
proof -
  obtain k where k: "MAXSIZE - length m = Suc k" using assms(1) unfolding short_text_def by (metis Suc_diff_Suc)
  have m: "m \<noteq> []" "nul \<notin> set m" "length m \<le> MAXSIZE" using assms(1) by (auto simp: short_text_def)
  have "c_str (map Some m @ replicate (MAXSIZE - length m) None) = Inl Uninitialised"
    unfolding k using c_str_uninitialised [OF m(2)] by simp
  with m show ?thesis by (simp add: cl_handle_events_def cl_handle_event_def cl_do_read_def cl_do_write_def cl_start_def read_into_def)
qed

text \<open>
  A line typed while the client waits for an answer is lost: registering the socket again
  fails, the answer is stored over the line, and what is printed is the answer followed by the rest
  of the line that was never sent.
\<close>

lemma client_lost_line:
  assumes "cl_idle sockfd s" and "sockfd \<noteq> STDIN_FILENO" "sockfd \<noteq> STDOUT_FILENO"
    and "short_text x" and "short_text y" and "short_text r"
  shows "\<exists>s'. cl_handle_events sockfd
      ([in_event STDIN_FILENO x, out_event sockfd (length x)] @
       [in_event STDIN_FILENO y, in_event sockfd r, out_event STDOUT_FILENO MAXSIZE]) s = Inr s'
    \<and> cl_idle sockfd s' \<and> cl_sent s' = cl_sent s @ [(sockfd, x), (STDOUT_FILENO, r @ drop (length r) y)]"
proof -
  let ?s = "s\<lparr>cl_buf := cleared, cl_sent := cl_sent s @ [(sockfd, x)],
      cl_ep := (cl_ep s)\<lparr>ep_interest := [STDIN_FILENO \<mapsto> EPOLLIN, sockfd \<mapsto> EPOLLIN]\<rparr>\<rparr>"
  obtain b1 where b1: "read_into y cleared = Inr b1" "c_str b1 = Inr y" "length b1 = MAXSIZE" using read_short [OF assms(5)] by blast
  obtain b2 where b2: "read_into r b1 = Inr b2" "c_str b2 = Inr (r @ drop (length r) y)" "length b2 = MAXSIZE"
    using read_over [OF assms(5,6) b1(1)] by blast
  have len: "length (r @ drop (length r) y) \<le> MAXSIZE" using c_str_no_nul [OF b2(2)] b2(3) by simp
  have upd: "[STDIN_FILENO \<mapsto> EPOLLIN, sockfd \<mapsto> EPOLLIN](sockfd := None) = [STDIN_FILENO \<mapsto> EPOLLIN]"
      "[STDIN_FILENO \<mapsto> EPOLLIN, STDOUT_FILENO \<mapsto> EPOLLOUT](STDOUT_FILENO := None) = [STDIN_FILENO \<mapsto> EPOLLIN]"
    using assms(2) by (auto simp: fun_eq_iff)
  have "y \<noteq> []" "r \<noteq> []" "{STDIN_FILENO, STDOUT_FILENO, sockfd} \<subseteq> ep_open (cl_ep s)"
    using assms by (simp_all add: short_text_def cl_idle_def)
  with b1 b2 len upd assms(2,3) have
    "\<exists>s'. cl_handle_events sockfd [in_event STDIN_FILENO y, in_event sockfd r, out_event STDOUT_FILENO MAXSIZE] ?s = Inr s'
      \<and> cl_idle sockfd s' \<and> cl_sent s' = cl_sent s @ [(sockfd, x), (STDOUT_FILENO, r @ drop (length r) y)]"
    by (simp add: cl_defs memset_all cl_idle_def)
  with cl_send [OF assms(1,4,2,3)] show ?thesis
    unfolding cl_handle_events_def map_append run_stmts_append by (simp add: cl_handle_events_def)
qed

end
