(* ===== verification/Pipe_Streams.thy ===== *)
theory Pipe_Streams
  imports C_Buffer
begin

text \<open>
  Programs that pass text through pipes, line by line: \<open>IPC/fifo_demo.c\<close>, whose parent prints what
  its child sends through a named pipe, the pagers \<open>IPC/pipe_pager.c\<close> and \<open>IPC/popen_pager.c\<close>, and
  the filter \<open>IPC/pipe_filter.c\<close> over \<open>IPC/myuclc.c\<close>. The lemmas show which texts come out at the
  other end unchanged and what is lost of the others.
\<close>

section \<open>Reading lines\<close>

text \<open>At most \<open>n\<close> characters, up to the first newline, and what is left of the input.\<close>

fun take_line :: "nat \<Rightarrow> string \<Rightarrow> string \<times> string" where
  "take_line 0 xs = ([], xs)"
| "take_line (Suc n) [] = ([], [])"
| "take_line (Suc n) (x # xs) = (if x = newline then ([x], xs) else case take_line n xs of (l, r) \<Rightarrow> (x # l, r))"

text \<open>\<open>fgets\<close>: \<open>None\<close> at the end of the input, otherwise the array with the line and a terminator.\<close>

definition fgets :: "nat \<Rightarrow> string \<Rightarrow> cbuf \<Rightarrow> (cbuf \<times> string) option c" where
  "fgets sz inp b = (if inp = [] then Inr None
     else let (l, r) = take_line (sz - 1) inp in bindE (read_into (l @ [nul]) b) (\<lambda>b'. Inr (Some (b', r))))"

lemma bindE_cong [fundef_cong]:
  assumes "m = m'" and "\<And>x. m' = Inr x \<Longrightarrow> f x = g x"
  shows "bindE m f = bindE m' g"
  using assms by (cases m') simp_all

text \<open>
  The loop that the sending sides share: read a line, write as many bytes as \<open>strlen\<close> counts. A call
  of \<open>fgets\<close> that takes nothing of its input would be repeated forever.
\<close>

function pump :: "nat \<Rightarrow> string \<Rightarrow> cbuf \<Rightarrow> string \<Rightarrow> string c" where
  "pump sz inp b out = bindE (fgets sz inp b) (\<lambda>r. case r of None \<Rightarrow> Inr out
     | Some (b', rest) \<Rightarrow> bindE (c_str b') (\<lambda>l.
         if length rest < length inp then pump sz rest b' (out @ l) else Inl Blocks))"
  by pat_completeness auto
termination by (relation "measure (\<lambda>(sz, inp, b, out). length inp)") auto

declare pump.simps [simp del]

section \<open>The named pipe\<close>

definition FIFO_MAXLINE :: nat where
  "FIFO_MAXLINE = 1024"

text \<open>
  \<open>readline\<close> reads byte by byte. The input ends with an end of file or, where \<open>ok\<close> does not hold,
  with an error of \<open>read\<close>. The loop returns what the last \<open>read\<close> returned, the index the next byte
  would go to, the rest of the input and the array.
\<close>

fun readline_loop :: "bool \<Rightarrow> nat \<Rightarrow> nat \<Rightarrow> string \<Rightarrow> cbuf \<Rightarrow> (int \<times> nat \<times> string \<times> cbuf) c" where
  "readline_loop ok sz i [] b = Inr (if ok then 0 else -1, i, [], b)"
| "readline_loop ok sz i (x # xs) b =
     (if i < sz - 1
      then bindE (put_char i x b) (\<lambda>b'. if x = newline then Inr (1, i + 1, xs, b') else readline_loop ok sz (i + 1) xs b')
      else Inr (1, i, xs, b))"

definition readline :: "bool \<Rightarrow> nat \<Rightarrow> string \<Rightarrow> cbuf \<Rightarrow> (cbuf option \<times> string) c" where
  "readline ok sz inp b = bindE (readline_loop ok sz 0 inp b) (\<lambda>(n, i, rest, b').
     if n < 0 then Inl (Exits (-1))
     else if n = 0 then Inr (None, rest)
     else bindE (put_char i nul b') (\<lambda>b''. Inr (Some b'', rest)))"

lemma readline_loop_shorter:
  "readline_loop ok sz i inp b = Inr (n, j, rest, b') \<Longrightarrow> n > 0 \<Longrightarrow> length rest < length inp"
  by (induction ok sz i inp b rule: readline_loop.induct) (auto simp: bindE_eq_Inr split: if_splits)

lemma readline_shorter: "readline ok sz inp b = Inr (Some b', rest) \<Longrightarrow> length rest < length inp"
  unfolding readline_def by (auto simp: bindE_eq_Inr split: if_splits dest!: readline_loop_shorter)

definition closed_line :: string where
  "closed_line = ''FIFO write end closed'' @ [newline]"

text \<open>The parent prints line after line.\<close>

function fifo_parent :: "bool \<Rightarrow> string \<Rightarrow> cbuf \<Rightarrow> string \<Rightarrow> string c" where
  "fifo_parent ok inp b out = bindE (readline ok FIFO_MAXLINE inp b) (\<lambda>r. case r of
       (None, rest) \<Rightarrow> Inr (out @ closed_line)
     | (Some b', rest) \<Rightarrow> bindE (c_str b') (\<lambda>l. fifo_parent ok rest b' (out @ l)))"
  by pat_completeness auto
termination
  by (relation "measure (\<lambda>(ok, inp, b, out). length inp)") (auto dest: readline_shorter)

declare fifo_parent.simps [simp del]

definition fifo_child :: "string \<Rightarrow> string c" where
  "fifo_child inp = pump FIFO_MAXLINE inp (replicate FIFO_MAXLINE None) []"

text \<open>What the program prints for the text \<open>inp\<close> on its standard input.\<close>

definition fifo_demo :: "string \<Rightarrow> string c" where
  "fifo_demo inp = bindE (fifo_child inp) (\<lambda>s. fifo_parent True s (replicate FIFO_MAXLINE None) [])"

section \<open>Pagers and filters\<close>

definition PAGER_MAXLINE :: nat where
  "PAGER_MAXLINE = 2048"

text \<open>What \<open>pipe_pager.c\<close> sends to the pager: \<open>argc\<close>, and the text of the file or \<open>None\<close>.\<close>

definition pipe_pager :: "nat \<Rightarrow> string option \<Rightarrow> string c" where
  "pipe_pager argc file = (if argc \<noteq> 2 then Inl (Exits (-1)) else case file of None \<Rightarrow> Inl (Exits (-1))
     | Some content \<Rightarrow> pump PAGER_MAXLINE content (replicate PAGER_MAXLINE None) [])"

definition popen_pager :: "nat \<Rightarrow> string option \<Rightarrow> string c" where
  "popen_pager argc file = (if argc \<noteq> 2 then Inl (Exits 127) else case file of None \<Rightarrow> Inl (Exits (-1))
     | Some content \<Rightarrow> pump PAGER_MAXLINE content (replicate PAGER_MAXLINE None) [])"

text \<open>\<open>isupper\<close> and \<open>tolower\<close> in the C locale.\<close>

definition isupper :: "char \<Rightarrow> bool" where
  "isupper x \<longleftrightarrow> 65 \<le> (of_char x :: nat) \<and> (of_char x :: nat) \<le> 90"

definition tolower :: "char \<Rightarrow> char" where
  "tolower x = (if isupper x then char_of ((of_char x :: nat) + 32) else x)"

fun myuclc :: "string \<Rightarrow> string" where
  "myuclc [] = []"
| "myuclc (x # xs) = (if isupper x then tolower x else x) # myuclc xs"

definition prompt :: string where
  "prompt = ''prompt> ''"

text \<open>\<open>pipe_filter.c\<close>: a prompt before every line that comes through the filter.\<close>

function filter_loop :: "string \<Rightarrow> cbuf \<Rightarrow> string \<Rightarrow> string c" where
  "filter_loop inp b out = bindE (fgets PAGER_MAXLINE inp b) (\<lambda>r. case r of None \<Rightarrow> Inr (out @ prompt)
     | Some (b', rest) \<Rightarrow> bindE (c_str b') (\<lambda>l.
         if length rest < length inp then filter_loop rest b' (out @ prompt @ l) else Inl Blocks))"
  by pat_completeness auto
termination by (relation "measure (\<lambda>(inp, b, out). length inp)") auto

declare filter_loop.simps [simp del]

definition pipe_filter :: "string \<Rightarrow> string c" where
  "pipe_filter inp = bindE (filter_loop (myuclc inp) (replicate PAGER_MAXLINE None) []) (\<lambda>out. Inr (out @ [newline]))"

section \<open>Lines that fit\<close>

lemma take_line_append: "take_line n xs = (l, r) \<Longrightarrow> xs = l @ r \<and> length l \<le> n"
  by (induction n xs arbitrary: l r rule: take_line.induct) (auto split: if_splits prod.splits)

lemma take_line_progress: "0 < n \<Longrightarrow> xs \<noteq> [] \<Longrightarrow> take_line n xs = (l, r) \<Longrightarrow> length r < length xs"
  by (cases n; cases xs) (auto split: if_splits prod.splits dest!: take_line_append)

lemma take_line_newline: "newline \<notin> set l \<Longrightarrow> length l < n \<Longrightarrow> take_line n (l @ newline # r) = (l @ [newline], r)"
  by (induction l arbitrary: n) (auto simp: gr0_conv_Suc less_Suc_eq_0_disj split: nat.splits, (case_tac n; simp)+)

text \<open>A line read into an array it fits is the string of the array.\<close>

lemma fgets_line:
  assumes "2 \<le> sz" and "sz \<le> length b" and "inp \<noteq> []" and "nul \<notin> set inp"
  shows "\<exists>l r b'. fgets sz inp b = Inr (Some (b', r)) \<and> c_str b' = Inr l \<and> inp = l @ r \<and> length r < length inp
    \<and> length b' = length b \<and> (l, r) = take_line (sz - 1) inp"
proof -
  obtain l r where lr: "take_line (sz - 1) inp = (l, r)" by fastforce
  note split = take_line_append [OF lr] and prog = take_line_progress [OF _ assms(3) lr]
  have fit: "length (l @ [nul]) \<le> length b" using conjunct2 [OF split] assms(1,2) by simp
  let ?b = "map Some (l @ [nul]) @ drop (length (l @ [nul])) b"
  have "fgets sz inp b = Inr (Some (?b, r))"
    using assms(3) lr fit by (simp add: fgets_def read_into_def)
  moreover have "c_str ?b = Inr l" using split assms(4) by simp
  ultimately show ?thesis using split prog assms lr fit by (intro exI [of _ l] exI [of _ r] exI [of _ ?b]) simp
qed

lemma pump_all:
  assumes "2 \<le> sz" and "sz \<le> length b" and "nul \<notin> set inp"
  shows "pump sz inp b out = Inr (out @ inp)"
  using assms(2,3)
proof (induction "length inp" arbitrary: inp b out rule: less_induct)
  case less
  show ?case
  proof (cases "inp = []")
    case True
    then show ?thesis by (subst pump.simps) (simp add: fgets_def)
  next
    case False
    obtain l r b' where f: "fgets sz inp b = Inr (Some (b', r))" "c_str b' = Inr l" "inp = l @ r" "length r < length inp" "length b' = length b"
      using fgets_line [OF assms(1) less.prems(1) False less.prems(2)] by blast
    have "pump sz r b' (out @ l) = Inr ((out @ l) @ r)"
      by (rule less.hyps) (use f less.prems in auto)
    with f show ?thesis by (subst pump.simps) simp
  qed
qed

lemma put_char_next: "b \<noteq> [] \<Longrightarrow> put_char (length pre) x (map Some pre @ b) = Inr (map Some (pre @ [x]) @ tl b)"
  by (cases b) (simp_all add: put_char_def aset_def list_update_append)

text \<open>\<open>readline\<close> on a line that fits, on a text that is too long, and on one that ends too early.\<close>

lemma readline_loop_stored:
  assumes "newline \<notin> set l" and "length pre + length l \<le> sz - 1" and "length l \<le> length b"
  shows "readline_loop ok sz (length pre) (l @ r) (map Some pre @ b) =
    readline_loop ok sz (length (pre @ l)) r (map Some (pre @ l) @ drop (length l) b)"
  using assms
proof (induction l arbitrary: pre b)
  case (Cons x l)
  have b: "b \<noteq> []" using Cons.prems by auto
  have "readline_loop ok sz (length pre) ((x # l) @ r) (map Some pre @ b) = readline_loop ok sz (length (pre @ [x])) (l @ r) (map Some (pre @ [x]) @ tl b)"
    using Cons.prems put_char_next [OF b, of pre x] by auto
  also have "\<dots> = readline_loop ok sz (length ((pre @ [x]) @ l)) r (map Some ((pre @ [x]) @ l) @ drop (length l) (tl b))"
    by (rule Cons.IH) (use Cons.prems b in auto)
  finally show ?case by (simp add: drop_Suc)
qed simp

lemma drop_nonempty: "n < length b \<Longrightarrow> \<exists>x. drop n b = x # drop (Suc n) b"
  using Cons_nth_drop_Suc by metis

lemma readline_line:
  assumes "newline \<notin> set l" and "length l + 2 \<le> sz" and "sz \<le> length b" and "nul \<notin> set l"
  shows "\<exists>b'. readline ok sz (l @ newline # r) b = Inr (Some b', r) \<and> c_str b' = Inr (l @ [newline]) \<and> length b' = length b"
proof -
  have d: "drop (length l) b \<noteq> []" "drop (Suc (length l)) b \<noteq> []" using assms by auto
  have "readline_loop ok sz 0 (l @ newline # r) b = readline_loop ok sz (length l) (newline # r) (map Some l @ drop (length l) b)"
    using readline_loop_stored [of l "[]" sz b ok "newline # r"] assms by simp
  also have "\<dots> = Inr (1, length (l @ [newline]), r, map Some (l @ [newline]) @ drop (Suc (length l)) b)"
    using put_char_next [OF d(1), of l newline] assms(2) by (simp add: tl_drop drop_Suc)
  finally have loop: "readline_loop ok sz 0 (l @ newline # r) b = Inr (1, length (l @ [newline]), r, map Some (l @ [newline]) @ drop (Suc (length l)) b)" .
  let ?b = "map Some ((l @ [newline]) @ [nul]) @ tl (drop (Suc (length l)) b)"
  have "readline ok sz (l @ newline # r) b = Inr (Some ?b, r)"
    unfolding readline_def loop using put_char_next [OF d(2), of "l @ [newline]" nul] by simp
  moreover have "c_str ?b = Inr (l @ [newline])" using c_str_terminated [of "l @ [newline]"] assms(4) by simp
  ultimately show ?thesis using assms by (intro exI [of _ ?b]) auto
qed

lemma readline_full:
  assumes "newline \<notin> set l" and "length l + 1 = sz" and "sz \<le> length b" and "nul \<notin> set l"
  shows "\<exists>b'. readline ok sz (l @ x # r) b = Inr (Some b', r) \<and> c_str b' = Inr l \<and> length b' = length b"
proof -
  have d: "drop (length l) b \<noteq> []" using assms by auto
  have loop: "readline_loop ok sz 0 (l @ x # r) b = Inr (1, length l, r, map Some l @ drop (length l) b)"
    using readline_loop_stored [of l "[]" sz b ok "x # r"] assms by auto
  let ?b = "map Some (l @ [nul]) @ tl (drop (length l) b)"
  have "readline ok sz (l @ x # r) b = Inr (Some ?b, r)"
    unfolding readline_def loop using put_char_next [OF d, of l nul] by simp
  moreover have "c_str ?b = Inr l" using assms(4) by simp
  ultimately show ?thesis using assms by (intro exI [of _ ?b]) auto
qed

lemma readline_end:
  assumes "newline \<notin> set l" and "length l < sz" and "sz \<le> length b"
  shows "readline ok sz l b = (if ok then Inr (None, []) else Inl (Exits (-1)))"
  using readline_loop_stored [of l "[]" sz b ok "[]"] assms by (auto simp: readline_def)

lemma fifo_parent_line:
  assumes "newline \<notin> set l" and "length l + 2 \<le> FIFO_MAXLINE" and "length b = FIFO_MAXLINE" and "nul \<notin> set l"
  shows "\<exists>b'. fifo_parent ok (l @ newline # r) b out = fifo_parent ok r b' (out @ l @ [newline]) \<and> length b' = FIFO_MAXLINE"
proof -
  obtain b' where "readline ok FIFO_MAXLINE (l @ newline # r) b = Inr (Some b', r)" "c_str b' = Inr (l @ [newline])" "length b' = length b"
    using readline_line [of l FIFO_MAXLINE b ok r] assms by auto
  then have "fifo_parent ok (l @ newline # r) b out = fifo_parent ok r b' (out @ l @ [newline])"
    by (subst fifo_parent.simps) simp
  with \<open>length b' = length b\<close> assms(3) show ?thesis by auto
qed

lemma fifo_parent_end:
  assumes "newline \<notin> set t" and "length t < FIFO_MAXLINE" and "length b = FIFO_MAXLINE"
  shows "fifo_parent True t b out = Inr (out @ closed_line)"
  using readline_end [of t FIFO_MAXLINE b True] assms by (subst fifo_parent.simps) simp

text \<open>A line without its newline: no newline or terminator in it, and short enough for \<open>readline\<close>.\<close>

definition fifo_line :: "string \<Rightarrow> bool" where
  "fifo_line l \<longleftrightarrow> newline \<notin> set l \<and> nul \<notin> set l \<and> length l + 2 \<le> FIFO_MAXLINE"

definition unlines :: "string list \<Rightarrow> string" where
  "unlines ls = concat (map (\<lambda>l. l @ [newline]) ls)"

lemma fifo_parent_lines:
  assumes "\<forall>l \<in> set ls. fifo_line l" and "length b = FIFO_MAXLINE"
  shows "\<exists>b'. fifo_parent ok (unlines ls @ r) b out = fifo_parent ok r b' (out @ unlines ls) \<and> length b' = FIFO_MAXLINE"
  using assms
proof (induction ls arbitrary: b out)
  case Nil
  then show ?case by (auto simp: unlines_def)
next
  case (Cons l ls)
  have "newline \<notin> set l" "length l + 2 \<le> FIFO_MAXLINE" "nul \<notin> set l" using Cons.prems(1) by (auto simp: fifo_line_def)
  then obtain b1 where b1: "fifo_parent ok (l @ newline # unlines ls @ r) b out = fifo_parent ok (unlines ls @ r) b1 (out @ l @ [newline])"
      "length b1 = FIFO_MAXLINE"
    using fifo_parent_line [of l b ok "unlines ls @ r" out] Cons.prems(2) by blast
  obtain b2 where "fifo_parent ok (unlines ls @ r) b1 (out @ l @ [newline]) = fifo_parent ok r b2 ((out @ l @ [newline]) @ unlines ls)"
      "length b2 = FIFO_MAXLINE"
    using Cons.IH [of b1 "out @ l @ [newline]"] Cons.prems(1) b1(2) by auto
  with b1(1) show ?case by (auto simp: unlines_def)
qed

lemma fifo_child_all: "nul \<notin> set inp \<Longrightarrow> fifo_child inp = Inr inp"
  using pump_all [of FIFO_MAXLINE "replicate FIFO_MAXLINE None" inp "[]"] by (simp add: fifo_child_def FIFO_MAXLINE_def)

lemma nul_unlines: "\<forall>l \<in> set ls. fifo_line l \<Longrightarrow> nul \<notin> set (unlines ls)"
  by (auto simp: unlines_def fifo_line_def)

lemma length_fresh: "length (replicate FIFO_MAXLINE None :: cbuf) = FIFO_MAXLINE"
  by simp

section \<open>The filter\<close>

lemma tolower_code: "isupper x \<Longrightarrow> 97 \<le> (of_char (tolower x) :: nat) \<and> (of_char (tolower x) :: nat) \<le> 122"
  by (simp add: tolower_def isupper_def)

lemma of_char_ctrl: "of_char nul = (0 :: nat)" "of_char newline = (10 :: nat)"
  by simp_all

lemma tolower_ctrl: "tolower x = newline \<longleftrightarrow> x = newline" "tolower x = nul \<longleftrightarrow> x = nul"
proof -
  have "tolower x \<noteq> newline \<and> tolower x \<noteq> nul" if "isupper x" using tolower_code [OF that] of_char_ctrl by auto
  moreover have "x \<noteq> newline \<and> x \<noteq> nul" if "isupper x" using that of_char_ctrl by (auto simp: isupper_def)
  ultimately show "tolower x = newline \<longleftrightarrow> x = newline" "tolower x = nul \<longleftrightarrow> x = nul"
    by (auto simp: tolower_def)
qed

lemma ctrl_map: "newline \<in> tolower ` A \<longleftrightarrow> newline \<in> A" "nul \<in> tolower ` A \<longleftrightarrow> nul \<in> A"
proof -
  have "newline = tolower x \<longleftrightarrow> newline = x" "nul = tolower x \<longleftrightarrow> nul = x" for x
    using tolower_ctrl [of x] by auto
  then show "newline \<in> tolower ` A \<longleftrightarrow> newline \<in> A" "nul \<in> tolower ` A \<longleftrightarrow> nul \<in> A"
    by (simp_all add: image_iff)
qed

lemma myuclc_map: "myuclc xs = map tolower xs"
  by (induction xs) (simp_all add: tolower_def)

lemma filter_loop_line:
  assumes "newline \<notin> set l" "nul \<notin> set (l @ newline # r)" "length l + 2 \<le> PAGER_MAXLINE" and "length b = PAGER_MAXLINE"
  shows "\<exists>b'. filter_loop (l @ newline # r) b out = filter_loop r b' (out @ prompt @ l @ [newline]) \<and> length b' = PAGER_MAXLINE"
proof -
  have "take_line (PAGER_MAXLINE - 1) (l @ newline # r) = (l @ [newline], r)"
    using take_line_newline [of l "PAGER_MAXLINE - 1" r] assms by simp
  then obtain b' where "fgets PAGER_MAXLINE (l @ newline # r) b = Inr (Some (b', r))" "c_str b' = Inr (l @ [newline])" "length b' = length b"
    using fgets_line [of PAGER_MAXLINE b "l @ newline # r"] assms by auto
  then show ?thesis using assms(4) by (subst filter_loop.simps) auto
qed

lemma filter_loop_lines:
  assumes "\<forall>l \<in> set ls. newline \<notin> set l \<and> nul \<notin> set l \<and> length l + 2 \<le> PAGER_MAXLINE" and "length b = PAGER_MAXLINE"
  shows "filter_loop (unlines ls) b out = Inr (out @ concat (map (\<lambda>l. prompt @ l @ [newline]) ls) @ prompt)"
  using assms
proof (induction ls arbitrary: b out)
  case Nil
  then show ?case by (subst filter_loop.simps) (simp add: fgets_def unlines_def)
next
  case (Cons l ls)
  have nuls: "nul \<notin> set (l @ newline # unlines ls)" using Cons.prems(1) by (auto simp: unlines_def)
  obtain b' where "filter_loop (l @ newline # unlines ls) b out = filter_loop (unlines ls) b' (out @ prompt @ l @ [newline])" "length b' = PAGER_MAXLINE"
    using filter_loop_line [of l "unlines ls" b out] nuls Cons.prems by auto
  with Cons.IH [of b' "out @ prompt @ l @ [newline]"] Cons.prems(1) show ?case by (simp add: unlines_def)
qed

lemma myuclc_unlines: "myuclc (unlines ls) = unlines (map myuclc ls)"
  using tolower_ctrl(1) [of newline] by (induction ls) (simp_all add: unlines_def myuclc_map)

section \<open>Properties of the pipes\<close>



text \<open>
  C39: what \<open>readline\<close> loses: a last line without newline is dropped, and of a line that fills the
  array the next byte, whatever it is, is read and thrown away.
\<close>

theorem fifo_losses:
  assumes "\<forall>l \<in> set ls. fifo_line l" and "newline \<notin> set t" "nul \<notin> set t" "length t < FIFO_MAXLINE"
    and "newline \<notin> set l" "nul \<notin> set l" "length l + 1 = FIFO_MAXLINE" "x \<noteq> nul"
  shows "fifo_demo (unlines ls @ t) = Inr (unlines ls @ closed_line)
    \<and> fifo_demo (l @ x # unlines ls) = Inr (l @ unlines ls @ closed_line)"
proof
  obtain b where b: "fifo_parent True (unlines ls @ t) (replicate FIFO_MAXLINE None) [] = fifo_parent True t b ([] @ unlines ls)"
      "length b = FIFO_MAXLINE"
    using fifo_parent_lines [OF assms(1) length_fresh] by blast
  have "nul \<notin> set (unlines ls @ t)" using nul_unlines [OF assms(1)] assms(3) by simp
  from fifo_child_all [OF this] b fifo_parent_end [OF assms(2,4) b(2)]
  show "fifo_demo (unlines ls @ t) = Inr (unlines ls @ closed_line)" by (simp add: fifo_demo_def)
next
  obtain b where b: "readline True FIFO_MAXLINE (l @ x # unlines ls) (replicate FIFO_MAXLINE None) = Inr (Some b, unlines ls)"
      "c_str b = Inr l" "length b = FIFO_MAXLINE"
    using readline_full [of l FIFO_MAXLINE "replicate FIFO_MAXLINE None" True x "unlines ls"] assms(5-7) by auto
  obtain b' where b': "fifo_parent True (unlines ls @ []) b l = fifo_parent True [] b' (l @ unlines ls)" "length b' = FIFO_MAXLINE"
    using fifo_parent_lines [OF assms(1) b(3)] by blast
  have "fifo_parent True (l @ x # unlines ls) (replicate FIFO_MAXLINE None) [] = Inr (l @ unlines ls @ closed_line)"
    using b b' fifo_parent_end [of "[]" b' "l @ unlines ls"] by (subst fifo_parent.simps) (simp add: FIFO_MAXLINE_def)
  moreover have "nul \<notin> set (l @ x # unlines ls)" using nul_unlines [OF assms(1)] assms(6,8) by simp
  ultimately show "fifo_demo (l @ x # unlines ls) = Inr (l @ unlines ls @ closed_line)"
    using fifo_child_all by (simp add: fifo_demo_def)
qed

theorem fifo_losses_witness:
  "fifo_demo (unlines [''one''] @ ''two'') = Inr (unlines [''one''] @ closed_line)
   \<and> fifo_demo (replicate 1023 CHR ''a'' @ CHR ''b'' # unlines [''c'']) = Inr (replicate 1023 CHR ''a'' @ unlines [''c''] @ closed_line)"
  using fifo_losses [of "[''one'']" "''two''" "replicate 1023 CHR ''a''" "CHR ''b''"]
    fifo_losses [of "[''c'']" "''two''" "replicate 1023 CHR ''a''" "CHR ''b''"]
  by (simp add: fifo_line_def FIFO_MAXLINE_def)

text \<open>
  Both pagers hand the pager the whole text of a file, and the filter shows every line in lower
  case behind a prompt: none of the three programs loses text that has no terminator in it.
\<close>

lemma pagers_complete:
  assumes "nul \<notin> set content" and "\<forall>l \<in> set ls. newline \<notin> set l \<and> nul \<notin> set l \<and> length l + 2 \<le> PAGER_MAXLINE"
  shows "pipe_pager 2 (Some content) = Inr content \<and> popen_pager 2 (Some content) = Inr content
    \<and> pipe_filter (unlines ls) = Inr (concat (map (\<lambda>l. prompt @ map tolower l @ [newline]) ls) @ prompt @ [newline])"
proof -
  have "\<forall>l \<in> set (map myuclc ls). newline \<notin> set l \<and> nul \<notin> set l \<and> length l + 2 \<le> PAGER_MAXLINE"
    using assms(2) by (simp add: myuclc_map ctrl_map)
  then have "pipe_filter (unlines ls) = Inr (concat (map (\<lambda>l. prompt @ l @ [newline]) (map myuclc ls)) @ prompt @ [newline])"
    using filter_loop_lines [of "map myuclc ls" "replicate PAGER_MAXLINE None" "[]"] by (simp add: pipe_filter_def myuclc_unlines)
  moreover have "pump PAGER_MAXLINE content (replicate PAGER_MAXLINE None) [] = Inr content"
    using pump_all [of PAGER_MAXLINE "replicate PAGER_MAXLINE None" content "[]"] assms(1) by (simp add: PAGER_MAXLINE_def)
  ultimately show ?thesis by (simp add: pipe_pager_def popen_pager_def myuclc_map comp_def)
qed

end
