(* ===== verification/Coprocess.thy ===== *)
theory Coprocess
  imports Pipe_Streams C_Text
begin

text \<open>
  The adding coprocess \<open>IPC/add2.c\<close> and the program \<open>IPC/coprocess.c\<close> that drives it through two
  pipes, a line at a time. The lemmas show that the pair prints the sum of the two numbers of every
  line, and where \<open>add2\<close> leaves its array or the range of \<open>int\<close>.
\<close>

section \<open>Reading two numbers\<close>

definition MAXLINE :: nat where
  "MAXLINE = 2048"

definition isspace :: "char \<Rightarrow> bool" where
  "isspace x \<longleftrightarrow> x = CHR '' '' \<or> (9 \<le> (of_char x :: nat) \<and> (of_char x :: nat) \<le> 13)"

definition isdigit :: "char \<Rightarrow> bool" where
  "isdigit x \<longleftrightarrow> digit_val x \<noteq> None"

text \<open>
  The conversion \<open>%d\<close>: space is skipped, then a sign and at least one digit; a number that is no
  \<open>int\<close> is undefined.
\<close>

definition scan_int :: "string \<Rightarrow> (int \<times> string) option c" where
  "scan_int inp =
     (let s = dropWhile isspace inp;
          neg = (s \<noteq> [] \<and> hd s = CHR ''-'');
          t = (if s \<noteq> [] \<and> (hd s = CHR ''-'' \<or> hd s = CHR ''+'') then tl s else s);
          ds = takeWhile isdigit t;
          v = (if neg then - int (read_digits 0 ds) else int (read_digits 0 ds))
      in if ds = [] then Inr None
         else if in_int v then Inr (Some (v, dropWhile isdigit t)) else Inl Overflow)"

definition sscanf_dd :: "string \<Rightarrow> (int \<times> int) option c" where
  "sscanf_dd s = bindE (scan_int s) (\<lambda>r. case r of None \<Rightarrow> Inr None
     | Some (a, s1) \<Rightarrow> bindE (scan_int s1) (\<lambda>r1. case r1 of None \<Rightarrow> Inr None | Some (b, s2) \<Rightarrow> Inr (Some (a, b))))"

section \<open>The coprocess\<close>

definition invalid_args :: string where
  "invalid_args = ''invalid args'' @ [newline]"

text \<open>One round of the loop of \<open>add2\<close>: the bytes read, the answer written, and its array.\<close>

definition add2_step :: "string \<Rightarrow> cbuf \<Rightarrow> (string \<times> cbuf) c" where
  "add2_step chunk line =
     bindE (read_into chunk line) (\<lambda>l1.
     bindE (put_char (length chunk) nul l1) (\<lambda>l2.
     bindE (c_str l2) (\<lambda>s.
     bindE (sscanf_dd s) (\<lambda>r. case r of
         None \<Rightarrow> Inr (invalid_args, l2)
       | Some (int1, int2) \<Rightarrow>
           if \<not> in_int (int1 + int2) then Inl Overflow
           else bindE (read_into (dec (int1 + int2) @ [newline, nul]) l2) (\<lambda>l3.
                bindE (c_str l3) (\<lambda>t. Inr (t, l3)))))))"

text \<open>The loop over what \<open>read\<close> returns, up to an end of file or an error.\<close>

fun add2 :: "string list \<Rightarrow> cbuf \<Rightarrow> string \<Rightarrow> string c" where
  "add2 [] line out = Inr out"
| "add2 (chunk # cs) line out =
     (if chunk = [] then Inr out
      else bindE (add2_step chunk line) (\<lambda>(t, line'). add2 cs line' (out @ t)))"

section \<open>The driver\<close>

text \<open>
  The parent writes each line into one pipe and reads the answer from the other. The child reads
  what was written in one piece; a line of which \<open>strlen\<close> is zero sends nothing, and both wait.
\<close>

function coproc_parent :: "string \<Rightarrow> cbuf \<Rightarrow> cbuf \<Rightarrow> string \<Rightarrow> string c" where
  "coproc_parent inp line cline out = bindE (fgets MAXLINE inp line) (\<lambda>r. case r of None \<Rightarrow> Inr out
     | Some (l1, rest) \<Rightarrow> bindE (c_str l1) (\<lambda>s.
         if s = [] then Inl Blocks
         else bindE (add2_step s cline) (\<lambda>(t, cline').
              bindE (read_into t l1) (\<lambda>l2.
                if t = [] then Inr out
                else bindE (put_char (length t) nul l2) (\<lambda>l3.
                     bindE (c_str l3) (\<lambda>u.
                       if length rest < length inp then coproc_parent rest l3 cline' (out @ u) else Inl Blocks))))))"
  by pat_completeness auto
termination by (relation "measure (\<lambda>(inp, line, cline, out). length inp)") auto

declare coproc_parent.simps [simp del]

text \<open>
  The child before it becomes \<open>add2\<close>: its ends \<open>r\<close> and \<open>w\<close> of the pipes, and what the calls of
  \<open>dup2\<close> and \<open>execl\<close> return.
\<close>

definition coproc_child :: "int \<Rightarrow> int \<Rightarrow> int \<Rightarrow> int \<Rightarrow> int \<Rightarrow> unit c" where
  "coproc_child r w d0 d1 ex =
     (if r \<noteq> 0 \<and> d0 \<noteq> 0 then Inl (Exits (-1))
      else if w \<noteq> 1 \<and> d1 \<noteq> 1 then Inl (Exits (-1))
      else if ex < 0 then Inl (Exits (-1)) else Inr ())"

text \<open>The program, with what \<open>sigaction\<close>, the two \<open>pipe\<close> calls and \<open>fork\<close> return, in the parent.\<close>

definition coprocess :: "int \<Rightarrow> int \<Rightarrow> int \<Rightarrow> int \<Rightarrow> string \<Rightarrow> string c" where
  "coprocess sa p1 p2 pid inp =
     (if sa = -1 \<or> p1 < 0 \<or> p2 < 0 \<or> pid < 0 then Inl (Exits (-1))
      else coproc_parent inp (replicate MAXLINE None) (replicate MAXLINE None) [])"

text \<open>
  The parent once the coprocess has ended: a round of its loop, with the status it exits with and what it has printed. If the other end of the first pipe is
  closed already (\<open>gone\<close>), \<open>write\<close> raises \<open>SIGPIPE\<close>; otherwise \<open>read\<close> returns 0 and the loop is left.
\<close>

definition sig_pipe :: "string \<Rightarrow> int \<times> string" where
  "sig_pipe out = (1, out @ ''Caught SIGPIPE'' @ [newline])"

definition coproc_gone :: "bool \<Rightarrow> string \<Rightarrow> cbuf \<Rightarrow> string \<Rightarrow> (int \<times> string) c" where
  "coproc_gone gone inp line out = bindE (fgets MAXLINE inp line) (\<lambda>r. case r of None \<Rightarrow> Inr (0, out)
     | Some (l1, rest) \<Rightarrow> bindE (c_str l1) (\<lambda>s. Inr (if gone \<and> s \<noteq> [] then sig_pipe out else (0, out))))"

section \<open>Numbers in text\<close>

lemma isdigit_digit: "d < 10 \<Longrightarrow> isdigit (digit d)"
  by (simp add: isdigit_def)

lemma dec_nat_isdigit: "x \<in> set (dec_nat n) \<Longrightarrow> isdigit x"
  using dec_nat_digits isdigit_digit by blast

lemma digit_facts: "isdigit x \<Longrightarrow> \<not> isspace x \<and> x \<noteq> CHR ''-'' \<and> x \<noteq> CHR ''+'' \<and> x \<noteq> newline"
  by (auto simp: isdigit_def isspace_def digit_val_def Let_def split: if_splits)

lemma scan_digits:
  assumes "rest = [] \<or> \<not> isdigit (hd rest)"
  shows "takeWhile isdigit (dec_nat n @ rest) = dec_nat n" "dropWhile isdigit (dec_nat n @ rest) = rest"
proof -
  have "takeWhile isdigit rest = []" "dropWhile isdigit rest = rest" using assms by (cases rest; auto)+
  then show "takeWhile isdigit (dec_nat n @ rest) = dec_nat n" "dropWhile isdigit (dec_nat n @ rest) = rest"
    using dec_nat_isdigit [of _ n] by (simp_all add: takeWhile_append2 dropWhile_append2)
qed

lemma scan_int_dec:
  assumes "in_int i" and "rest = [] \<or> \<not> isdigit (hd rest)" and "\<forall>x \<in> set sp. isspace x"
  shows "scan_int (sp @ dec i @ rest) = Inr (Some (i, rest))"
proof -
  obtain d ds where d: "dec_nat (nat \<bar>i\<bar>) = d # ds" by (cases "dec_nat (nat \<bar>i\<bar>)") auto
  then have dd: "isdigit d" using dec_nat_isdigit [of d "nat \<bar>i\<bar>"] by simp
  note facts = digit_facts [OF dd] and scan = scan_digits [OF assms(2), of "nat \<bar>i\<bar>"]
  have sp: "dropWhile isspace (sp @ xs) = dropWhile isspace xs" for xs using assms(3) by (simp add: dropWhile_append2)
  have minus: "\<not> isspace (CHR ''-'')" by (simp add: isspace_def)
  show ?thesis
  proof (cases "i < 0")
    case True
    then have "dropWhile isspace (sp @ dec i @ rest) = CHR ''-'' # dec_nat (nat \<bar>i\<bar>) @ rest"
      using sp minus by (simp add: dec_def)
    with True assms(1) scan show ?thesis by (simp add: scan_int_def Let_def read_digits_dec_nat)
  next
    case False
    then have "dropWhile isspace (sp @ dec i @ rest) = dec_nat (nat \<bar>i\<bar>) @ rest"
      using sp d facts by (simp add: dec_def)
    with False assms(1) scan d facts show ?thesis
      using read_digits_dec_nat [of "nat i"] by (simp add: scan_int_def Let_def)
  qed
qed

definition sum_line :: "int \<times> int \<Rightarrow> string" where
  "sum_line p = dec (fst p) @ '' '' @ dec (snd p) @ [newline]"

lemma sscanf_sum_line:
  assumes "in_int a" and "in_int b"
  shows "sscanf_dd (sum_line (a, b)) = Inr (Some (a, b))"
proof -
  have "\<not> isdigit (CHR '' '')" "\<not> isdigit newline" by (simp_all add: isdigit_def digit_val_def)
  then have "scan_int (dec a @ '' '' @ dec b @ [newline]) = Inr (Some (a, '' '' @ dec b @ [newline]))"
    "scan_int ('' '' @ dec b @ [newline]) = Inr (Some (b, [newline]))"
    using scan_int_dec [OF assms(1), of "'' '' @ dec b @ [newline]" "[]"] scan_int_dec [OF assms(2), of "[newline]" "'' ''"]
    by (simp_all add: isspace_def)
  then show ?thesis by (simp add: sscanf_dd_def sum_line_def)
qed

lemma length_dec: "in_int i \<Longrightarrow> length (dec i) \<le> 11"
proof -
  assume "in_int i"
  then have "nat (- i) < 10 ^ 10" "nat i < 10 ^ 10" by (auto simp: in_int_def)
  then have "length (dec_nat (nat (- i))) \<le> 10" "length (dec_nat (nat i)) \<le> 10" by (auto intro: length_dec_nat)
  then show ?thesis by (simp add: dec_def)
qed

lemma nul_sum_line: "nul \<notin> set (sum_line p)"
  using dec_no_nul by (simp add: sum_line_def)

lemma length_sum_line: "in_int a \<Longrightarrow> in_int b \<Longrightarrow> length (sum_line (a, b)) \<le> 24"
  using length_dec [of a] length_dec [of b] by (simp add: sum_line_def)

text \<open>A text stored at the start of an array and terminated by hand.\<close>

lemma store_and_end:
  assumes "length xs < length b" and "nul \<notin> set xs"
  shows "\<exists>l1 l2. read_into xs b = Inr l1 \<and> put_char (length xs) nul l1 = Inr l2 \<and> c_str l2 = Inr xs \<and> length l2 = length b"
proof -
  let ?l1 = "map Some xs @ drop (length xs) b"
  have "drop (length xs) b \<noteq> []" using assms(1) by simp
  then have "put_char (length xs) nul ?l1 = Inr (map Some (xs @ [nul]) @ tl (drop (length xs) b))" by (rule put_char_next)
  moreover have "c_str (map Some (xs @ [nul]) @ tl (drop (length xs) b)) = Inr xs" using assms(2) by simp
  ultimately show ?thesis using assms(1) by (simp add: read_into_def)
qed

lemma add2_step_sum:
  assumes "in_int a" "in_int b" and "length line = MAXLINE"
  shows "if in_int (a + b) then \<exists>l. add2_step (sum_line (a, b)) line = Inr (dec (a + b) @ [newline], l) \<and> length l = MAXLINE
         else add2_step (sum_line (a, b)) line = Inl Overflow"
proof -
  have "length (sum_line (a, b)) < length line" using length_sum_line [OF assms(1,2)] assms(3) by (simp add: MAXLINE_def)
  then obtain l1 l2 where l: "read_into (sum_line (a, b)) line = Inr l1" "put_char (length (sum_line (a, b))) nul l1 = Inr l2"
      "c_str l2 = Inr (sum_line (a, b))" "length l2 = MAXLINE"
    using store_and_end [OF _ nul_sum_line, of "(a, b)" line] assms(3) by auto
  show ?thesis
  proof (cases "in_int (a + b)")
    case True
    let ?t = "dec (a + b) @ [newline]"
    let ?l3 = "map Some (?t @ [nul]) @ drop (length (?t @ [nul])) l2"
    have fit: "length (dec (a + b)) + 2 \<le> MAXLINE" using length_dec [OF True] by (simp add: MAXLINE_def)
    have "read_into (dec (a + b) @ [newline, nul]) l2 = Inr ?l3" using fit l(4) by (simp add: read_into_def)
    moreover have "c_str ?l3 = Inr ?t" using c_str_terminated [of ?t] dec_no_nul [of "a + b"] by simp
    moreover have "length ?l3 = MAXLINE" using fit l(4) by simp
    ultimately have "add2_step (sum_line (a, b)) line = Inr (?t, ?l3)"
      using l True by (simp add: add2_step_def sscanf_sum_line [OF assms(1,2)])
    with \<open>length ?l3 = MAXLINE\<close> show ?thesis unfolding if_P [OF True] by blast
  next
    case False
    with l show ?thesis by (simp add: add2_step_def sscanf_sum_line [OF assms(1,2)])
  qed
qed

lemma take_sum_line: "take_line n (sum_line p @ r) = (sum_line p, r)" if "length (sum_line p) \<le> n"
proof -
  have "newline \<notin> set (dec_nat n)" for n using dec_nat_isdigit [of newline n] digit_facts [of newline] by blast
  then have nn: "newline \<notin> set (dec i)" for i by (simp add: dec_def)
  have eq: "sum_line p @ r = (dec (fst p) @ '' '' @ dec (snd p)) @ newline # r" by (simp add: sum_line_def)
  have "length (dec (fst p) @ '' '' @ dec (snd p)) < n" using that by (simp add: sum_line_def)
  then show ?thesis unfolding eq using nn take_line_newline [of "dec (fst p) @ '' '' @ dec (snd p)" n r]
    by (simp add: sum_line_def)
qed

lemma coproc_parent_line:
  assumes "in_int a" "in_int b" "in_int (a + b)" and "length line = MAXLINE" "length cline = MAXLINE" and "nul \<notin> set r"
  shows "\<exists>line' cline'. coproc_parent (sum_line (a, b) @ r) line cline out
      = coproc_parent r line' cline' (out @ dec (a + b) @ [newline]) \<and> length line' = MAXLINE \<and> length cline' = MAXLINE"
proof -
  have len: "length (sum_line (a, b)) \<le> MAXLINE - 1" using length_sum_line [OF assms(1,2)] by (simp add: MAXLINE_def)
  have ne: "sum_line (a, b) \<noteq> []" by (simp add: sum_line_def)
  have "nul \<notin> set (sum_line (a, b) @ r)" using assms(6) nul_sum_line by simp
  then obtain l1 where l1: "fgets MAXLINE (sum_line (a, b) @ r) line = Inr (Some (l1, r))" "c_str l1 = Inr (sum_line (a, b))" "length l1 = MAXLINE"
    using fgets_line [of MAXLINE line "sum_line (a, b) @ r"] take_sum_line [OF len, of r] assms(4) ne by (auto simp: MAXLINE_def)
  let ?t = "dec (a + b) @ [newline]"
  obtain cl where cl: "add2_step (sum_line (a, b)) cline = Inr (?t, cl)" "length cl = MAXLINE"
    using add2_step_sum [OF assms(1,2,5)] assms(3) by auto
  have "length ?t < length l1" using length_dec [OF assms(3)] l1(3) by (simp add: MAXLINE_def)
  then obtain l2 l3 where l3: "read_into ?t l1 = Inr l2" "put_char (length ?t) nul l2 = Inr l3" "c_str l3 = Inr ?t" "length l3 = MAXLINE"
    using store_and_end [of ?t l1] dec_no_nul l1(3) by auto
  have "coproc_parent (sum_line (a, b) @ r) line cline out = coproc_parent r l3 cl (out @ ?t)"
    using l1 cl l3 ne by (subst coproc_parent.simps) simp
  with l3(4) cl(2) show ?thesis by blast
qed

lemma coproc_parent_lines:
  assumes "\<forall>(a, b) \<in> set ps. in_int a \<and> in_int b \<and> in_int (a + b)" and "length line = MAXLINE" "length cline = MAXLINE"
  shows "coproc_parent (concat (map sum_line ps)) line cline out = Inr (out @ concat (map (\<lambda>(a, b). dec (a + b) @ [newline]) ps))"
  using assms
proof (induction ps arbitrary: line cline out)
  case Nil
  then show ?case by (subst coproc_parent.simps) (simp add: fgets_def)
next
  case (Cons p ps)
  obtain a b where p: "p = (a, b)" by fastforce
  have "nul \<notin> set (concat (map sum_line ps))" using nul_sum_line by auto
  then obtain l c where "coproc_parent (sum_line (a, b) @ concat (map sum_line ps)) line cline out
      = coproc_parent (concat (map sum_line ps)) l c (out @ dec (a + b) @ [newline])" "length l = MAXLINE" "length c = MAXLINE"
    using coproc_parent_line [of a b line cline "concat (map sum_line ps)" out] Cons.prems p by auto
  with Cons.IH [of l c "out @ dec (a + b) @ [newline]"] Cons.prems(1) p show ?case by simp
qed

section \<open>Properties of the coprocess\<close>



text \<open>
  C40: where \<open>add2\<close> goes wrong: a read that fills the array makes it store the terminator behind its
  end, and two numbers whose sum is outside \<open>int\<close> overflow. Short input without a number is
  answered with the error line.
\<close>

theorem add2_limits:
  assumes "length line = MAXLINE" and "length chunk = MAXLINE" and "in_int a" "in_int b" "\<not> in_int (a + b)"
    and "\<forall>x \<in> set w. \<not> isdigit x \<and> \<not> isspace x \<and> x \<noteq> CHR ''-'' \<and> x \<noteq> CHR ''+'' \<and> x \<noteq> nul" and "length w < MAXLINE"
  shows "add2_step chunk line = Inl OutOfBounds
    \<and> add2_step (dec a @ '' '' @ dec b @ [newline]) line = Inl Overflow
    \<and> (\<exists>l. add2_step w line = Inr (invalid_args, l))"
proof (intro conjI)
  show "add2_step chunk line = Inl OutOfBounds"
    using assms(1,2) by (simp add: add2_step_def read_into_def put_char_def aset_def)
  show "add2_step (dec a @ '' '' @ dec b @ [newline]) line = Inl Overflow"
    using add2_step_sum [OF assms(3,4,1)] assms(5) by (simp add: sum_line_def)
  have "dropWhile isspace w = w" using assms(6) by (cases w) auto
  moreover have "takeWhile isdigit w = []" using assms(6) by (cases w) auto
  ultimately have "sscanf_dd w = Inr None" using assms(6) by (cases w) (auto simp: sscanf_dd_def scan_int_def Let_def)
  moreover have "nul \<notin> set w" using assms(6) by blast
  ultimately show "\<exists>l. add2_step w line = Inr (invalid_args, l)"
    using store_and_end [of w line] assms(1,7) by (auto simp: add2_step_def)
qed

theorem add2_limits_witness:
  "add2_step (replicate MAXLINE CHR ''1'') (replicate MAXLINE None) = Inl OutOfBounds
   \<and> add2_step (dec 2147483647 @ '' '' @ dec 1 @ [newline]) (replicate MAXLINE None) = Inl Overflow"
proof -
  have "\<forall>x \<in> set ''bad''. \<not> isdigit x \<and> \<not> isspace x \<and> x \<noteq> CHR ''-'' \<and> x \<noteq> CHR ''+'' \<and> x \<noteq> nul"
    by (simp add: isdigit_def digit_val_def isspace_def)
  from add2_limits [OF _ _ _ _ _ this, of "replicate MAXLINE None" "replicate MAXLINE CHR ''1''" 2147483647 1]
  show ?thesis by (simp add: in_int_def MAXLINE_def)
qed

text \<open>After the end of the coprocess the next line ends the parent, too, with status 1 or 0 and all earlier answers printed.\<close>

lemma coproc_gone_ends:
  assumes "inp \<noteq> []" and "nul \<notin> set inp" and "length line = MAXLINE"
  shows "coproc_gone gone inp line out = Inr (if gone then sig_pipe out else (0, out))"
proof -
  have two: "2 \<le> MAXLINE" by (simp add: MAXLINE_def)
  obtain l r b' where f: "fgets MAXLINE inp line = Inr (Some (b', r))" "c_str b' = Inr l" "inp = l @ r" "length r < length inp"
    using fgets_line [OF two eq_refl [OF assms(3) [symmetric]] assms(1,2)] by (elim exE conjE)
  from f(3,4) have "l \<noteq> []" by auto
  then show ?thesis using f(1,2) by (simp add: coproc_gone_def)
qed

end
