(* ===== verification/File_Copy.thy ===== *)
theory File_Copy
  imports Unix_Prelude
begin

text \<open>
  The file copy of \<open>IPC/mmap_demo.c\<close>, which maps both files piece by piece. The lemmas show that the
  loop ends with an exact copy for a file of any size, as long as aligned mappings succeed.
\<close>

definition COPYINCR :: nat where
  "COPYINCR = 1024 * 1024 * 1024"

text \<open>
  The loop from offset \<open>fsz\<close>; \<open>ms\<close> and \<open>md\<close> tell at which offsets the source and the destination can
  be mapped. \<open>memcpy\<close> replaces \<open>copysz\<close> bytes of the destination; a step of zero bytes would be
  repeated forever.
\<close>

function copy_loop ::
  "nat \<Rightarrow> (nat \<Rightarrow> bool) \<Rightarrow> (nat \<Rightarrow> bool) \<Rightarrow> string \<Rightarrow> nat \<Rightarrow> string \<Rightarrow> string c" where
  "copy_loop incr ms md src fsz dst =
     (if fsz < length src
      then let copysz = (if length src - fsz > incr then incr else length src - fsz)
           in if \<not> ms fsz then Inl (Exits (-1))
              else if \<not> md fsz then Inl (Exits (-1))
              else if copysz = 0 then Inl Blocks
              else copy_loop incr ms md src (fsz + copysz)
                     (take fsz dst @ take copysz (drop fsz src) @ drop (fsz + copysz) dst)
      else Inr dst)"
  by pat_completeness auto
termination by (relation "measure (\<lambda>(incr, ms, md, src, fsz, dst). length src - fsz)") (auto split: if_splits)

declare copy_loop.simps [simp del]

text \<open>
  The program: the number of arguments, the content of the source or \<open>None\<close>, and whether \<open>open\<close> of
  the destination, \<open>fstat\<close> and \<open>ftruncate\<close> work. \<open>ftruncate\<close> extends the new file with zeroes.
\<close>

definition mmap_demo ::
  "nat \<Rightarrow> string option \<Rightarrow> bool \<Rightarrow> bool \<Rightarrow> bool \<Rightarrow> (nat \<Rightarrow> bool) \<Rightarrow> (nat \<Rightarrow> bool) \<Rightarrow> string c" where
  "mmap_demo argc file out_ok stat_ok trunc_ok ms md =
     (if argc \<noteq> 3 then Inl (Exits 127) else case file of None \<Rightarrow> Inl (Exits (-1))
      | Some src \<Rightarrow>
          if \<not> out_ok then Inl (Exits (-1))
          else if \<not> stat_ok then Inl (Exits (-1))
          else if \<not> trunc_ok then Inl (Exits (-1))
          else copy_loop COPYINCR ms md src 0 (replicate (length src) (CHR 0x00)))"

section \<open>The copy\<close>

lemma copy_step:
  assumes "take fsz dst = take fsz src" and "length dst = length src" and "fsz + n \<le> length src"
  shows "take (fsz + n) (take fsz dst @ take n (drop fsz src) @ drop (fsz + n) dst) = take (fsz + n) src"
    "length (take fsz dst @ take n (drop fsz src) @ drop (fsz + n) dst) = length src"
  using assms by (simp_all add: take_add)

lemma copy_loop_copies:
  assumes "0 < incr" and aligned: "\<forall>f. incr dvd f \<longrightarrow> ms f \<and> md f"
    and "incr dvd fsz \<or> length src \<le> fsz" and "take fsz dst = take fsz src" and "length dst = length src"
  shows "copy_loop incr ms md src fsz dst = Inr src"
  using assms(3-)
proof (induction "length src - fsz" arbitrary: fsz dst rule: less_induct)
  case less
  show ?case
  proof (cases "fsz < length src")
    case False
    then have "dst = src" using less.prems by simp
    with False show ?thesis by (subst copy_loop.simps) simp
  next
    case True
    define n where "n = (if length src - fsz > incr then incr else length src - fsz)"
    let ?dst = "take fsz dst @ take n (drop fsz src) @ drop (fsz + n) dst"
    have n: "0 < n" "fsz + n \<le> length src" using True assms(1) by (auto simp: n_def)
    have "incr dvd fsz" using less.prems(1) True by simp
    then have next_dvd: "incr dvd fsz + n \<or> length src \<le> fsz + n" using True by (auto simp: n_def)
    have "copy_loop incr ms md src (fsz + n) ?dst = Inr src"
      by (rule less.hyps) (use n True next_dvd copy_step [OF less.prems(2,3) n(2)] in auto)
    moreover have "ms fsz \<and> md fsz" using aligned \<open>incr dvd fsz\<close> by blast
    ultimately show ?thesis
      using True n unfolding n_def by (subst copy_loop.simps) (simp add: Let_def)
  qed
qed

text \<open>
  C36: if mappings at multiples of the page size succeed, the program ends and the new file is an
  exact copy of the old one, for a file of any size, the empty file included.
\<close>

theorem mmap_demo_copies:
  assumes "\<forall>f. 4096 dvd f \<longrightarrow> ms f \<and> md f"
  shows "mmap_demo 3 (Some src) True True True ms md = Inr src"
proof -
  have "(4096 :: nat) dvd COPYINCR" by (simp add: COPYINCR_def)
  then have "\<forall>f. COPYINCR dvd f \<longrightarrow> ms f \<and> md f" using assms dvd_trans by blast
  then have "copy_loop COPYINCR ms md src 0 (replicate (length src) (CHR 0x00)) = Inr src"
    by (rule copy_loop_copies [rotated]) (simp_all add: COPYINCR_def)
  then show ?thesis by (simp add: mmap_demo_def)
qed

theorem mmap_demo_copies_witness:
  "mmap_demo 3 (Some ''a file'') True True True (\<lambda>f. 4096 dvd f) (\<lambda>f. 4096 dvd f) = Inr ''a file''"
  by (rule mmap_demo_copies) simp

end
