(* ===== verification/Wait_Status.thy ===== *)
theory Wait_Status
  imports Complex_Main C_Text "HOL-Library.Word"
begin

text \<open>
  The status of a terminated process, as \<open>wait\<close> and \<open>system\<close> report it, and the programs that print
  it: \<open>proc_demos/wait_demo.c\<close>, \<open>proc_demos/system_demo.c\<close> and \<open>proc_demos/time_demo.c\<close>. The lemmas
  show that \<open>pr_exit\<close> reads back what the kernel stored in the 32 bits of a status.
\<close>

unbundle bit_operations_syntax

section \<open>The bits of a status\<close>

type_synonym status = "32 word"

definition WTERMSIG :: "status \<Rightarrow> status" where
  "WTERMSIG s = s AND 0x7f"

definition WIFEXITED :: "status \<Rightarrow> bool" where
  "WIFEXITED s \<longleftrightarrow> WTERMSIG s = 0"

definition WEXITSTATUS :: "status \<Rightarrow> status" where
  "WEXITSTATUS s = drop_bit 8 (s AND 0xff00)"

text \<open>\<open>((signed char) ((status & 0x7f) + 1) >> 1) > 0\<close>\<close>

definition WIFSIGNALED :: "status \<Rightarrow> bool" where
  "WIFSIGNALED s \<longleftrightarrow> 0 < sint (ucast (WTERMSIG s + 1) :: 8 word) div 2"

definition WCOREDUMP :: "status \<Rightarrow> bool" where
  "WCOREDUMP s \<longleftrightarrow> s AND 0x80 \<noteq> 0"

definition WIFSTOPPED :: "status \<Rightarrow> bool" where
  "WIFSTOPPED s \<longleftrightarrow> s AND 0xff = 0x7f"

definition WSTOPSIG :: "status \<Rightarrow> status" where
  "WSTOPSIG s = WEXITSTATUS s"

text \<open>How a process ended or stopped, and the status the kernel makes of it.\<close>

datatype ending = ByExit "8 word" | BySignal "7 word" bool | ByStop "8 word"

primrec encode :: "ending \<Rightarrow> status" where
  "encode (ByExit k) = push_bit 8 (ucast k)"
| "encode (BySignal k core) = ucast k OR (if core then 0x80 else 0)"
| "encode (ByStop k) = push_bit 8 (ucast k) OR 0x7f"

section \<open>Printing a status\<close>

abbreviation line_end :: string where
  "line_end \<equiv> [CHR 0x0A]"

definition dec_word :: "status \<Rightarrow> string" where
  "dec_word w = dec (sint w)"

definition pr_exit :: "status \<Rightarrow> string" where
  "pr_exit s =
     (if WIFEXITED s then ''normal termination, exit status = '' @ dec_word (WEXITSTATUS s) @ line_end
      else if WIFSIGNALED s
      then ''abnormal termination, signal number = '' @ dec_word (WTERMSIG s) @
           (if WCOREDUMP s then ''(core file generated)'' else []) @ line_end
      else if WIFSTOPPED s then ''child stopped, signal number = '' @ dec_word (WSTOPSIG s) @ line_end
      else [])"

text \<open>
  One round of \<open>wait_demo.c\<close> in the parent: what \<open>fork\<close> and \<open>wait\<close> return and the status; \<open>Inl\<close> is the
  value \<open>main\<close> returns.
\<close>

definition wait_round :: "int \<times> int \<times> status \<Rightarrow> string stmt" where
  "wait_round = (\<lambda>(pid, w, s) out. if pid < 0 then Inl (Exits (-1)) else if w \<noteq> pid then Inl (Exits (-1)) else Inr (out @ pr_exit s))"

definition wait_demo :: "int \<times> int \<times> status \<Rightarrow> int \<times> int \<times> status \<Rightarrow> int \<times> int \<times> status \<Rightarrow> string c" where
  "wait_demo r1 r2 r3 = run_stmts [wait_round r1, wait_round r2, wait_round r3] []"

text \<open>\<open>system_demo.c\<close>: the answers of the four calls of \<open>system\<close>.\<close>

definition system_round :: "status \<Rightarrow> string stmt" where
  "system_round s out = (if sint s < 0 then Inl (Exits (-1)) else Inr (out @ pr_exit s))"

definition system_demo :: "status \<Rightarrow> status \<Rightarrow> status \<Rightarrow> status \<Rightarrow> string c" where
  "system_demo s1 s2 s3 s4 = run_stmts (map system_round [s1, s2, s3, s4]) []"

section \<open>Timing a command\<close>

record tms =
  tms_utime :: int
  tms_stime :: int
  tms_cutime :: int
  tms_cstime :: int

text \<open>
  What is printed: the command, times in seconds (before they are rounded to two digits) and text.
  The state keeps the static \<open>clktck\<close> of \<open>pr_times\<close>.
\<close>

datatype time_item = Command string | Seconds string rat | Printed string

record timer =
  clktck :: int
  tm_out :: "time_item list"

text \<open>\<open>sc\<close> is what \<open>sysconf\<close> returns.\<close>

definition pr_times :: "int \<Rightarrow> int \<Rightarrow> tms \<Rightarrow> tms \<Rightarrow> timer stmt" where
  "pr_times sc real_t t0 t1 st =
     (let k = (if clktck st = 0 then sc else clktck st)
      in if clktck st = 0 \<and> sc < 0 then Inl (Exits (-1))
         else let secs = (\<lambda>d. rat_of_int d / rat_of_int k)
              in Inr (st\<lparr>clktck := k, tm_out := tm_out st @
                   [Seconds ''real'' (secs real_t),
                    Seconds ''user'' (secs (tms_utime t1 - tms_utime t0)),
                    Seconds ''sys'' (secs (tms_stime t1 - tms_stime t0)),
                    Seconds ''child user'' (secs (tms_cutime t1 - tms_cutime t0)),
                    Seconds ''child sys'' (secs (tms_cstime t1 - tms_cstime t0))]\<rparr>))"

text \<open>The answers of the calls around a command: \<open>times\<close>, \<open>system\<close>, \<open>times\<close>.\<close>

record cmd_run =
  cr_cmd :: string
  cr_start :: int
  cr_tms0 :: tms
  cr_status :: status
  cr_end :: int
  cr_tms1 :: tms

definition do_cmd :: "int \<Rightarrow> cmd_run \<Rightarrow> timer stmt" where
  "do_cmd sc r st =
     (let st1 = st\<lparr>tm_out := tm_out st @ [Command (cr_cmd r)]\<rparr>
      in if cr_start r = -1 then Inl (Exits (-1))
         else if sint (cr_status r) < 0 then Inl (Exits (-1))
         else if cr_end r = -1 then Inl (Exits (-1))
         else bindE (pr_times sc (cr_end r - cr_start r) (cr_tms0 r) (cr_tms1 r) st1)
                (\<lambda>st2. Inr (st2\<lparr>tm_out := tm_out st2 @ [Printed (pr_exit (cr_status r))]\<rparr>)))"

definition time_demo :: "int \<Rightarrow> cmd_run list \<Rightarrow> timer c" where
  "time_demo sc rs = run_stmts (map (do_cmd sc) rs) \<lparr>clktck = 0, tm_out = []\<rparr>"

section \<open>Reading a status back\<close>

lemma masks: "(0x7f :: status) = mask 7" "(0xff00 :: status) = push_bit 8 (mask 8)" "(0xff :: status) = mask 8"
  by (simp_all add: mask_eq_exp_minus_1 push_bit_eq_mult)

lemma bit_core_int: "bit (0x80 :: int) n \<longleftrightarrow> n = 7"
proof -
  have eq: "(0x80 :: int) = push_bit 7 1" by (simp add: push_bit_eq_mult)
  show ?thesis unfolding eq by (auto simp only: bit_push_bit_iff bit_1_iff possible_bit_int)
qed

lemma bit8: "bit (k :: 8 word) n \<Longrightarrow> n < 8" and bit7: "bit (j :: 7 word) n \<Longrightarrow> n < 7"
  by (auto dest: bit_imp_le_length)

lemma WTERMSIG_encode:
  "WTERMSIG (encode (ByExit k)) = 0" "WTERMSIG (encode (BySignal j core)) = ucast j" "WTERMSIG (encode (ByStop k)) = 0x7f"
proof -
  show "WTERMSIG (encode (ByExit k)) = 0"
    unfolding WTERMSIG_def encode.simps masks by (rule bit_word_eqI) (auto simp: bit_simps)
  show "WTERMSIG (encode (BySignal j core)) = ucast j"
    unfolding WTERMSIG_def encode.simps masks by (rule bit_word_eqI) (auto simp: bit_simps bit_core_int dest: bit7)
  show "WTERMSIG (encode (ByStop k)) = 0x7f"
    unfolding WTERMSIG_def encode.simps masks by (rule bit_word_eqI) (auto simp: bit_simps)
qed

lemma WEXITSTATUS_encode: "WEXITSTATUS (encode (ByExit k)) = ucast k" "WEXITSTATUS (encode (ByStop k)) = ucast k"
proof -
  show "WEXITSTATUS (encode (ByExit k)) = ucast k"
    unfolding WEXITSTATUS_def encode.simps masks by (rule bit_word_eqI) (auto simp: bit_simps dest: bit8)
  show "WEXITSTATUS (encode (ByStop k)) = ucast k"
    unfolding WEXITSTATUS_def encode.simps masks by (rule bit_word_eqI) (auto simp: bit_simps dest: bit8)
qed

lemma WCOREDUMP_encode: "WCOREDUMP (encode (BySignal j core)) = core"
proof -
  have "encode (BySignal j core) AND 0x80 = (if core then 0x80 else 0)"
    by (rule bit_word_eqI) (auto simp: bit_simps bit_core_int dest: bit7)
  then show ?thesis by (simp add: WCOREDUMP_def)
qed

lemma WIFSTOPPED_encode: "WIFSTOPPED (encode (ByStop k))"
  unfolding WIFSTOPPED_def encode.simps masks by (rule bit_word_eqI) (auto simp: bit_simps)

lemma WIFSIGNALED_sig:
  assumes "WTERMSIG s = ucast (j :: 7 word)"
  shows "WIFSIGNALED s \<longleftrightarrow> j \<noteq> 0 \<and> j \<noteq> 0x7f"
proof -
  have lt: "0 \<le> uint j" "uint j < 128" using uint_lt2p [of j] by simp_all
  have "uint (ucast j + 1 :: status) = uint j + 1"
    using lt by (simp add: uint_word_ariths unsigned_ucast_eq take_bit_eq_mod)
  then have "uint (ucast (ucast j + 1 :: status) :: 8 word) = uint j + 1"
    using lt by (simp add: unsigned_ucast_eq take_bit_eq_mod)
  then have "sint (ucast (WTERMSIG s + 1) :: 8 word) = (uint j + 129) mod 256 - 128"
    unfolding assms sint_uint by (simp add: signed_take_bit_eq_take_bit_shift take_bit_eq_mod add.commute)
  then have "sint (ucast (WTERMSIG s + 1) :: 8 word) = (if uint j = 127 then - 128 else uint j + 1)"
    using lt by (auto simp: mod_pos_pos_trivial)
  moreover have "j = 0 \<longleftrightarrow> uint j = 0" "j = 0x7f \<longleftrightarrow> uint j = 127"
    by (auto simp: word_uint_eq_iff)
  moreover have "0 < (uint j + 1) div 2 \<longleftrightarrow> uint j \<noteq> 0"
    using lt(1) pos_imp_zdiv_pos_iff [of 2 "uint j + 1"] by linarith
  ultimately show ?thesis unfolding WIFSIGNALED_def by auto
qed

lemma sint_small:
  assumes "uint (w :: status) < 2 ^ 31"
  shows "sint w = uint w"
proof -
  have "0 \<le> uint w" by simp
  with assms show ?thesis unfolding sint_uint by (simp add: signed_take_bit_eq_take_bit_shift take_bit_eq_mod)
qed

lemma dec_word_ucast: "dec_word (ucast (k :: 8 word)) = dec (uint k)" "dec_word (ucast (j :: 7 word)) = dec (uint j)"
proof -
  have "uint (ucast k :: status) = uint k" "uint (ucast j :: status) = uint j"
    using uint_lt2p [of k] uint_lt2p [of j] by (simp_all add: unsigned_ucast_eq take_bit_eq_mod)
  then show "dec_word (ucast k) = dec (uint k)" "dec_word (ucast j) = dec (uint j)"
    using sint_small [of "ucast k"] sint_small [of "ucast j"] uint_lt2p [of k] uint_lt2p [of j] by (simp_all add: dec_word_def)
qed

lemma ucast_zero: "(ucast (j :: 7 word) :: status) = 0 \<longleftrightarrow> j = 0"
proof -
  have "uint (ucast j :: status) = uint j" using uint_lt2p [of j] by (simp add: unsigned_ucast_eq take_bit_eq_mod)
  then show ?thesis by (simp add: word_uint_eq_iff)
qed

lemma stop_not_signaled: "\<not> WIFSIGNALED (encode (ByStop k))"
proof -
  have "WTERMSIG (encode (ByStop k)) = ucast (0x7f :: 7 word)" unfolding WTERMSIG_encode by simp
  from WIFSIGNALED_sig [OF this] show ?thesis by simp
qed

lemma pr_exit_encode:
  "pr_exit (encode (ByExit k)) = ''normal termination, exit status = '' @ dec (uint k) @ line_end"
  "j \<noteq> 0 \<Longrightarrow> j \<noteq> 0x7f \<Longrightarrow> pr_exit (encode (BySignal j core)) = ''abnormal termination, signal number = '' @ dec (uint j) @
     (if core then ''(core file generated)'' else []) @ line_end"
  "pr_exit (encode (ByStop k)) = ''child stopped, signal number = '' @ dec (uint k) @ line_end"
proof -
  show "pr_exit (encode (ByExit k)) = ''normal termination, exit status = '' @ dec (uint k) @ line_end"
    by (simp only: pr_exit_def WIFEXITED_def WTERMSIG_encode WEXITSTATUS_encode dec_word_ucast simp_thms if_True)
  show "pr_exit (encode (BySignal j core)) = ''abnormal termination, signal number = '' @ dec (uint j) @
      (if core then ''(core file generated)'' else []) @ line_end" if "j \<noteq> 0" "j \<noteq> 0x7f"
    using that WIFSIGNALED_sig [OF WTERMSIG_encode(2)]
    by (simp only: pr_exit_def WIFEXITED_def WTERMSIG_encode WCOREDUMP_encode dec_word_ucast ucast_zero simp_thms if_True if_False)
  show "pr_exit (encode (ByStop k)) = ''child stopped, signal number = '' @ dec (uint k) @ line_end"
    using stop_not_signaled [of k] WIFSTOPPED_encode [of k]
    by (simp add: pr_exit_def WIFEXITED_def WTERMSIG_encode WEXITSTATUS_encode WSTOPSIG_def dec_word_ucast del: encode.simps)
qed

section \<open>Properties of the status programs\<close>

text \<open>
  C37: \<open>pr_exit\<close> reads back from the 32 bits of a status what the kernel put there: the exit code
  from 0 to 255, the signal that killed the process with its core flag, or the signal that stopped
  it. So the three rounds of \<open>wait_demo.c\<close> print the exit code 7 and the signals 6 and 8.
\<close>

theorem pr_exit_decodes:
  assumes "j \<noteq> 0" and "j \<noteq> 0x7f"
  shows "pr_exit (encode (ByExit k)) = ''normal termination, exit status = '' @ dec (uint k) @ line_end
    \<and> pr_exit (encode (BySignal j core)) = ''abnormal termination, signal number = '' @ dec (uint j) @
        (if core then ''(core file generated)'' else []) @ line_end
    \<and> pr_exit (encode (ByStop k)) = ''child stopped, signal number = '' @ dec (uint k) @ line_end
    \<and> wait_demo (11, 11, encode (ByExit 7)) (12, 12, encode (BySignal 6 True)) (13, 13, encode (BySignal 8 False))
      = Inr (''normal termination, exit status = '' @ dec 7 @ line_end @
             ''abnormal termination, signal number = '' @ dec 6 @ ''(core file generated)'' @ line_end @
             ''abnormal termination, signal number = '' @ dec 8 @ line_end)"
proof -
  have "wait_demo (11, 11, encode (ByExit 7)) (12, 12, encode (BySignal 6 True)) (13, 13, encode (BySignal 8 False))
      = Inr (pr_exit (encode (ByExit 7)) @ pr_exit (encode (BySignal 6 True)) @ pr_exit (encode (BySignal 8 False)))"
    by (simp add: wait_demo_def wait_round_def del: encode.simps)
  then show ?thesis using pr_exit_encode(1,3) pr_exit_encode(2) [OF assms] pr_exit_encode(1) [of 7]
      pr_exit_encode(2) [of 6 True] pr_exit_encode(2) [of 8 False] by (simp del: encode.simps)
qed

theorem pr_exit_decodes_witness: "pr_exit 0x86 = ''abnormal termination, signal number = '' @ dec 6 @ ''(core file generated)'' @ line_end"
  using pr_exit_decodes [of 6 0 True] by simp

text \<open>
  \<open>time_demo.c\<close> reports every command in order, with its times divided by the clock rate that
  was asked for once, and its status, as long as the calls it makes succeed.
\<close>

lemma time_demo_reports:
  assumes "0 < sc" and "\<forall>r \<in> set rs. cr_start r \<noteq> -1 \<and> cr_end r \<noteq> -1 \<and> 0 \<le> sint (cr_status r)"
  shows "\<exists>k. time_demo sc rs = Inr \<lparr>clktck = k, tm_out = concat (map (\<lambda>r.
      [Command (cr_cmd r),
       Seconds ''real'' (rat_of_int (cr_end r - cr_start r) / rat_of_int sc),
       Seconds ''user'' (rat_of_int (tms_utime (cr_tms1 r) - tms_utime (cr_tms0 r)) / rat_of_int sc),
       Seconds ''sys'' (rat_of_int (tms_stime (cr_tms1 r) - tms_stime (cr_tms0 r)) / rat_of_int sc),
       Seconds ''child user'' (rat_of_int (tms_cutime (cr_tms1 r) - tms_cutime (cr_tms0 r)) / rat_of_int sc),
       Seconds ''child sys'' (rat_of_int (tms_cstime (cr_tms1 r) - tms_cstime (cr_tms0 r)) / rat_of_int sc),
       Printed (pr_exit (cr_status r))]) rs)\<rparr>"
proof -
  let ?items = "\<lambda>r. [Command (cr_cmd r),
       Seconds ''real'' (rat_of_int (cr_end r - cr_start r) / rat_of_int sc),
       Seconds ''user'' (rat_of_int (tms_utime (cr_tms1 r) - tms_utime (cr_tms0 r)) / rat_of_int sc),
       Seconds ''sys'' (rat_of_int (tms_stime (cr_tms1 r) - tms_stime (cr_tms0 r)) / rat_of_int sc),
       Seconds ''child user'' (rat_of_int (tms_cutime (cr_tms1 r) - tms_cutime (cr_tms0 r)) / rat_of_int sc),
       Seconds ''child sys'' (rat_of_int (tms_cstime (cr_tms1 r) - tms_cstime (cr_tms0 r)) / rat_of_int sc),
       Printed (pr_exit (cr_status r))]"
  have step: "do_cmd sc r \<lparr>clktck = k, tm_out = out\<rparr> = Inr \<lparr>clktck = sc, tm_out = out @ ?items r\<rparr>"
    if "r \<in> set rs" "k = 0 \<or> k = sc" for r k out
    using assms that by (auto simp: do_cmd_def pr_times_def Let_def)
  have "\<exists>k'. run_stmts (map (do_cmd sc) qs) \<lparr>clktck = k, tm_out = out\<rparr> = Inr \<lparr>clktck = k', tm_out = out @ concat (map ?items qs)\<rparr>"
    if "set qs \<subseteq> set rs" "k = 0 \<or> k = sc" for qs k out
    using that
  proof (induction qs arbitrary: k out)
    case (Cons q qs)
    have "\<exists>k'. run_stmts (map (do_cmd sc) qs) \<lparr>clktck = sc, tm_out = out @ ?items q\<rparr> =
        Inr \<lparr>clktck = k', tm_out = (out @ ?items q) @ concat (map ?items qs)\<rparr>"
      by (rule Cons.IH) (use Cons.prems in auto)
    with step [of q k out] Cons.prems show ?case by simp
  qed simp
  from this [of rs 0 "[]"] show ?thesis by (simp add: time_demo_def)
qed

end
