(* ===== verification/Cond_Signal.thy ===== *)
theory Cond_Signal
  imports C_Buffer
begin

text \<open>
  A thread that waits for a task and a thread that hands it over, with a mutex and a condition
  variable (\<open>pthread/condition_signal.c\<close>). The lemmas show that no wake-up is lost, whenever and
  however often the waiting thread wakes up on its own, and that the message is complete when
  it is printed.
\<close>

section \<open>The threads\<close>

datatype cs_who = Taker | Putter

text \<open>
  Where \<open>process_task\<close>, \<open>enqueue_msg\<close> and \<open>main\<close> are: before the statement of that name. A thread
  that waits for the condition is asleep without the mutex; once woken it has to get the mutex back
  before \<open>pthread_cond_wait\<close> returns.
\<close>

datatype take_pc = TakeNew | TakeLock | TakeTest | TakeAsleep | TakeWoken | TakePrint | TakeUnlock | TakeDone

datatype put_pc = PutNew | PutLock | PutDelay | PutAlloc | PutCopy | PutUnlock | PutSignal | PutDone

datatype cs_main_pc = Create1 | Create2 | Join1 | Join2 | Ended "c_fault option"

text \<open>
  \<open>cs_spurious\<close> is how many more times the waiting thread wakes up without a signal, which
  POSIX permits.
\<close>

record cs_sys =
  cs_tp :: "addr option"
  cs_heap :: "addr \<rightharpoonup> cbuf"
  cs_qlock :: "cs_who option"
  cs_take :: take_pc
  cs_put :: put_pc
  cs_main :: cs_main_pc
  cs_out :: "string list"
  cs_spurious :: nat

text \<open>What the two calls of \<open>pthread_create\<close> and the call of \<open>malloc\<close> return.\<close>

record cs_env =
  cs_err1 :: int
  cs_err2 :: int
  cs_malloc :: "addr option"

definition task_size :: nat where
  "task_size = 64"

definition hello_msg :: string where
  "hello_msg = ''Hello, there''"

definition task_line :: "string \<Rightarrow> string" where
  "task_line m = ''Task message: '' @ m @ [CHR 0x0A]"

definition status_line :: string where
  "status_line = ''thread1 exited with status: 0'' @ [CHR 0x0A]"

definition process_print :: "cs_sys stmt" where
  "process_print s = bindE (deref (cs_heap s) (cs_tp s)) (\<lambda>b. bindE (c_str b) (\<lambda>m.
     Inr (s\<lparr>cs_out := cs_out s @ [task_line m], cs_take := TakeUnlock\<rparr>)))"

definition enqueue_alloc :: "addr option \<Rightarrow> cs_sys \<Rightarrow> cs_sys" where
  "enqueue_alloc m s = (case m of None \<Rightarrow> s\<lparr>cs_tp := None, cs_put := PutCopy\<rparr>
     | Some a \<Rightarrow> s\<lparr>cs_tp := Some a, cs_heap := (cs_heap s)(a \<mapsto> replicate task_size None), cs_put := PutCopy\<rparr>)"

definition enqueue_copy :: "cs_sys stmt" where
  "enqueue_copy s = bindE (deref (cs_heap s) (cs_tp s)) (\<lambda>b. bindE (read_into (hello_msg @ [nul]) b) (\<lambda>b'.
     bindE (store (cs_tp s) (\<lambda>_. b') (cs_heap s)) (\<lambda>h. Inr (s\<lparr>cs_heap := h, cs_put := PutUnlock\<rparr>))))"

definition cs_running :: "cs_sys \<Rightarrow> bool" where
  "cs_running s = (case cs_main s of Ended r \<Rightarrow> False | _ \<Rightarrow> True)"

text \<open>
  A step of one of the three threads. When \<open>main\<close> returns or calls \<open>exit\<close>, and when a statement
  faults, the whole process has ended.
\<close>

inductive process_task :: "cs_sys \<Rightarrow> cs_sys \<Rightarrow> bool" where
  take_lock: "cs_take s = TakeLock \<Longrightarrow> cs_qlock s = None \<Longrightarrow> process_task s (s\<lparr>cs_qlock := Some Taker, cs_take := TakeTest\<rparr>)"
| take_wait: "cs_take s = TakeTest \<Longrightarrow> cs_tp s = None \<Longrightarrow> process_task s (s\<lparr>cs_qlock := None, cs_take := TakeAsleep\<rparr>)"
| take_spurious: "cs_take s = TakeAsleep \<Longrightarrow> cs_spurious s = Suc k \<Longrightarrow> process_task s (s\<lparr>cs_spurious := k, cs_take := TakeWoken\<rparr>)"
| take_woken: "cs_take s = TakeWoken \<Longrightarrow> cs_qlock s = None \<Longrightarrow> process_task s (s\<lparr>cs_qlock := Some Taker, cs_take := TakeTest\<rparr>)"
| take_ready: "cs_take s = TakeTest \<Longrightarrow> cs_tp s \<noteq> None \<Longrightarrow> process_task s (s\<lparr>cs_take := TakePrint\<rparr>)"
| take_print: "cs_take s = TakePrint \<Longrightarrow> process_print s = Inr s' \<Longrightarrow> process_task s s'"
| take_fault: "cs_take s = TakePrint \<Longrightarrow> process_print s = Inl f \<Longrightarrow> process_task s (s\<lparr>cs_main := Ended (Some f)\<rparr>)"
| take_unlock: "cs_take s = TakeUnlock \<Longrightarrow> process_task s (s\<lparr>cs_qlock := None, cs_take := TakeDone\<rparr>)"

inductive enqueue_task :: "addr option \<Rightarrow> cs_sys \<Rightarrow> cs_sys \<Rightarrow> bool" for m where
  put_lock: "cs_put s = PutLock \<Longrightarrow> cs_qlock s = None \<Longrightarrow> enqueue_task m s (s\<lparr>cs_qlock := Some Putter, cs_put := PutDelay\<rparr>)"
| put_delay: "cs_put s = PutDelay \<Longrightarrow> enqueue_task m s (s\<lparr>cs_put := PutAlloc\<rparr>)"
| put_alloc: "cs_put s = PutAlloc \<Longrightarrow> enqueue_task m s (enqueue_alloc m s)"
| put_copy: "cs_put s = PutCopy \<Longrightarrow> enqueue_copy s = Inr s' \<Longrightarrow> enqueue_task m s s'"
| put_fault: "cs_put s = PutCopy \<Longrightarrow> enqueue_copy s = Inl f \<Longrightarrow> enqueue_task m s (s\<lparr>cs_main := Ended (Some f)\<rparr>)"
| put_unlock: "cs_put s = PutUnlock \<Longrightarrow> enqueue_task m s (s\<lparr>cs_qlock := None, cs_put := PutSignal\<rparr>)"
| put_signal: "cs_put s = PutSignal \<Longrightarrow>
     enqueue_task m s (s\<lparr>cs_put := PutDone, cs_take := if cs_take s = TakeAsleep then TakeWoken else cs_take s\<rparr>)"

inductive cs_main_step :: "cs_env \<Rightarrow> cs_sys \<Rightarrow> cs_sys \<Rightarrow> bool" for e where
  main_create1: "cs_main s = Create1 \<Longrightarrow> cs_err1 e = 0 \<Longrightarrow> cs_main_step e s (s\<lparr>cs_take := TakeLock, cs_main := Create2\<rparr>)"
| main_create2: "cs_main s = Create2 \<Longrightarrow> cs_err2 e = 0 \<Longrightarrow> cs_main_step e s (s\<lparr>cs_put := PutLock, cs_main := Join1\<rparr>)"
| main_fail1: "cs_main s = Create1 \<Longrightarrow> cs_err1 e \<noteq> 0 \<Longrightarrow> cs_main_step e s (s\<lparr>cs_main := Ended (Some (Exits (- 1)))\<rparr>)"
| main_fail2: "cs_main s = Create2 \<Longrightarrow> cs_err2 e \<noteq> 0 \<Longrightarrow> cs_main_step e s (s\<lparr>cs_main := Ended (Some (Exits (- 1)))\<rparr>)"
| main_join1: "cs_main s = Join1 \<Longrightarrow> cs_take s = TakeDone \<Longrightarrow> cs_main_step e s (s\<lparr>cs_out := cs_out s @ [status_line], cs_main := Join2\<rparr>)"
| main_join2: "cs_main s = Join2 \<Longrightarrow> cs_put s = PutDone \<Longrightarrow> cs_main_step e s (s\<lparr>cs_out := cs_out s @ [status_line], cs_main := Ended None\<rparr>)"

definition cs_step :: "cs_env \<Rightarrow> cs_sys \<Rightarrow> cs_sys \<Rightarrow> bool" where
  "cs_step e s s' \<longleftrightarrow> cs_running s \<and> (process_task s s' \<or> enqueue_task (cs_malloc e) s s' \<or> cs_main_step e s s')"

definition cs_start :: "nat \<Rightarrow> cs_sys" where
  "cs_start k = \<lparr>cs_tp = None, cs_heap = (\<lambda>a. None), cs_qlock = None, cs_take = TakeNew, cs_put = PutNew,
     cs_main = Create1, cs_out = [], cs_spurious = k\<rparr>"

section \<open>Invariant\<close>

text \<open>Who holds the mutex follows from where the threads are.\<close>

definition cs_lock_ok :: "cs_sys \<Rightarrow> bool" where
  "cs_lock_ok s \<longleftrightarrow> (cs_qlock s = Some Taker \<longleftrightarrow> cs_take s \<in> {TakeTest, TakePrint, TakeUnlock})
     \<and> (cs_qlock s = Some Putter \<longleftrightarrow> cs_put s \<in> {PutDelay, PutAlloc, PutCopy, PutUnlock})"

definition hello_task :: cbuf where
  "hello_task = map Some (hello_msg @ [nul]) @ replicate 51 None"

text \<open>The task is complete as soon as the mutex is released.\<close>

definition cs_task_ok :: "cs_env \<Rightarrow> cs_sys \<Rightarrow> bool" where
  "cs_task_ok e s \<longleftrightarrow> (case cs_put s of
       PutCopy \<Rightarrow> cs_tp s = cs_malloc e \<and> (\<forall>a. cs_tp s = Some a \<longrightarrow> cs_heap s a = Some (replicate task_size None))
     | PutUnlock \<Rightarrow> (\<exists>a. cs_malloc e = Some a \<and> cs_tp s = Some a \<and> cs_heap s a = Some hello_task)
     | PutSignal \<Rightarrow> (\<exists>a. cs_malloc e = Some a \<and> cs_tp s = Some a \<and> cs_heap s a = Some hello_task)
     | PutDone \<Rightarrow> (\<exists>a. cs_malloc e = Some a \<and> cs_tp s = Some a \<and> cs_heap s a = Some hello_task)
     | _ \<Rightarrow> cs_tp s = None)"

text \<open>The waiting thread goes on only with a task, and never sleeps once the signal was sent.\<close>

definition cs_take_ok :: "cs_sys \<Rightarrow> bool" where
  "cs_take_ok s \<longleftrightarrow> (cs_take s \<in> {TakePrint, TakeUnlock, TakeDone} \<longrightarrow> cs_put s \<in> {PutSignal, PutDone})
     \<and> (cs_take s = TakeAsleep \<longrightarrow> cs_put s \<noteq> PutDone)"

definition task_lines :: "cs_sys \<Rightarrow> string list" where
  "task_lines s = (if cs_take s \<in> {TakeUnlock, TakeDone} then [task_line hello_msg] else [])"

definition cs_main_ok :: "cs_env \<Rightarrow> cs_sys \<Rightarrow> bool" where
  "cs_main_ok e s \<longleftrightarrow> (case cs_main s of
       Create1 \<Rightarrow> cs_take s = TakeNew \<and> cs_put s = PutNew \<and> cs_out s = []
     | Create2 \<Rightarrow> cs_err1 e = 0 \<and> cs_take s \<noteq> TakeNew \<and> cs_put s = PutNew \<and> cs_out s = []
     | Join1 \<Rightarrow> cs_err1 e = 0 \<and> cs_err2 e = 0 \<and> cs_take s \<noteq> TakeNew \<and> cs_put s \<noteq> PutNew \<and> cs_out s = task_lines s
     | Join2 \<Rightarrow> cs_err1 e = 0 \<and> cs_err2 e = 0 \<and> cs_take s = TakeDone \<and> cs_put s \<noteq> PutNew \<and> cs_out s = [task_line hello_msg, status_line]
     | Ended None \<Rightarrow> cs_err1 e = 0 \<and> cs_err2 e = 0 \<and> cs_malloc e \<noteq> None \<and> cs_out s = [task_line hello_msg, status_line, status_line]
     | Ended (Some f) \<Rightarrow> cs_out s = [] \<and> f = (if cs_err1 e \<noteq> 0 \<or> cs_err2 e \<noteq> 0 then Exits (- 1) else NullDeref)
         \<and> (cs_err1 e = 0 \<and> cs_err2 e = 0 \<longrightarrow> cs_malloc e = None))"

definition cs_inv :: "cs_env \<Rightarrow> cs_sys \<Rightarrow> bool" where
  "cs_inv e s \<longleftrightarrow> cs_main_ok e s \<and> (cs_running s \<longrightarrow> cs_lock_ok s \<and> cs_task_ok e s \<and> cs_take_ok s)"

lemmas cs_ok_defs = cs_inv_def cs_main_ok_def cs_lock_ok_def cs_task_ok_def cs_take_ok_def cs_running_def task_lines_def

lemma hello_task_str: "c_str hello_task = Inr hello_msg"
  by (simp add: hello_task_def hello_msg_def)

lemma enqueue_copy_ok:
  "cs_tp s = Some a \<Longrightarrow> cs_heap s a = Some (replicate task_size None) \<Longrightarrow>
     enqueue_copy s = Inr (s\<lparr>cs_heap := (cs_heap s)(a \<mapsto> hello_task), cs_put := PutUnlock\<rparr>)"
  by (simp add: enqueue_copy_def read_into_def hello_task_def hello_msg_def task_size_def drop_replicate)

lemma enqueue_copy_null: "cs_tp s = None \<Longrightarrow> enqueue_copy s = Inl NullDeref"
  by (simp add: enqueue_copy_def)

lemma process_print_ok:
  "cs_tp s = Some a \<Longrightarrow> cs_heap s a = Some hello_task \<Longrightarrow>
     process_print s = Inr (s\<lparr>cs_out := cs_out s @ [task_line hello_msg], cs_take := TakeUnlock\<rparr>)"
  by (simp add: process_print_def hello_task_str)

lemma cs_task_cases:
  assumes "cs_task_ok e s" and "cs_put s \<in> {PutUnlock, PutSignal, PutDone}"
  obtains a where "cs_malloc e = Some a" "cs_tp s = Some a" "cs_heap s a = Some hello_task"
  using assms by (auto simp: cs_task_ok_def)

lemma process_task_inv:
  assumes "process_task s s'" and inv: "cs_inv e s" and run: "cs_running s"
  shows "cs_inv e s'"
  using assms(1)
proof cases
  case take_lock
  then show ?thesis using inv run by (auto simp: cs_ok_defs split: cs_main_pc.splits put_pc.splits)
next
  case take_wait
  then show ?thesis using inv run by (auto simp: cs_ok_defs split: cs_main_pc.splits put_pc.splits)
next
  case (take_spurious k)
  then show ?thesis using inv run by (auto simp: cs_ok_defs split: cs_main_pc.splits put_pc.splits)
next
  case take_woken
  then show ?thesis using inv run by (auto simp: cs_ok_defs split: cs_main_pc.splits put_pc.splits)
next
  case take_ready
  then show ?thesis using inv run by (auto simp: cs_ok_defs split: cs_main_pc.splits put_pc.splits)
next
  case take_print
  obtain a where "cs_tp s = Some a" "cs_heap s a = Some hello_task"
    using inv run take_print(1) by (auto simp: cs_inv_def cs_take_ok_def elim: cs_task_cases)
  with take_print have "s' = s\<lparr>cs_out := cs_out s @ [task_line hello_msg], cs_take := TakeUnlock\<rparr>"
    using process_print_ok by simp
  then show ?thesis using inv run take_print(1) by (auto simp: cs_ok_defs split: cs_main_pc.splits put_pc.splits)
next
  case (take_fault f)
  obtain a where "cs_tp s = Some a" "cs_heap s a = Some hello_task"
    using inv run take_fault(2) by (auto simp: cs_inv_def cs_take_ok_def elim: cs_task_cases)
  with take_fault show ?thesis using process_print_ok by simp
next
  case take_unlock
  then show ?thesis using inv run by (auto simp: cs_ok_defs split: cs_main_pc.splits put_pc.splits)
qed

lemma enqueue_task_inv:
  assumes "enqueue_task (cs_malloc e) s s'" and inv: "cs_inv e s" and run: "cs_running s"
  shows "cs_inv e s'"
  using assms(1)
proof cases
  case put_lock
  then show ?thesis using inv run by (auto simp: cs_ok_defs split: cs_main_pc.splits)
next
  case put_delay
  then show ?thesis using inv run by (auto simp: cs_ok_defs split: cs_main_pc.splits)
next
  case put_alloc
  then show ?thesis using inv run by (auto simp: cs_ok_defs enqueue_alloc_def split: cs_main_pc.splits option.splits)
next
  case put_copy
  with inv run obtain a where a: "cs_malloc e = Some a" "cs_tp s = Some a" "cs_heap s a = Some (replicate task_size None)"
    by (cases "cs_malloc e") (auto simp: cs_inv_def cs_task_ok_def enqueue_copy_null)
  with put_copy have "s' = s\<lparr>cs_heap := (cs_heap s)(a \<mapsto> hello_task), cs_put := PutUnlock\<rparr>"
    using enqueue_copy_ok by simp
  then show ?thesis using inv run put_copy(1) a by (auto simp: cs_ok_defs split: cs_main_pc.splits)
next
  case (put_fault f)
  with inv run have "cs_malloc e = None \<and> f = NullDeref"
    by (cases "cs_malloc e") (auto simp: cs_inv_def cs_task_ok_def enqueue_copy_null enqueue_copy_ok)
  then show ?thesis using inv run put_fault by (auto simp: cs_ok_defs split: cs_main_pc.splits)
next
  case put_unlock
  then show ?thesis using inv run by (auto simp: cs_ok_defs split: cs_main_pc.splits)
next
  case put_signal
  then show ?thesis using inv run by (auto simp: cs_ok_defs split: cs_main_pc.splits)
qed

lemma cs_main_step_inv:
  assumes "cs_main_step e s s'" and inv: "cs_inv e s" and run: "cs_running s"
  shows "cs_inv e s'"
  using assms(1)
proof cases
  case main_create1
  then show ?thesis using inv by (clarsimp simp: cs_ok_defs)
next
  case main_create2
  then show ?thesis using inv by (clarsimp simp: cs_ok_defs)
next
  case main_fail1
  then show ?thesis using inv by (clarsimp simp: cs_ok_defs)
next
  case main_fail2
  then show ?thesis using inv by (clarsimp simp: cs_ok_defs)
next
  case main_join1
  then show ?thesis using inv by (auto simp: cs_ok_defs)
next
  case main_join2
  then have "cs_task_ok e s" "cs_put s \<in> {PutUnlock, PutSignal, PutDone}" using inv run by (simp_all add: cs_inv_def)
  then obtain a where "cs_malloc e = Some a" by (rule cs_task_cases)
  then show ?thesis using main_join2 inv by (simp add: cs_ok_defs)
qed

text \<open>A step leads on, and a wake-up costs one of the wake-ups that are left or the signal.\<close>

primrec take_rank :: "take_pc \<Rightarrow> nat" where
  "take_rank TakeNew = 7" | "take_rank TakeLock = 6" | "take_rank TakeTest = 5" | "take_rank TakeAsleep = 4"
| "take_rank TakeWoken = 6" | "take_rank TakePrint = 2" | "take_rank TakeUnlock = 1" | "take_rank TakeDone = 0"

primrec put_rank :: "put_pc \<Rightarrow> nat" where
  "put_rank PutNew = 9" | "put_rank PutLock = 8" | "put_rank PutDelay = 7" | "put_rank PutAlloc = 6"
| "put_rank PutCopy = 5" | "put_rank PutUnlock = 4" | "put_rank PutSignal = 3" | "put_rank PutDone = 0"

primrec main_rank :: "cs_main_pc \<Rightarrow> nat" where
  "main_rank Create1 = 4" | "main_rank Create2 = 3" | "main_rank Join1 = 2" | "main_rank Join2 = 1" | "main_rank (Ended r) = 0"

definition cs_msr :: "cs_sys \<Rightarrow> nat" where
  "cs_msr s = main_rank (cs_main s) + put_rank (cs_put s) + take_rank (cs_take s) + 3 * cs_spurious s"

lemma main_rank_pos: "cs_running s \<Longrightarrow> 0 < main_rank (cs_main s)"
  by (cases "cs_main s") (auto simp: cs_running_def)

lemma process_task_msr: "process_task s s' \<Longrightarrow> cs_running s \<Longrightarrow> cs_msr s' < cs_msr s"
  by (erule process_task.cases) (auto simp: cs_msr_def process_print_def bindE_eq_Inr dest: main_rank_pos)

lemma enqueue_task_msr: "enqueue_task m s s' \<Longrightarrow> cs_running s \<Longrightarrow> cs_msr s' < cs_msr s"
  by (erule enqueue_task.cases)
     (auto simp: cs_msr_def enqueue_alloc_def enqueue_copy_def bindE_eq_Inr split: option.splits dest: main_rank_pos)

lemma cs_main_step_msr:
  assumes "cs_main_step e s s'" and "cs_inv e s"
  shows "cs_msr s' < cs_msr s"
  using assms by cases (auto simp: cs_msr_def cs_inv_def cs_main_ok_def)

interpretation handover: terminating_system "\<lambda>s. \<exists>k. s = cs_start k" "cs_step e" "cs_inv e" cs_msr for e
proof unfold_locales
  show "cs_inv e s" if "\<exists>k. s = cs_start k" for s
    using that by (auto simp: cs_ok_defs cs_start_def)
  show "cs_inv e t" if "cs_inv e s" "cs_step e s t" for s t
    using that process_task_inv enqueue_task_inv cs_main_step_inv unfolding cs_step_def by blast
  show "cs_msr t < cs_msr s" if "cs_inv e s" "cs_step e s t" for s t
    using that process_task_msr enqueue_task_msr cs_main_step_msr unfolding cs_step_def by blast
qed

section \<open>No deadlock\<close>

lemma enqueue_task_moves:
  assumes "cs_put s \<notin> {PutNew, PutDone}" and "cs_put s = PutLock \<longrightarrow> cs_qlock s = None"
  shows "\<exists>t. enqueue_task m s t"
proof (cases "cs_put s")
  case PutCopy
  then show ?thesis by (cases "enqueue_copy s") (auto intro: enqueue_task.intros)
qed (use assms in \<open>auto intro: enqueue_task.intros\<close>)

lemma process_task_moves:
  assumes "cs_take s \<notin> {TakeNew, TakeAsleep, TakeDone}" and "cs_take s \<in> {TakeLock, TakeWoken} \<longrightarrow> cs_qlock s = None"
  shows "\<exists>t. process_task s t"
proof (cases "cs_take s")
  case TakePrint
  then show ?thesis by (cases "process_print s") (auto intro: process_task.intros)
next
  case TakeTest
  then show ?thesis by (cases "cs_tp s") (auto intro: process_task.intros)
qed (use assms in \<open>auto intro: process_task.intros\<close>)

text \<open>While \<open>main\<close> waits for the first thread, some thread can go on.\<close>

lemma join1_moves:
  assumes "cs_lock_ok s" and "cs_take_ok s" and "cs_take s \<notin> {TakeNew, TakeDone}" and "cs_put s \<noteq> PutNew"
  shows "(\<exists>t. process_task s t) \<or> (\<exists>t. enqueue_task m s t)"
proof (cases "cs_qlock s")
  case None
  show ?thesis
  proof (cases "cs_put s = PutDone")
    case True
    then have "cs_take s \<noteq> TakeAsleep" using assms(2) by (auto simp: cs_take_ok_def)
    then show ?thesis using process_task_moves [of s] assms(3) None by blast
  next
    case False
    then show ?thesis using enqueue_task_moves [of s m] assms(4) None by blast
  qed
next
  case (Some w)
  show ?thesis
  proof (cases w)
    case Taker
    then have "cs_take s \<in> {TakeTest, TakePrint, TakeUnlock}" using Some assms(1) by (simp add: cs_lock_ok_def)
    then show ?thesis using process_task_moves [of s] by auto
  next
    case Putter
    then have "cs_put s \<in> {PutDelay, PutAlloc, PutCopy, PutUnlock}" using Some assms(1) by (simp add: cs_lock_ok_def)
    then show ?thesis using enqueue_task_moves [of s m] by auto
  qed
qed

lemma cs_progress:
  assumes inv: "cs_inv e s" and run: "cs_running s"
  shows "\<exists>t. cs_step e s t"
proof -
  have ok: "cs_lock_ok s" "cs_take_ok s" "cs_main_ok e s" using inv run by (auto simp: cs_inv_def)
  have "(\<exists>t. process_task s t) \<or> (\<exists>t. enqueue_task (cs_malloc e) s t) \<or> (\<exists>t. cs_main_step e s t)"
  proof (cases "cs_main s")
    case Create1
    then show ?thesis using cs_main_step.main_create1 [of s e] cs_main_step.main_fail1 [of s e] by blast
  next
    case Create2
    then show ?thesis using cs_main_step.main_create2 [of s e] cs_main_step.main_fail2 [of s e] by blast
  next
    case Join1
    then show ?thesis
      using join1_moves [OF ok(1,2), of "cs_malloc e"] ok(3) cs_main_step.main_join1 [of s e] by (auto simp: cs_main_ok_def)
  next
    case Join2
    then have put: "cs_take s = TakeDone" "cs_put s \<noteq> PutNew" "cs_put s \<in> {PutSignal, PutDone}"
      using ok(2,3) by (auto simp: cs_main_ok_def cs_take_ok_def)
    then show ?thesis using Join2 enqueue_task_moves [of s "cs_malloc e"] cs_main_step.main_join2 [of s e] by auto
  next
    case (Ended r)
    then show ?thesis using run by (simp add: cs_running_def)
  qed
  then show ?thesis using run by (auto simp: cs_step_def)
qed

section \<open>Properties\<close>

definition cs_result :: "cs_env \<Rightarrow> c_fault option" where
  "cs_result e = (if cs_err1 e \<noteq> 0 \<or> cs_err2 e \<noteq> 0 then Some (Exits (- 1))
     else if cs_malloc e = None then Some NullDeref else None)"

text \<open>
  C7: the hand-over always ends. However the threads interleave, and with any number \<open>k\<close> of spurious
  wake-ups, a run has at most \<open>20 + 3 * k\<close> steps and only stops when the process has ended; no wake-up is lost.
  It then has printed the complete message once, before the two status lines. The exceptions are a failed
  \<open>pthread_create\<close>, after which it exits with -1, and a failed \<open>malloc\<close>, whose result is used unchecked.
\<close>

theorem handover_ends:
  assumes "(cs_step e ^^ n) (cs_start k) s"
  shows "n \<le> 20 + 3 * k \<and> ((\<exists>t. cs_step e s t) \<or> cs_main s = Ended (cs_result e)
    \<and> cs_out s = (if cs_result e = None then [task_line ''Hello, there'', status_line, status_line] else []))"
proof -
  have reach: "(cs_step e)\<^sup>*\<^sup>* (cs_start k) s" using assms by (rule relpowp_imp_rtranclp)
  have start: "\<exists>j. cs_start k = cs_start j" by blast
  have "n + cs_msr s \<le> cs_msr (cs_start k)"
    using handover.run_length [OF assms handover.inv_init [OF start]] .
  then have "n \<le> 20 + 3 * k" by (simp add: cs_msr_def cs_start_def)
  moreover have inv: "cs_inv e s" using handover.inv_reachable [OF start reach] .
  moreover have "cs_main s = Ended (cs_result e)
      \<and> cs_out s = (if cs_result e = None then [task_line ''Hello, there'', status_line, status_line] else [])"
    if "\<nexists>t. cs_step e s t"
  proof -
    have "\<not> cs_running s" using cs_progress [OF inv] that by blast
    then obtain r where "cs_main s = Ended r" by (auto simp: cs_running_def split: cs_main_pc.splits)
    then show ?thesis using inv
      by (cases r) (auto simp: cs_inv_def cs_main_ok_def cs_result_def hello_msg_def split: if_splits)
  qed
  ultimately show ?thesis by blast
qed

theorem handover_ends_witness:
  "\<exists>s. (cs_step \<lparr>cs_err1 = 11, cs_err2 = 0, cs_malloc = Some 1\<rparr> ^^ 1) (cs_start 2) s \<and> cs_out s = []
    \<and> cs_main s = Ended (Some (Exits (- 1)))"
proof -
  let ?e = "\<lparr>cs_err1 = 11, cs_err2 = 0, cs_malloc = Some (1 :: nat)\<rparr>"
  let ?s = "(cs_start 2)\<lparr>cs_main := Ended (Some (Exits (- 1)))\<rparr>"
  have "cs_main_step ?e (cs_start 2) ?s" by (rule cs_main_step.main_fail1) (simp_all add: cs_start_def)
  then have "cs_step ?e (cs_start 2) ?s" by (simp add: cs_step_def cs_running_def cs_start_def)
  then have run: "(cs_step ?e ^^ 1) (cs_start 2) ?s" by (simp add: relcompp_apply)
  moreover have "\<nexists>t. cs_step ?e ?s t" by (simp add: cs_step_def cs_running_def)
  ultimately show ?thesis using handover_ends [OF run] by (auto simp: cs_result_def)
qed

end
