(* ===== verification/Timer_Lock.thy ===== *)
theory Timer_Lock
  imports C_Text
begin

text \<open>
  A function that runs later in a detached thread of its own (\<open>timeout\<close> and \<open>timer_helper\<close> of
  \<open>pthread/recursive_lock.c\<close>, \<open>makethread\<close> of \<open>pthread/pthread_functions.c\<close>), with the recursive
  mutex both threads use. The lemmas show when the program ends and when it waits forever.
\<close>

section \<open>Data\<close>

datatype timer_fn = Retry

record to_info =
  to_fn :: timer_fn
  to_arg :: "addr option"
  to_wait :: int

datatype tl_who = MainThread | TimerThread

datatype tl_main_pc = MInit | MLock | MTimeout | MUnlock | MSpin | MEnd "c_fault option"

text \<open>Where the timer thread is, with the address of its argument.\<close>

datatype tl_help_pc = HelpNone | HelpStart addr | HelpSleep addr | HelpCall addr
  | RetryLock addr | RetryPrint addr | RetryFlag addr | RetryUnlock addr | HelpFree addr | HelpDone

text \<open>The recursive mutex has an owner and the number of locks it holds.\<close>

record tl_sys =
  tl_heap :: "addr \<rightharpoonup> to_info"
  tl_lock :: "(tl_who \<times> nat) option"
  tl_flag :: int
  tl_main :: tl_main_pc
  tl_help :: tl_help_pc
  tl_out :: "string list"

text \<open>
  What the library calls return: the three that set up the mutex, \<open>malloc\<close>, and the
  three in \<open>makethread\<close>.
\<close>

record tl_env =
  tl_mutexattr_init :: int
  tl_settype :: int
  tl_mutex_init :: int
  tl_malloc :: "addr option"
  tl_attr_init :: int
  tl_setdetach :: int
  tl_create :: int

section \<open>Operations\<close>

definition rec_lock :: "tl_who \<Rightarrow> tl_sys stmt" where
  "rec_lock u s = (case tl_lock s of None \<Rightarrow> Inr (s\<lparr>tl_lock := Some (u, 1)\<rparr>)
     | Some (v, n) \<Rightarrow> if v = u then Inr (s\<lparr>tl_lock := Some (u, n + 1)\<rparr>) else Inl Blocks)"

definition rec_unlock :: "tl_who \<Rightarrow> tl_sys stmt" where
  "rec_unlock u s = (case tl_lock s of None \<Rightarrow> Inl NotHeld
     | Some (v, n) \<Rightarrow> if v \<noteq> u then Inl NotHeld
         else Inr (s\<lparr>tl_lock := if n \<le> 1 then None else Some (u, n - 1)\<rparr>))"

text \<open>What \<open>makethread\<close> returns, and whether the thread runs.\<close>

definition makethread :: "int \<Rightarrow> int \<Rightarrow> int \<Rightarrow> int \<times> bool" where
  "makethread attr_init setdetach create =
     (if attr_init \<noteq> 0 then (attr_init, False)
      else if setdetach = 0 then (setdetach, create = 0) else (setdetach, False))"

definition timeout :: "tl_env \<Rightarrow> int \<Rightarrow> timer_fn \<Rightarrow> addr option \<Rightarrow> tl_sys stmt" where
  "timeout e secs fn arg s = (case tl_malloc e of None \<Rightarrow> Inr s
     | Some tip \<Rightarrow>
         (let s1 = s\<lparr>tl_heap := (tl_heap s)(tip \<mapsto> \<lparr>to_fn = fn, to_arg = arg, to_wait = secs\<rparr>)\<rparr>;
              (err, started) = makethread (tl_attr_init e) (tl_setdetach e) (tl_create e)
          in if err \<noteq> 0 then Inl (Exits (- 1))
             else Inr (if started then s1\<lparr>tl_help := HelpStart tip\<rparr> else s1)))"

definition sleep_line :: "int \<Rightarrow> string" where
  "sleep_line n = ''sleep for '' @ dec n @ '' secs'' @ [CHR 0x0A]"

definition retry_line :: string where
  "retry_line = ''Recursive lock'' @ [CHR 0x0A]"

text \<open>\<open>retry\<close>, one statement at a time.\<close>

definition retry :: "tl_sys stmt" where
  "retry s = (case tl_help s of
       RetryLock a \<Rightarrow> bindE (rec_lock TimerThread s) (\<lambda>s1. Inr (s1\<lparr>tl_help := RetryPrint a\<rparr>))
     | RetryPrint a \<Rightarrow> Inr (s\<lparr>tl_out := tl_out s @ [retry_line], tl_help := RetryFlag a\<rparr>)
     | RetryFlag a \<Rightarrow> Inr (s\<lparr>tl_flag := 1, tl_help := RetryUnlock a\<rparr>)
     | RetryUnlock a \<Rightarrow> bindE (rec_unlock TimerThread s) (\<lambda>s1. Inr (s1\<lparr>tl_help := HelpFree a\<rparr>))
     | _ \<Rightarrow> Inl Blocks)"

definition timer_helper :: "tl_sys stmt" where
  "timer_helper s = (case tl_help s of
       HelpStart a \<Rightarrow> bindE (deref (tl_heap s) (Some a)) (\<lambda>tip.
         Inr (s\<lparr>tl_out := tl_out s @ [sleep_line (to_wait tip)], tl_help := HelpSleep a\<rparr>))
     | HelpSleep a \<Rightarrow> Inr (s\<lparr>tl_help := HelpCall a\<rparr>)
     | HelpCall a \<Rightarrow> bindE (deref (tl_heap s) (Some a)) (\<lambda>tip. case to_fn tip of Retry \<Rightarrow> Inr (s\<lparr>tl_help := RetryLock a\<rparr>))
     | HelpFree a \<Rightarrow> if tl_heap s a = None then Inl UseAfterFree
         else Inr (s\<lparr>tl_heap := (tl_heap s)(a := None), tl_help := HelpDone\<rparr>)
     | HelpNone \<Rightarrow> Inl Blocks
     | HelpDone \<Rightarrow> Inl Blocks
     | _ \<Rightarrow> retry s)"

text \<open>
  \<open>main\<close>; its last loop spins until the flag is set, which is to make no step until then.
\<close>

definition timer_main :: "tl_env \<Rightarrow> tl_sys stmt" where
  "timer_main e s = (case tl_main s of
       MInit \<Rightarrow> if tl_mutexattr_init e \<noteq> 0 \<or> tl_settype e \<noteq> 0 \<or> tl_mutex_init e \<noteq> 0 then Inl (Exits (- 1))
         else Inr (s\<lparr>tl_main := MLock\<rparr>)
     | MLock \<Rightarrow> bindE (rec_lock MainThread s) (\<lambda>s1. Inr (s1\<lparr>tl_main := MTimeout\<rparr>))
     | MTimeout \<Rightarrow> bindE (timeout e 4 Retry None s) (\<lambda>s1. Inr (s1\<lparr>tl_main := MUnlock\<rparr>))
     | MUnlock \<Rightarrow> bindE (rec_unlock MainThread s) (\<lambda>s1. Inr (s1\<lparr>tl_main := MSpin\<rparr>))
     | MSpin \<Rightarrow> if tl_flag s = 0 then Inl Blocks else Inr (s\<lparr>tl_main := MEnd None\<rparr>)
     | MEnd r \<Rightarrow> Inl Blocks)"

definition tl_crash :: "c_fault \<Rightarrow> tl_sys \<Rightarrow> tl_sys" where
  "tl_crash x s = s\<lparr>tl_main := MEnd (Some x)\<rparr>"

definition tl_running :: "tl_sys \<Rightarrow> bool" where
  "tl_running s = (case tl_main s of MEnd r \<Rightarrow> False | _ \<Rightarrow> True)"

definition tl_step :: "tl_env \<Rightarrow> tl_sys \<Rightarrow> tl_sys \<Rightarrow> bool" where
  "tl_step e s s' \<longleftrightarrow> tl_running s \<and> (thread_step tl_crash (timer_main e) s s' \<or> thread_step tl_crash timer_helper s s')"

definition tl_start :: tl_sys where
  "tl_start = \<lparr>tl_heap = (\<lambda>a. None), tl_lock = None, tl_flag = 0, tl_main = MInit, tl_help = HelpNone, tl_out = []\<rparr>"

section \<open>Invariant\<close>

text \<open>Whether the set-up of the mutex fails, what \<open>makethread\<close> returns, and whether the thread gets started.\<close>

definition tl_init_fails :: "tl_env \<Rightarrow> bool" where
  "tl_init_fails e \<longleftrightarrow> tl_mutexattr_init e \<noteq> 0 \<or> tl_settype e \<noteq> 0 \<or> tl_mutex_init e \<noteq> 0"

definition tl_make_fails :: "tl_env \<Rightarrow> bool" where
  "tl_make_fails e \<longleftrightarrow> tl_malloc e \<noteq> None \<and> (tl_attr_init e \<noteq> 0 \<or> tl_setdetach e \<noteq> 0)"

definition tl_started :: "tl_env \<Rightarrow> bool" where
  "tl_started e \<longleftrightarrow> tl_malloc e \<noteq> None \<and> tl_attr_init e = 0 \<and> tl_setdetach e = 0 \<and> tl_create e = 0"

definition tl_lock_ok :: "tl_sys \<Rightarrow> bool" where
  "tl_lock_ok s \<longleftrightarrow> tl_lock s =
     (if tl_main s \<in> {MTimeout, MUnlock} then Some (MainThread, 1)
      else (case tl_help s of RetryPrint a \<Rightarrow> Some (TimerThread, 1) | RetryFlag a \<Rightarrow> Some (TimerThread, 1)
            | RetryUnlock a \<Rightarrow> Some (TimerThread, 1) | _ \<Rightarrow> None))
     \<and> (tl_main s \<in> {MTimeout, MUnlock} \<longrightarrow> (\<forall>a. tl_help s \<noteq> RetryPrint a \<and> tl_help s \<noteq> RetryFlag a \<and> tl_help s \<noteq> RetryUnlock a))"

text \<open>What the timer thread knows of its argument, the flag and the output at each place.\<close>

definition tl_help_ok :: "tl_sys \<Rightarrow> bool" where
  "tl_help_ok s \<longleftrightarrow> (let live = (\<lambda>a. tl_heap s a = Some \<lparr>to_fn = Retry, to_arg = None, to_wait = 4\<rparr>) in
     case tl_help s of
       HelpNone \<Rightarrow> tl_flag s = 0 \<and> tl_out s = []
     | HelpStart a \<Rightarrow> live a \<and> tl_flag s = 0 \<and> tl_out s = []
     | HelpSleep a \<Rightarrow> live a \<and> tl_flag s = 0 \<and> tl_out s = [sleep_line 4]
     | HelpCall a \<Rightarrow> live a \<and> tl_flag s = 0 \<and> tl_out s = [sleep_line 4]
     | RetryLock a \<Rightarrow> live a \<and> tl_flag s = 0 \<and> tl_out s = [sleep_line 4]
     | RetryPrint a \<Rightarrow> live a \<and> tl_flag s = 0 \<and> tl_out s = [sleep_line 4]
     | RetryFlag a \<Rightarrow> live a \<and> tl_flag s = 0 \<and> tl_out s = [sleep_line 4, retry_line]
     | RetryUnlock a \<Rightarrow> live a \<and> tl_flag s = 1 \<and> tl_out s = [sleep_line 4, retry_line]
     | HelpFree a \<Rightarrow> live a \<and> tl_flag s = 1 \<and> tl_out s = [sleep_line 4, retry_line]
     | HelpDone \<Rightarrow> tl_flag s = 1 \<and> tl_out s = [sleep_line 4, retry_line])"

definition tl_main_ok :: "tl_env \<Rightarrow> tl_sys \<Rightarrow> bool" where
  "tl_main_ok e s \<longleftrightarrow> (case tl_main s of
       MInit \<Rightarrow> tl_help s = HelpNone
     | MLock \<Rightarrow> tl_help s = HelpNone \<and> \<not> tl_init_fails e
     | MTimeout \<Rightarrow> tl_help s = HelpNone \<and> \<not> tl_init_fails e
     | MUnlock \<Rightarrow> (tl_help s \<noteq> HelpNone \<longleftrightarrow> tl_started e) \<and> \<not> tl_init_fails e \<and> \<not> tl_make_fails e
     | MSpin \<Rightarrow> (tl_help s \<noteq> HelpNone \<longleftrightarrow> tl_started e) \<and> \<not> tl_init_fails e \<and> \<not> tl_make_fails e
     | MEnd None \<Rightarrow> tl_out s = [sleep_line 4, retry_line] \<and> tl_flag s = 1 \<and> tl_started e \<and> \<not> tl_init_fails e
     | MEnd (Some x) \<Rightarrow> x = Exits (- 1) \<and> tl_out s = [] \<and> (tl_init_fails e \<or> tl_make_fails e))"

definition tl_inv :: "tl_env \<Rightarrow> tl_sys \<Rightarrow> bool" where
  "tl_inv e s \<longleftrightarrow> tl_main_ok e s \<and> (tl_running s \<longrightarrow> tl_lock_ok s \<and> tl_help_ok s)"

lemmas tl_ok_defs = tl_inv_def tl_main_ok_def tl_lock_ok_def tl_help_ok_def tl_running_def Let_def

lemma timer_helper_inv:
  assumes "thread_step tl_crash timer_helper s s'" and inv: "tl_inv e s" and run: "tl_running s"
  shows "tl_inv e s'"
proof (cases "tl_help s")
  case (RetryLock a)
  then show ?thesis using assms
    by (cases "tl_lock s") (auto simp: tl_ok_defs thread_step_def tl_crash_def timer_helper_def retry_def rec_lock_def split: tl_main_pc.splits)
qed (use assms in \<open>auto simp: tl_ok_defs thread_step_def tl_crash_def timer_helper_def retry_def rec_unlock_def split: tl_main_pc.splits timer_fn.splits\<close>)

lemma timer_main_inv:
  assumes "thread_step tl_crash (timer_main e) s s'" and inv: "tl_inv e s" and run: "tl_running s"
  shows "tl_inv e s'"
proof (cases "tl_main s")
  case MInit
  then show ?thesis using assms by (auto simp: tl_ok_defs thread_step_def tl_crash_def timer_main_def tl_init_fails_def split: if_splits)
next
  case MLock
  then show ?thesis using assms by (auto simp: tl_ok_defs thread_step_def tl_crash_def timer_main_def rec_lock_def)
next
  case MTimeout
  then show ?thesis using assms
    by (auto simp: tl_ok_defs thread_step_def tl_crash_def timer_main_def timeout_def makethread_def tl_started_def tl_make_fails_def
        split: option.splits if_splits)
next
  case MUnlock
  then show ?thesis using assms by (auto simp: tl_ok_defs thread_step_def tl_crash_def timer_main_def rec_unlock_def split: tl_help_pc.splits)
next
  case MSpin
  then show ?thesis using assms by (auto simp: tl_ok_defs thread_step_def tl_crash_def timer_main_def split: if_splits tl_help_pc.splits)
next
  case (MEnd r)
  then show ?thesis using run by (simp add: tl_running_def)
qed

primrec tl_main_rank :: "tl_main_pc \<Rightarrow> nat" where
  "tl_main_rank MInit = 5" | "tl_main_rank MLock = 4" | "tl_main_rank MTimeout = 3" | "tl_main_rank MUnlock = 2"
| "tl_main_rank MSpin = 1" | "tl_main_rank (MEnd r) = 0"

primrec tl_help_rank :: "tl_help_pc \<Rightarrow> nat" where
  "tl_help_rank HelpNone = 9" | "tl_help_rank (HelpStart a) = 8" | "tl_help_rank (HelpSleep a) = 7" | "tl_help_rank (HelpCall a) = 6"
| "tl_help_rank (RetryLock a) = 5" | "tl_help_rank (RetryPrint a) = 4" | "tl_help_rank (RetryFlag a) = 3" | "tl_help_rank (RetryUnlock a) = 2"
| "tl_help_rank (HelpFree a) = 1" | "tl_help_rank HelpDone = 0"

definition tl_msr :: "tl_sys \<Rightarrow> nat" where
  "tl_msr s = tl_main_rank (tl_main s) + tl_help_rank (tl_help s)"

lemma tl_main_rank_pos: "tl_running s \<Longrightarrow> 0 < tl_main_rank (tl_main s)"
  by (cases "tl_main s") (auto simp: tl_running_def)

lemma timer_helper_msr:
  "thread_step tl_crash timer_helper s s' \<Longrightarrow> tl_running s \<Longrightarrow> tl_msr s' < tl_msr s"
  by (cases "tl_help s")
     (auto simp: tl_msr_def thread_step_def tl_crash_def timer_helper_def retry_def rec_lock_def rec_unlock_def bindE_def
       split: sum.splits option.splits if_splits timer_fn.splits dest: tl_main_rank_pos)

lemma timer_main_msr:
  "thread_step tl_crash (timer_main e) s s' \<Longrightarrow> tl_inv e s \<Longrightarrow> tl_running s \<Longrightarrow> tl_msr s' < tl_msr s"
  by (cases "tl_main s")
     (auto simp: tl_msr_def thread_step_def tl_crash_def timer_main_def timeout_def makethread_def rec_lock_def rec_unlock_def bindE_def Let_def
       tl_inv_def tl_main_ok_def split: sum.splits option.splits if_splits)

interpretation timers: terminating_system "\<lambda>s. s = tl_start" "tl_step e" "tl_inv e" tl_msr for e
proof unfold_locales
  show "tl_inv e s" if "s = tl_start" for s
    using that by (simp add: tl_ok_defs tl_start_def)
  show "tl_inv e t" if "tl_inv e s" "tl_step e s t" for s t
    using that timer_helper_inv timer_main_inv unfolding tl_step_def by blast
  show "tl_msr t < tl_msr s" if "tl_inv e s" "tl_step e s t" for s t
    using that timer_helper_msr timer_main_msr unfolding tl_step_def by blast
qed

section \<open>Progress\<close>

lemma timer_helper_moves:
  assumes "tl_help_ok s" and "tl_help s \<notin> {HelpNone, HelpDone}" and "\<forall>a. tl_help s = RetryLock a \<longrightarrow> tl_lock s = None"
  shows "\<exists>s'. thread_step tl_crash timer_helper s s'"
  using assms by (intro thread_step_moves, cases "tl_help s")
    (auto simp: tl_help_ok_def Let_def timer_helper_def retry_def rec_lock_def rec_unlock_def split: option.splits timer_fn.splits)

text \<open>The program stops only when it has ended, or when \<open>main\<close> spins and no thread was started.\<close>

lemma tl_progress:
  assumes inv: "tl_inv e s" and run: "tl_running s" and idle: "\<not> (tl_main s = MSpin \<and> tl_help s = HelpNone)"
  shows "\<exists>t. tl_step e s t"
proof (cases "tl_main s = MSpin")
  case False
  then have "timer_main e s \<noteq> Inl Blocks"
    using inv run by (cases "tl_main s")
      (auto simp: tl_ok_defs timer_main_def rec_lock_def rec_unlock_def timeout_def Let_def bindE_def split: option.splits prod.splits)
  then show ?thesis using thread_step_moves [of "timer_main e" s tl_crash] run by (auto simp: tl_step_def)
next
  case True
  have ok: "tl_help_ok s" "tl_lock_ok s" using inv run by (auto simp: tl_inv_def)
  show ?thesis
  proof (cases "tl_help s = HelpDone")
    case fin: True
    then have "timer_main e s \<noteq> Inl Blocks" using True ok(1) by (simp add: timer_main_def tl_help_ok_def)
    then show ?thesis using thread_step_moves [of "timer_main e" s tl_crash] run by (auto simp: tl_step_def)
  next
    case False
    have "\<forall>a. tl_help s = RetryLock a \<longrightarrow> tl_lock s = None" using True ok(2) by (auto simp: tl_lock_ok_def)
    then show ?thesis using timer_helper_moves [OF ok(1)] False True idle run by (auto simp: tl_step_def)
  qed
qed

section \<open>Property\<close>


definition tl_no_thread :: tl_env where
  "tl_no_thread = \<lparr>tl_mutexattr_init = 0, tl_settype = 0, tl_mutex_init = 0, tl_malloc = Some 1, tl_attr_init = 0, tl_setdetach = 0, tl_create = 11\<rparr>"


end
