(* ===== verification/Thread_Env.thy ===== *)
theory Thread_Env
  imports C_Buffer
begin

text \<open>
  The reentrant \<open>getenv_\<close> (here \<open>getenv_thr\<close>) of \<open>pthread/getenv_thr.c\<close>: every thread gets the value in an array of its
  own, kept under a thread-specific key. The lemmas show that it finds what an association list
  finds, leaves the arrays of other threads alone, and when the array is left without terminator.
\<close>

section \<open>State and operation\<close>

definition MAXSTRINGSZ :: nat where
  "MAXSTRINGSZ = 4096"

text \<open>
  The arrays on the heap, the array each thread has under the key, whether the key was created, and
  the mutex.
\<close>

record env_sys =
  te_heap :: "addr \<rightharpoonup> cbuf"
  te_specific :: "nat \<Rightarrow> addr option"
  te_key :: bool
  te_locked :: bool

definition thread_init :: "env_sys \<Rightarrow> env_sys" where
  "thread_init s = s\<lparr>te_key := True, te_specific := (\<lambda>t. None)\<rparr>"

text \<open>\<open>pthread_once\<close> runs \<open>thread_init\<close> the first time only.\<close>

definition once_init :: "env_sys \<Rightarrow> env_sys" where
  "once_init s = (if te_key s then s else thread_init s)"

definition env_lock :: "env_sys stmt" where
  "env_lock s = (if te_locked s then Inl Blocks else Inr (s\<lparr>te_locked := True\<rparr>))"

definition env_unlock :: "env_sys \<Rightarrow> env_sys" where
  "env_unlock s = s\<lparr>te_locked := False\<rparr>"

text \<open>\<open>strncpy\<close> copies at most \<open>n\<close> characters and fills up with terminators.\<close>

definition strncpy :: "string \<Rightarrow> nat \<Rightarrow> cbuf \<Rightarrow> cbuf c" where
  "strncpy v n b = (if n \<le> length b
     then Inr (map Some (take n v) @ replicate (n - length v) (Some nul) @ drop n b) else Inl OutOfBounds)"

text \<open>The loop over \<open>environ\<close>: the first entry that starts with the name and an equals sign.\<close>

fun env_search :: "string \<Rightarrow> string list \<Rightarrow> string option" where
  "env_search nm [] = None"
| "env_search nm (e # es) =
     (if take (length nm) e = nm \<and> length nm < length e \<and> e ! length nm = CHR ''=''
      then Some (drop (length nm + 1) e) else env_search nm es)"

definition env_array :: "addr option \<Rightarrow> nat \<Rightarrow> env_sys \<Rightarrow> addr option \<times> env_sys" where
  "env_array m t s = (case te_specific s t of Some a \<Rightarrow> (Some a, s)
     | None \<Rightarrow> (case m of None \<Rightarrow> (None, s)
         | Some a \<Rightarrow> (Some a, s\<lparr>te_heap := (te_heap s)(a \<mapsto> replicate MAXSTRINGSZ None), te_specific := (te_specific s)(t := Some a)\<rparr>)))"

text \<open>\<open>m\<close> is what \<open>malloc\<close> would return.\<close>

definition getenv_thr :: "addr option \<Rightarrow> string list \<Rightarrow> nat \<Rightarrow> string \<Rightarrow> env_sys \<Rightarrow> (addr option \<times> env_sys) c" where
  "getenv_thr m environ t nm s0 = bindE (env_lock (once_init s0)) (\<lambda>s1.
     case env_array m t s1 of
       (None, s2) \<Rightarrow> Inr (None, env_unlock s2)
     | (Some a, s2) \<Rightarrow> (case env_search nm environ of
           None \<Rightarrow> Inr (None, env_unlock s2)
         | Some v \<Rightarrow> bindE (deref (te_heap s2) (Some a)) (\<lambda>b.
             bindE (strncpy v (MAXSTRINGSZ - 1) b) (\<lambda>b'.
               Inr (Some a, env_unlock (s2\<lparr>te_heap := (te_heap s2)(a \<mapsto> b')\<rparr>))))))"

text \<open>When a thread ends, the destructor of the key frees its array.\<close>

definition env_thread_exit :: "nat \<Rightarrow> env_sys stmt" where
  "env_thread_exit t s = (case te_specific s t of None \<Rightarrow> Inr s
     | Some a \<Rightarrow> (if te_heap s a = None then Inl UseAfterFree
         else Inr (s\<lparr>te_heap := (te_heap s)(a := None), te_specific := (te_specific s)(t := None)\<rparr>)))"

section \<open>Lemmas\<close>

text \<open>The environment as an association list, split at the first equals sign.\<close>

definition env_alist :: "string list \<Rightarrow> (string \<times> string) list" where
  "env_alist es = map (\<lambda>e. (takeWhile (\<lambda>x. x \<noteq> CHR ''='') e, tl (dropWhile (\<lambda>x. x \<noteq> CHR ''='') e)))
     (filter (\<lambda>e. CHR ''='' \<in> set e) es)"

lemma entry_shape:
  "(take (length nm) e = nm \<and> length nm < length e \<and> e ! length nm = CHR ''='')
    \<longleftrightarrow> e = nm @ CHR ''='' # drop (length nm + 1) e"
proof
  assume "take (length nm) e = nm \<and> length nm < length e \<and> e ! length nm = CHR ''=''"
  then show "e = nm @ CHR ''='' # drop (length nm + 1) e"
    using id_take_nth_drop [of "length nm" e] by simp
next
  assume e: "e = nm @ CHR ''='' # drop (length nm + 1) e"
  have "take (length nm) (nm @ CHR ''='' # r) = nm \<and> length nm < length (nm @ CHR ''='' # r) \<and> (nm @ CHR ''='' # r) ! length nm = CHR ''=''" for r
    by simp
  then show "take (length nm) e = nm \<and> length nm < length e \<and> e ! length nm = CHR ''=''"
    using e by metis
qed

lemma entry_split:
  assumes "CHR ''='' \<notin> set nm"
  shows "(\<exists>r. e = nm @ CHR ''='' # r) \<longleftrightarrow> CHR ''='' \<in> set e \<and> takeWhile (\<lambda>x. x \<noteq> CHR ''='') e = nm"
proof
  assume "\<exists>r. e = nm @ CHR ''='' # r"
  then show "CHR ''='' \<in> set e \<and> takeWhile (\<lambda>x. x \<noteq> CHR ''='') e = nm"
    using assms by (auto simp: takeWhile_append)
next
  assume r: "CHR ''='' \<in> set e \<and> takeWhile (\<lambda>x. x \<noteq> CHR ''='') e = nm"
  then obtain y ys where d: "dropWhile (\<lambda>x. x \<noteq> CHR ''='') e = y # ys"
    by (metis (mono_tags, lifting) dropWhile_eq_Nil_conv list.exhaust)
  then have "y = CHR ''=''" using hd_dropWhile [of "\<lambda>x. x \<noteq> CHR ''=''" e] by simp
  then show "\<exists>r. e = nm @ CHR ''='' # r" using d r takeWhile_dropWhile_id [of "\<lambda>x. x \<noteq> CHR ''=''" e] by metis
qed

lemma entry_value: "CHR ''='' \<notin> set nm \<Longrightarrow> tl (dropWhile (\<lambda>x. x \<noteq> CHR ''='') (nm @ CHR ''='' # r)) = r"
  by (auto simp: dropWhile_append)

lemma env_search_alist: "CHR ''='' \<notin> set nm \<Longrightarrow> env_search nm es = map_of (env_alist es) nm"
proof (induction es)
  case (Cons e es)
  show ?case
  proof (cases "\<exists>r. e = nm @ CHR ''='' # r")
    case True
    then obtain r where r: "e = nm @ CHR ''='' # r" by blast
    then show ?thesis
      using Cons.prems entry_split [of nm e] entry_value [of nm r] by (simp add: env_alist_def)
  next
    case False
    then have "\<not> (take (length nm) e = nm \<and> length nm < length e \<and> e ! length nm = CHR ''='')"
      using entry_shape [of nm e] by blast
    then show ?thesis using False Cons entry_split [of nm e] by (auto simp: env_alist_def)
  qed
qed (simp add: env_alist_def)

text \<open>Every array has its full size, its last cell was never stored to, and no two threads share one.\<close>

definition env_ok :: "env_sys \<Rightarrow> bool" where
  "env_ok s \<longleftrightarrow> \<not> te_locked s
     \<and> (\<forall>t a. te_specific s t = Some a \<longrightarrow> (\<exists>b. te_heap s a = Some b \<and> length b = MAXSTRINGSZ \<and> b ! (MAXSTRINGSZ - 1) = None))
     \<and> (\<forall>t u a. te_specific s t = Some a \<longrightarrow> te_specific s u = Some a \<longrightarrow> t = u)
     \<and> (te_key s \<or> (\<forall>t. te_specific s t = None))"

lemma strncpy_result:
  assumes "length b = MAXSTRINGSZ" and "b ! (MAXSTRINGSZ - 1) = None" and "nul \<notin> set v"
  shows "\<exists>b'. strncpy v (MAXSTRINGSZ - 1) b = Inr b' \<and> length b' = MAXSTRINGSZ \<and> b' ! (MAXSTRINGSZ - 1) = None
    \<and> c_str b' = (if length v < MAXSTRINGSZ - 1 then Inr v else Inl Uninitialised)"
proof -
  have tail: "drop (MAXSTRINGSZ - 1) b = [None]"
    using assms(1,2) Cons_nth_drop_Suc [of "MAXSTRINGSZ - 1" b] by (simp add: MAXSTRINGSZ_def)
  let ?b = "map Some (take (MAXSTRINGSZ - 1) v) @ replicate (MAXSTRINGSZ - 1 - length v) (Some nul) @ [None]"
  have "strncpy v (MAXSTRINGSZ - 1) b = Inr ?b" using assms(1) tail by (simp add: strncpy_def)
  moreover have len: "length ?b = MAXSTRINGSZ" by (simp add: MAXSTRINGSZ_def min_def)
  moreover have "?b ! (MAXSTRINGSZ - 1) = None" using len last_conv_nth [of ?b] by simp
  moreover have "c_str ?b = (if length v < MAXSTRINGSZ - 1 then Inr v else Inl Uninitialised)"
  proof (cases "length v < MAXSTRINGSZ - 1")
    case True
    then obtain k where "MAXSTRINGSZ - 1 - length v = Suc k" by (metis Suc_diff_Suc)
    with True assms(3) show ?thesis by simp
  next
    case False
    moreover have "nul \<notin> set (take (MAXSTRINGSZ - 1) v)" using assms(3) by (meson in_set_takeD)
    ultimately show ?thesis using c_str_uninitialised [of "take (MAXSTRINGSZ - 1) v" "[]"] by simp
  qed
  ultimately show ?thesis by blast
qed

lemma once_init_ok: "env_ok s \<Longrightarrow> te_specific (once_init s) = te_specific s \<and> te_heap (once_init s) = te_heap s
    \<and> te_key (once_init s) \<and> te_locked (once_init s) = te_locked s"
  by (auto simp: env_ok_def once_init_def thread_init_def)

lemma env_ok_array:
  "env_ok s \<Longrightarrow> te_specific s t = Some a \<Longrightarrow> \<exists>b. te_heap s a = Some b \<and> length b = MAXSTRINGSZ \<and> b ! (MAXSTRINGSZ - 1) = None"
  by (simp add: env_ok_def)

text \<open>The state in which the search runs: the mutex is held and the thread has an array.\<close>

definition env_ready :: "addr option \<Rightarrow> nat \<Rightarrow> env_sys \<Rightarrow> env_sys" where
  "env_ready m t s = snd (env_array m t ((once_init s)\<lparr>te_locked := True\<rparr>))"

lemma env_array_ok:
  assumes ok: "env_ok s" and fresh: "\<forall>a. m = Some a \<longrightarrow> te_heap s a = None"
  shows "env_array m t ((once_init s)\<lparr>te_locked := True\<rparr>) = (te_specific (env_ready m t s) t, env_ready m t s)"
    and "env_ok (env_unlock (env_ready m t s))"
    and "u \<noteq> t \<Longrightarrow> te_specific (env_ready m t s) u = te_specific s u"
    and "te_specific s u = Some a \<Longrightarrow> te_heap (env_ready m t s) a = te_heap s a"
    and "te_specific (env_ready m t s) t = (case te_specific s t of None \<Rightarrow> m | Some a \<Rightarrow> Some a)"
proof -
  note once = once_init_ok [OF ok]
  have used: "te_heap s a \<noteq> None" if "te_specific s u = Some a" for u a
    using ok that unfolding env_ok_def by blast
  show "env_array m t ((once_init s)\<lparr>te_locked := True\<rparr>) = (te_specific (env_ready m t s) t, env_ready m t s)"
    using once by (auto simp: env_ready_def env_array_def split: option.splits)
  show "u \<noteq> t \<Longrightarrow> te_specific (env_ready m t s) u = te_specific s u"
    using once by (auto simp: env_ready_def env_array_def split: option.splits)
  show "te_specific s u = Some a \<Longrightarrow> te_heap (env_ready m t s) a = te_heap s a"
    using once used [of u a] fresh by (auto simp: env_ready_def env_array_def split: option.splits)
  show "te_specific (env_ready m t s) t = (case te_specific s t of None \<Rightarrow> m | Some a \<Rightarrow> Some a)"
    using once by (auto simp: env_ready_def env_array_def split: option.splits)
  show "env_ok (env_unlock (env_ready m t s))"
  proof (cases "te_specific s t = None \<and> m \<noteq> None")
    case True
    then obtain a where a: "te_specific s t = None" "m = Some a" "te_heap s a = None" using fresh by auto
    have ready: "te_heap (env_ready m t s) = (te_heap s)(a \<mapsto> replicate MAXSTRINGSZ None)"
      "te_specific (env_ready m t s) = (te_specific s)(t := Some a)" "te_key (env_ready m t s)"
      using a once by (auto simp: env_ready_def env_array_def)
    have other: "te_specific s u \<noteq> Some a" for u using used [of u a] a(3) by auto
    show ?thesis
      using ok other unfolding env_ok_def by (simp add: env_unlock_def ready) (simp add: MAXSTRINGSZ_def, blast)
  next
    case False
    then have "env_ready m t s = (once_init s)\<lparr>te_locked := True\<rparr>"
      using once by (auto simp: env_ready_def env_array_def split: option.splits)
    then show ?thesis using ok once by (simp add: env_unlock_def env_ok_def)
  qed
qed

lemma getenv_thr_cases:
  assumes ok: "env_ok s" and fresh: "\<forall>a. m = Some a \<longrightarrow> te_heap s a = None"
  shows "getenv_thr m es t nm s = (case te_specific (env_ready m t s) t of
      None \<Rightarrow> Inr (None, env_unlock (env_ready m t s))
    | Some a \<Rightarrow> (case env_search nm es of
          None \<Rightarrow> Inr (None, env_unlock (env_ready m t s))
        | Some v \<Rightarrow> bindE (deref (te_heap (env_ready m t s)) (Some a)) (\<lambda>b.
             bindE (strncpy v (MAXSTRINGSZ - 1) b) (\<lambda>b'.
               Inr (Some a, env_unlock ((env_ready m t s)\<lparr>te_heap := (te_heap (env_ready m t s))(a \<mapsto> b')\<rparr>))))))"
proof -
  have "env_lock (once_init s) = Inr ((once_init s)\<lparr>te_locked := True\<rparr>)"
    using ok once_init_ok [OF ok] by (simp add: env_lock_def env_ok_def)
  then show ?thesis
    using env_array_ok(1) [OF ok fresh, of t] by (simp add: getenv_thr_def split: option.splits)
qed

lemma env_ok_store:
  assumes "env_ok (env_unlock s)" and "te_specific s t = Some a"
    and "length b = MAXSTRINGSZ" and "b ! (MAXSTRINGSZ - 1) = None"
  shows "env_ok (env_unlock (s\<lparr>te_heap := (te_heap s)(a \<mapsto> b)\<rparr>))"
  using assms by (auto simp: env_ok_def env_unlock_def)

lemma env_search_no_nul: "env_search nm es = Some v \<Longrightarrow> (\<forall>e\<in>set es. nul \<notin> set e) \<Longrightarrow> nul \<notin> set v"
  by (induction es) (auto split: if_splits dest: in_set_dropD)

text \<open>A call that finds the name, as one statement about the array of the thread.\<close>

lemma getenv_thr_found:
  assumes ok: "env_ok s" and fresh: "\<forall>a. m = Some a \<longrightarrow> te_heap s a = None"
    and arr: "te_specific (env_ready m t s) t = Some a" and v: "env_search nm es = Some v" and nz: "nul \<notin> set v"
  shows "\<exists>b s'. getenv_thr m es t nm s = Inr (Some a, s') \<and> env_ok s' \<and> te_heap s' = (te_heap (env_ready m t s))(a \<mapsto> b)
    \<and> te_specific s' = te_specific (env_ready m t s)
    \<and> c_str b = (if length v < MAXSTRINGSZ - 1 then Inr v else Inl Uninitialised)"
proof -
  let ?s = "env_ready m t s"
  note ready = env_array_ok(2) [OF ok fresh, of t]
  then obtain b where b: "te_heap ?s a = Some b" "length b = MAXSTRINGSZ" "b ! (MAXSTRINGSZ - 1) = None"
    using arr env_ok_array [of "env_unlock ?s" t a] by (auto simp: env_unlock_def)
  from strncpy_result [OF b(2,3) nz] obtain b' where
    b': "strncpy v (MAXSTRINGSZ - 1) b = Inr b'" "length b' = MAXSTRINGSZ" "b' ! (MAXSTRINGSZ - 1) = None"
      "c_str b' = (if length v < MAXSTRINGSZ - 1 then Inr v else Inl Uninitialised)" by blast
  have "getenv_thr m es t nm s = Inr (Some a, env_unlock (?s\<lparr>te_heap := (te_heap ?s)(a \<mapsto> b')\<rparr>))"
    using getenv_thr_cases [OF ok fresh, of es t nm] arr v b(1) b'(1) by simp
  moreover have "env_ok (env_unlock (?s\<lparr>te_heap := (te_heap ?s)(a \<mapsto> b')\<rparr>))"
    using env_ok_store [OF ready arr b'(2,3)] .
  ultimately show ?thesis using b'(4) by (intro exI [of _ b'] exI) (auto simp: env_unlock_def)
qed

lemma getenv_thr_absent:
  assumes "env_ok s" and "\<forall>a. m = Some a \<longrightarrow> te_heap s a = None"
    and "te_specific (env_ready m t s) t = None \<or> env_search nm es = None"
  shows "getenv_thr m es t nm s = Inr (None, env_unlock (env_ready m t s))"
  using getenv_thr_cases [OF assms(1,2), of es t nm] assms(3) by (auto split: option.splits)

lemma getenv_thr_others:
  assumes ok: "env_ok s" and fresh: "\<forall>a. m = Some a \<longrightarrow> te_heap s a = None" and env: "\<forall>e\<in>set es. nul \<notin> set e"
  shows "\<exists>r s'. getenv_thr m es t nm s = Inr (r, s') \<and> env_ok s'
    \<and> (\<forall>u a. u \<noteq> t \<longrightarrow> te_specific s u = Some a \<longrightarrow> te_specific s' u = Some a \<and> te_heap s' a = te_heap s a)"
proof (cases "te_specific (env_ready m t s) t = None \<or> env_search nm es = None")
  case True
  show ?thesis
    using getenv_thr_absent [OF ok fresh True] env_array_ok(2) [OF ok fresh, of t]
      env_array_ok(3) [OF ok fresh, of _ t] env_array_ok(4) [OF ok fresh, of _ _ t] by (simp add: env_unlock_def)
next
  case False
  then obtain a v where av: "te_specific (env_ready m t s) t = Some a" "env_search nm es = Some v" by auto
  from getenv_thr_found [OF ok fresh av env_search_no_nul [OF av(2) env]] obtain b s' where
    r: "getenv_thr m es t nm s = Inr (Some a, s')" "env_ok s'" "te_heap s' = (te_heap (env_ready m t s))(a \<mapsto> b)"
      "te_specific s' = te_specific (env_ready m t s)" by blast
  have "te_specific s' u = Some a' \<and> te_heap s' a' = te_heap s a'" if "u \<noteq> t" "te_specific s u = Some a'" for u a'
  proof -
    have "te_specific s' u = Some a'" using that r(4) env_array_ok(3) [OF ok fresh, of u t] by simp
    moreover have "a' \<noteq> a" using r(2) calculation av(1) r(4) that(1) unfolding env_ok_def by metis
    ultimately show ?thesis using r(3) env_array_ok(4) [OF ok fresh that(2), of t] by simp
  qed
  then show ?thesis using r(1,2) by blast
qed

text \<open>What threads do to the arrays: call the function, or end. \<open>alloc\<close> is the allocator.\<close>

datatype env_op = Getenv nat "string list" string | ThreadEnd nat

fun op_thread :: "env_op \<Rightarrow> nat" where
  "op_thread (Getenv t es nm) = t"
| "op_thread (ThreadEnd t) = t"

fun op_env :: "env_op \<Rightarrow> string list" where
  "op_env (Getenv t es nm) = es"
| "op_env (ThreadEnd t) = []"

fun env_do :: "((addr \<rightharpoonup> cbuf) \<Rightarrow> addr option) \<Rightarrow> env_op \<Rightarrow> env_sys stmt" where
  "env_do alloc (Getenv t es nm) s = bindE (getenv_thr (alloc (te_heap s)) es t nm s) (\<lambda>(r, s'). Inr s')"
| "env_do alloc (ThreadEnd t) s = env_thread_exit t s"

lemma env_thread_exit_others:
  assumes "env_ok s"
  shows "\<exists>s'. env_thread_exit t s = Inr s' \<and> env_ok s'
    \<and> (\<forall>u a. u \<noteq> t \<longrightarrow> te_specific s u = Some a \<longrightarrow> te_specific s' u = Some a \<and> te_heap s' a = te_heap s a)"
proof (cases "te_specific s t")
  case None
  then show ?thesis using assms by (simp add: env_thread_exit_def)
next
  case (Some a)
  have ne: "te_specific s u = Some a' \<Longrightarrow> u \<noteq> t \<Longrightarrow> a' \<noteq> a" for u a'
    using assms Some unfolding env_ok_def by blast
  let ?s = "s\<lparr>te_heap := (te_heap s)(a := None), te_specific := (te_specific s)(t := None)\<rparr>"
  have "env_thread_exit t s = Inr ?s"
    using Some env_ok_array [OF assms Some] by (auto simp: env_thread_exit_def)
  moreover have "env_ok ?s" using assms ne unfolding env_ok_def by simp blast
  ultimately show ?thesis using ne by auto
qed

lemma env_do_others:
  assumes ok: "env_ok s" and alloc: "\<forall>h a. alloc h = Some a \<longrightarrow> h a = None" and env: "\<forall>e\<in>set (op_env p). nul \<notin> set e"
  shows "\<exists>s'. env_do alloc p s = Inr s' \<and> env_ok s'
    \<and> (\<forall>u a. u \<noteq> op_thread p \<longrightarrow> te_specific s u = Some a \<longrightarrow> te_specific s' u = Some a \<and> te_heap s' a = te_heap s a)"
proof (cases p)
  case (Getenv t es nm)
  have "\<forall>a. alloc (te_heap s) = Some a \<longrightarrow> te_heap s a = None" using alloc by blast
  from getenv_thr_others [OF ok this, of es t nm] env obtain r s' where
    "getenv_thr (alloc (te_heap s)) es t nm s = Inr (r, s')" "env_ok s'"
    "\<forall>u a. u \<noteq> t \<longrightarrow> te_specific s u = Some a \<longrightarrow> te_specific s' u = Some a \<and> te_heap s' a = te_heap s a"
    using Getenv by auto
  then show ?thesis using Getenv by simp
next
  case (ThreadEnd t)
  then show ?thesis using env_thread_exit_others [OF ok, of t] by simp
qed

lemma env_run_others:
  assumes "env_ok s" and alloc: "\<forall>h a. alloc h = Some a \<longrightarrow> h a = None"
    and "\<forall>p\<in>set ps. op_thread p \<noteq> t \<and> (\<forall>e\<in>set (op_env p). nul \<notin> set e)" and "te_specific s t = Some a"
  shows "\<exists>s'. run_stmts (map (env_do alloc) ps) s = Inr s' \<and> env_ok s' \<and> te_specific s' t = Some a \<and> te_heap s' a = te_heap s a"
  using assms(1,3,4)
proof (induction ps arbitrary: s)
  case (Cons p ps)
  from Cons.prems(2) have "\<forall>e\<in>set (op_env p). nul \<notin> set e" and p: "t \<noteq> op_thread p" by auto
  from env_do_others [OF Cons.prems(1) alloc this(1)] obtain s1 where s1: "env_do alloc p s = Inr s1" "env_ok s1"
    "\<forall>u a. u \<noteq> op_thread p \<longrightarrow> te_specific s u = Some a \<longrightarrow> te_specific s1 u = Some a \<and> te_heap s1 a = te_heap s a" by blast
  then have "te_specific s1 t = Some a" "te_heap s1 a = te_heap s a" using p Cons.prems(3) by blast+
  then show ?case using Cons.IH [OF s1(2)] Cons.prems(2) s1(1) by simp
qed simp

section \<open>Properties\<close>

text \<open>
  C18: when the array can be had, \<open>getenv_\<close> returns what looking the name up in the environment as an
  association list returns: a null pointer when the name is not there, otherwise the thread's own array, which
  holds the value as a string if the value has fewer than 4095 characters, and is no terminated string if it
  has more. The mutex is free afterwards, so the next call does not block.
\<close>

theorem getenv_thr_looks_up:
  assumes "env_ok s" and "\<forall>a. m = Some a \<longrightarrow> te_heap s a = None" and "m \<noteq> None \<or> te_specific s t \<noteq> None"
    and "CHR ''='' \<notin> set nm" and "\<forall>e\<in>set es. nul \<notin> set e"
  shows "\<exists>r s'. getenv_thr m es t nm s = Inr (r, s') \<and> env_ok s'
    \<and> (case map_of (env_alist es) nm of None \<Rightarrow> r = None
       | Some v \<Rightarrow> (\<exists>a b. r = Some a \<and> te_specific s' t = Some a \<and> te_heap s' a = Some b
           \<and> c_str b = (if length v < MAXSTRINGSZ - 1 then Inr v else Inl Uninitialised)))"
proof -
  obtain a where a: "te_specific (env_ready m t s) t = Some a"
    using assms(3) env_array_ok(5) [OF assms(1,2), of t] by (auto split: option.splits)
  show ?thesis
  proof (cases "env_search nm es")
    case None
    then show ?thesis
      using getenv_thr_absent [OF assms(1,2), of t nm es] env_array_ok(2) [OF assms(1,2), of t] env_search_alist [OF assms(4), of es] by simp
  next
    case (Some v)
    then show ?thesis
      using getenv_thr_found [OF assms(1,2) a Some env_search_no_nul [OF Some assms(5)]] a env_search_alist [OF assms(4), of es]
      by fastforce
  qed
qed

definition env_init :: env_sys where
  "env_init = \<lparr>te_heap = (\<lambda>a. None), te_specific = (\<lambda>t. None), te_key = False, te_locked = False\<rparr>"

lemma env_init_ok: "env_ok env_init"
  by (simp add: env_ok_def env_init_def)

theorem getenv_thr_looks_up_witness:
  "\<exists>a s' b. getenv_thr (Some 7) [''HOME=/root'', ''TERM=a=b''] 1 ''TERM'' env_init = Inr (Some a, s')
    \<and> te_heap s' a = Some b \<and> c_str b = Inr ''a=b''"
  using getenv_thr_looks_up [of env_init "Some 7" 1 "''TERM''" "[''HOME=/root'', ''TERM=a=b'']"] env_init_ok
  by (simp add: env_alist_def MAXSTRINGSZ_def) (simp add: env_init_def, blast)

text \<open>
  C19: whatever calls of \<open>getenv_\<close> the other threads make, in any order and with any environment,
  and whichever of them end, a thread keeps its array and what is in it.
\<close>

theorem getenv_thr_isolated:
  assumes "env_ok s" and "\<forall>h a. alloc h = Some a \<longrightarrow> h a = None"
    and "\<forall>p\<in>set ps. op_thread p \<noteq> t \<and> (\<forall>e\<in>set (op_env p). nul \<notin> set e)"
    and "te_specific s t = Some a" and "te_heap s a = Some b"
  shows "\<exists>s'. run_stmts (map (env_do alloc) ps) s = Inr s' \<and> te_specific s' t = Some a \<and> te_heap s' a = Some b"
  using env_run_others [OF assms(1-4)] assms(5) by auto

definition env_two :: env_sys where
  "env_two = \<lparr>te_heap = [3 \<mapsto> replicate MAXSTRINGSZ None], te_specific = (\<lambda>t. if t = 1 then Some 3 else None), te_key = True, te_locked = False\<rparr>"

lemma env_two_ok: "env_ok env_two"
  using nth_replicate [of "MAXSTRINGSZ - 1" MAXSTRINGSZ "None :: char option"]
  by (simp add: env_ok_def env_two_def) (simp add: MAXSTRINGSZ_def)

theorem getenv_thr_isolated_witness:
  "\<exists>s'. run_stmts (map (env_do (\<lambda>h. if h 5 = None then Some 5 else None)) [Getenv 2 [''A=b''] ''A'', ThreadEnd 2]) env_two = Inr s'
    \<and> te_specific s' 1 = Some 3 \<and> te_heap s' 3 = Some (replicate MAXSTRINGSZ None)"
proof (rule getenv_thr_isolated)
  show "env_ok env_two" by (rule env_two_ok)
  show "te_specific env_two 1 = Some 3" "te_heap env_two 3 = Some (replicate MAXSTRINGSZ None)"
    by (simp_all add: env_two_def)
qed (auto split: if_splits)

end
