(* ===== verification/Signals.thy ===== *)
theory Signals
  imports C_Text
begin

text \<open>
  Programs that send and receive signals: \<open>signal/signal_demo.c\<close>, \<open>signal/sig_sender.c\<close>,
  \<open>signal/sig_receiver.c\<close>, \<open>signal/rt_signal.c\<close> and \<open>signal/rt_sig_recv.c\<close>. The lemmas show how often
  a signal that was sent while it was blocked is caught, and that queued real-time signals
  arrive completely and in order.
\<close>

section \<open>Pending signals\<close>

definition NSIG :: nat where "NSIG = 65"
definition SIGINT :: nat where "SIGINT = 2"
definition SIGQUIT :: nat where "SIGQUIT = 3"
definition SIGTERM :: nat where "SIGTERM = 15"
definition SIGTSTP :: nat where "SIGTSTP = 20"

datatype si_code = SI_USER | SI_QUEUE

record siginfo =
  si_signo :: nat
  si_code :: si_code
  si_value :: int
  si_pid :: int
  si_uid :: int

text \<open>
  Of a standard signal, number 31 or below, at most one instance is pending; instances of a
  real-time signal are queued.
\<close>

definition post :: "siginfo \<Rightarrow> siginfo list \<Rightarrow> siginfo list" where
  "post si q = (if si_signo si < 32 \<and> si_signo si \<in> set (map si_signo q) then q else q @ [si])"

definition post_all :: "siginfo list \<Rightarrow> siginfo list" where
  "post_all sis = fold post sis []"

text \<open>\<open>sigpending\<close>, as a predicate on signal numbers.\<close>

definition sigpending :: "siginfo list \<Rightarrow> nat \<Rightarrow> bool" where
  "sigpending q n \<longleftrightarrow> n \<in> set (map si_signo q)"

section \<open>Printing signal sets\<close>

text \<open>\<open>strsignal\<close> is a parameter.\<close>

definition sig_line :: "(nat \<Rightarrow> string) \<Rightarrow> string \<Rightarrow> nat \<Rightarrow> string" where
  "sig_line strsignal prefix sig = prefix @ dec (int sig) @ '' ('' @ strsignal sig @ '')'' @ [CHR 0x0A]"

definition print_sigset :: "(nat \<Rightarrow> string) \<Rightarrow> string \<Rightarrow> (nat \<Rightarrow> bool) \<Rightarrow> string list \<Rightarrow> string list" where
  "print_sigset strsignal prefix sigset out0 =
     (let (cnt, out) = fold (\<lambda>sig (cnt, out). if sigset sig then (cnt + 1, out @ [sig_line strsignal prefix sig]) else (cnt, out))
                            [1..<NSIG] (0 :: int, out0)
      in if cnt = 0 then out @ [prefix @ ''<empty signal set>'' @ [CHR 0x0A]] else out)"

definition tabs2 :: string where
  "tabs2 = [CHR 0x09, CHR 0x09]"

text \<open>\<open>set\<close> is what \<open>sigprocmask\<close> or \<open>sigpending\<close> stores, or \<open>None\<close> when it fails.\<close>

definition print_sigmask :: "(nat \<Rightarrow> string) \<Rightarrow> (nat \<Rightarrow> bool) option \<Rightarrow> string option \<Rightarrow> string list \<Rightarrow> int \<times> string list" where
  "print_sigmask strsignal curr_mask msg out =
     (let out1 = (case msg of None \<Rightarrow> out | Some m \<Rightarrow> out @ [m])
      in case curr_mask of None \<Rightarrow> (-1, out1) | Some s \<Rightarrow> (0, print_sigset strsignal tabs2 s out1))"

definition print_pendingsigs :: "(nat \<Rightarrow> string) \<Rightarrow> (nat \<Rightarrow> bool) option \<Rightarrow> string option \<Rightarrow> string list \<Rightarrow> int \<times> string list" where
  "print_pendingsigs strsignal pending_sigs msg out =
     (let out1 = (case msg of None \<Rightarrow> out | Some m \<Rightarrow> out @ [m])
      in case pending_sigs of None \<Rightarrow> (-1, out1) | Some s \<Rightarrow> (0, print_sigset strsignal tabs2 s out1))"

section \<open>Sending\<close>

text \<open>
  The process that sends: its process and user numbers, and the number of the receiver. \<open>kill\<close> and
  \<open>sigqueue\<close> fail for another process and for a number that is no signal; number 0 only tests.
\<close>

record sender =
  sd_pid :: int
  sd_uid :: int
  sd_target :: int

definition kill_fails :: "sender \<Rightarrow> int \<Rightarrow> int \<Rightarrow> bool" where
  "kill_fails p pid sig \<longleftrightarrow> pid \<noteq> sd_target p \<or> sig < 0 \<or> int NSIG \<le> sig"

definition siginfo_of :: "sender \<Rightarrow> int \<Rightarrow> si_code \<Rightarrow> int \<Rightarrow> siginfo list" where
  "siginfo_of p sig code v = (if sig = 0 then []
     else [\<lparr>si_signo = nat sig, si_code = code, si_value = v, si_pid = sd_pid p, si_uid = sd_uid p\<rparr>])"

text \<open>The loop of \<open>sig_sender.c\<close>: whether every call worked, and the signals sent.\<close>

fun kill_loop :: "sender \<Rightarrow> int \<Rightarrow> int \<Rightarrow> nat \<Rightarrow> bool \<times> siginfo list" where
  "kill_loop p pid sig 0 = (True, [])"
| "kill_loop p pid sig (Suc n) =
     (if kill_fails p pid sig then (False, [])
      else (let (ok, sent) = kill_loop p pid sig n in (ok, siginfo_of p sig SI_USER 0 @ sent)))"

text \<open>The exit status of \<open>sig_sender.c\<close> and the signals it has sent; \<open>argv\<close> holds the arguments.\<close>

definition sig_sender :: "sender \<Rightarrow> string list \<Rightarrow> int \<times> siginfo list" where
  "sig_sender p argv =
     (if length argv < 4 \<or> argv ! 1 = ''--help'' then (0, [])
      else (let sig = atoi (argv ! 3); num_sigs = atoi (argv ! 2); pid = atoi (argv ! 1);
                (ok, sent) = kill_loop p pid sig (nat num_sigs)
            in if \<not> ok then (-1, sent)
               else if length argv > 4
               then (if kill_fails p pid (atoi (argv ! 4)) then (-1, sent)
                     else (0, sent @ siginfo_of p (atoi (argv ! 4)) SI_USER 0))
               else (0, sent)))"

text \<open>
  The loop of \<open>rt_signal.c\<close> from \<open>i\<close> on, for \<open>n\<close> more rounds; the sum is computed in \<open>int\<close>.
\<close>

fun queue_loop :: "sender \<Rightarrow> int \<Rightarrow> int \<Rightarrow> int \<Rightarrow> int \<Rightarrow> nat \<Rightarrow> (bool \<times> siginfo list) c" where
  "queue_loop p pid sig sigData i 0 = Inr (True, [])"
| "queue_loop p pid sig sigData i (Suc n) =
     (if \<not> in_int (sigData + i) then Inl Overflow
      else if kill_fails p pid sig then Inr (False, [])
      else bindE (queue_loop p pid sig sigData (i + 1) n) (\<lambda>(ok, sent).
             Inr (ok, siginfo_of p sig SI_QUEUE (sigData + i) @ sent)))"

definition rt_signal :: "sender \<Rightarrow> string list \<Rightarrow> (int \<times> siginfo list) c" where
  "rt_signal p argv =
     (if length argv < 4 \<or> argv ! 1 = ''--help'' then Inr (0, [])
      else (let sig = atoi (argv ! 2); sigData = atoi (argv ! 3);
                numSigs = (if length argv > 4 then atoi (argv ! 4) else 1)
            in bindE (queue_loop p (atoi (argv ! 1)) sig sigData 0 (nat numSigs)) (\<lambda>(ok, sent).
                 Inr (if ok then 0 else -1, sent))))"

section \<open>Counting signals\<close>

record receiver =
  sig_cnt :: "int list"
  got_sigint :: bool

definition sig_handler :: "nat \<Rightarrow> receiver stmt" where
  "sig_handler signo r =
     (if signo = SIGINT then Inr (r\<lparr>got_sigint := True\<rparr>)
      else bindE (aget (sig_cnt r) signo) (\<lambda>k.
           bindE (aset (sig_cnt r) signo (k + 1)) (\<lambda>cs. Inr (r\<lparr>sig_cnt := cs\<rparr>))))"

text \<open>The loop that waits for \<open>SIGINT\<close>, while signals are caught; \<open>None\<close> if it still waits after the last.\<close>

fun spin :: "nat list \<Rightarrow> receiver \<Rightarrow> receiver option c" where
  "spin [] r = Inr (if got_sigint r then Some r else None)"
| "spin (n # ns) r = (if got_sigint r then Inr (Some r) else bindE (sig_handler n r) (spin ns))"

definition count_line :: "string \<Rightarrow> nat \<Rightarrow> int \<Rightarrow> string" where
  "count_line prog n k = prog @ '': signal '' @ dec (int n) @ '' caught '' @ dec k @ '' time'' @ (if k = 1 then '''' else ''s'') @ [CHR 0x0A]"

definition print_counts :: "string \<Rightarrow> receiver \<Rightarrow> string list" where
  "print_counts prog r = concat (map (\<lambda>n. if sig_cnt r ! n \<noteq> 0 then [count_line prog n (sig_cnt r ! n)] else []) [1..<NSIG])"

text \<open>
  What happens around the receiver: its process number, whether the three calls for the mask work,
  the signals sent while it sleeps with all signals blocked, the order in which the handlers of those still pending
  run once they are unblocked, and the signals caught later.
\<close>

record recv_env =
  re_pid :: int
  re_block :: bool
  re_pending :: bool
  re_unblock :: bool
  re_sent :: "siginfo list"
  re_order :: "nat list"
  re_later :: "nat list"

definition recv_start :: receiver where
  "recv_start = \<lparr>sig_cnt = replicate NSIG 0, got_sigint = False\<rparr>"

text \<open>Between the mask and the waiting loop: the lines printed and the counters.\<close>

definition recv_blocked :: "(nat \<Rightarrow> string) \<Rightarrow> recv_env \<Rightarrow> string \<Rightarrow> string \<Rightarrow> receiver \<Rightarrow> (receiver \<times> string list) c" where
  "recv_blocked strsignal e prog secs r =
     (if \<not> re_block e then Inl (Exits (-1))
      else if \<not> re_pending e then Inl (Exits (-1))
      else if \<not> re_unblock e then Inl (Exits (-1))
      else bindE (run_stmts (map sig_handler (re_order e)) r) (\<lambda>r1.
        Inr (r1, print_sigset strsignal tabs2 (sigpending (post_all (re_sent e)))
               [prog @ '': sleeping for '' @ dec (atoi secs) @ '' seconds'' @ [CHR 0x0A],
                prog @ '': pending signals are: '' @ [CHR 0x0A]])))"

definition sig_receiver :: "(nat \<Rightarrow> string) \<Rightarrow> recv_env \<Rightarrow> string list \<Rightarrow> string list option c" where
  "sig_receiver strsignal e argv =
     bindE (aget argv 0) (\<lambda>prog.
     bindE (if length argv > 1 then recv_blocked strsignal e prog (argv ! 1) recv_start else Inr (recv_start, [])) (\<lambda>(r, out).
     bindE (spin (re_later e) r) (\<lambda>w. Inr (case w of None \<Rightarrow> None
       | Some r' \<Rightarrow> Some ([prog @ ''s: PID is '' @ dec (re_pid e) @ [CHR 0x0A]] @ out @ print_counts prog r')))))"

section \<open>Receiving queued signals\<close>

record rt_recv =
  sigCnt :: int
  allDone :: bool
  rt_out :: "string list"

definition code_name :: "si_code \<Rightarrow> string" where
  "code_name c = (if c = SI_USER then ''SI_USER'' else if c = SI_QUEUE then ''SI_QUEUE'' else ''other'')"

text \<open>On Linux, \<open>SI_USER\<close> is 0 and \<open>SI_QUEUE\<close> is -1.\<close>

primrec code_num :: "si_code \<Rightarrow> int" where
  "code_num SI_USER = 0"
| "code_num SI_QUEUE = -1"

definition info_lines :: "siginfo \<Rightarrow> string list" where
  "info_lines si =
     [''Caught signal '' @ dec (int (si_signo si)) @ [CHR 0x0A],
      [CHR 0x09] @ ''si_signo = '' @ dec (int (si_signo si)) @ '', si_code = '' @ dec (code_num (si_code si)) @ '' ('' @ code_name (si_code si) @ ''), '',
      ''si_value = '' @ dec (si_value si) @ [CHR 0x0A],
      [CHR 0x09] @ ''si_pid = '' @ dec (si_pid si) @ '', si_uid = '' @ dec (si_uid si) @ [CHR 0x0A]]"

definition siginfoHandler :: "siginfo \<Rightarrow> rt_recv \<Rightarrow> rt_recv" where
  "siginfoHandler si r =
     (if si_signo si = SIGINT \<or> si_signo si = SIGTERM then r\<lparr>allDone := True\<rparr>
      else r\<lparr>sigCnt := sigCnt r + 1, rt_out := rt_out r @ info_lines si\<rparr>)"

text \<open>While the others are blocked, \<open>SIGINT\<close> and \<open>SIGTERM\<close> are caught at once and the rest becomes pending.\<close>

fun rt_arrive :: "siginfo \<Rightarrow> rt_recv \<times> siginfo list \<Rightarrow> rt_recv \<times> siginfo list" where
  "rt_arrive si (r, q) = (if si_signo si = SIGINT \<or> si_signo si = SIGTERM then (siginfoHandler si r, q) else (r, post si q))"

text \<open>
  A handler runs with all signals blocked, so the pending ones are handled one after the other: the
  lowest number first, and those with the same number in the order in which they were sent.
\<close>

definition rt_unblock :: "rt_recv \<times> siginfo list \<Rightarrow> rt_recv" where
  "rt_unblock = (\<lambda>(r, q). fold siginfoHandler (sort_key si_signo q) r)"

fun pause_loop :: "siginfo list \<Rightarrow> rt_recv \<Rightarrow> rt_recv option" where
  "pause_loop [] r = (if allDone r then Some r else None)"
| "pause_loop (si # sis) r = (if allDone r then Some r else pause_loop sis (siginfoHandler si r))"

definition rt_print :: "string \<Rightarrow> rt_recv \<Rightarrow> rt_recv" where
  "rt_print l r = r\<lparr>rt_out := rt_out r @ [l]\<rparr>"

text \<open>
  \<open>main\<close>: \<open>argv\<close> has a null pointer behind its last argument. \<open>blk\<close> and \<open>unblk\<close> say whether the calls of
  \<open>sigprocmask\<close> work, \<open>sent\<close> and \<open>later\<close> are the signals during and after the first sleep; \<open>SIGTSTP\<close> and
  \<open>SIGQUIT\<close>, which have no handler, are not among them.
\<close>

definition rt_sig_recv :: "int \<Rightarrow> bool \<Rightarrow> bool \<Rightarrow> siginfo list \<Rightarrow> siginfo list \<Rightarrow> string list \<Rightarrow> rt_recv option c" where
  "rt_sig_recv pid blk unblk sent later argv =
     bindE (aget (map Some argv @ [None]) 0) (\<lambda>a0. case a0 of None \<Rightarrow> Inl NullDeref | Some prog \<Rightarrow>
     bindE (aget (map Some argv @ [None]) 2) (\<lambda>a2. case a2 of None \<Rightarrow> Inl NullDeref | Some sleep_time \<Rightarrow>
       (let r0 = rt_print (prog @ '': PID is '' @ dec pid @ [CHR 0x0A]) \<lparr>sigCnt = 0, allDone = False, rt_out = []\<rparr> in
        bindE (if length argv > 1
          then (if \<not> blk then Inl (Exits (-1))
                else (let r1 = rt_print (prog @ '': signals blocked - sleeping '' @ argv ! 1 @ '' seconds'' @ [CHR 0x0A]) r0;
                          (r2, q) = fold rt_arrive sent (r1, []);
                          r3 = rt_print (prog @ '': sleep complete'' @ [CHR 0x0A]) r2
                      in if \<not> unblk then Inl (Exits (-1)) else Inr (rt_unblock (r3, q))))
          else Inr r0)
        (\<lambda>r. Inr (pause_loop later r)))))"

section \<open>The queue of pending signals\<close>

text \<open>What the programs rely on: how many instances of each signal are pending after one more was sent.\<close>

locale signal_queue =
  fixes send :: "siginfo \<Rightarrow> 'q \<Rightarrow> 'q"
    and instances :: "'q \<Rightarrow> nat multiset"
    and none :: 'q
  assumes none_pending: "instances none = {#}"
    and send_count: "count (instances (send si q)) n =
      (if n = si_signo si \<and> (32 \<le> n \<or> count (instances q) n = 0) then Suc (count (instances q) n) else count (instances q) n)"
begin

lemma sent_count:
  "count (instances (fold send sis q)) n =
     (if n < 32 then (if count (instances q) n = 0 then min 1 (count_list (map si_signo sis) n) else count (instances q) n)
      else count (instances q) n + count_list (map si_signo sis) n)"
  by (induction sis arbitrary: q) (auto simp: send_count count_eq_zero_iff)

lemma pending_count:
  "count (instances (fold send sis none)) n =
     (if n < 32 then min 1 (count_list (map si_signo sis) n) else count_list (map si_signo sis) n)"
  by (simp add: sent_count none_pending)

end

interpretation pending: signal_queue post "\<lambda>q. mset (map si_signo q)" "[]"
  by unfold_locales (auto simp: post_def count_eq_zero_iff)

lemma count_list_mset: "count_list xs n = count (mset xs) n"
  by (induction xs) auto

lemma post_all_count:
  "count_list (map si_signo (post_all sis)) n =
     (if n < 32 then min 1 (count_list (map si_signo sis) n) else count_list (map si_signo sis) n)"
  using pending.pending_count [of sis n] by (simp add: post_all_def count_list_mset)

lemma post_all_set: "set (map si_signo (post_all sis)) = set (map si_signo sis)"
proof -
  have "n \<in> set (map si_signo (post_all sis)) \<longleftrightarrow> n \<in> set (map si_signo sis)" for n
    using post_all_count [of sis n] count_list_0_iff [of "map si_signo (post_all sis)" n] count_list_0_iff [of "map si_signo sis" n]
    by (simp split: if_splits add: min_def)
  then show ?thesis by blast
qed

section \<open>Printing\<close>

definition sigset_lines :: "(nat \<Rightarrow> string) \<Rightarrow> string \<Rightarrow> (nat \<Rightarrow> bool) \<Rightarrow> string list" where
  "sigset_lines strsignal prefix S = (if \<forall>n\<in>{1..<NSIG}. \<not> S n then [prefix @ ''<empty signal set>'' @ [CHR 0x0A]]
     else map (sig_line strsignal prefix) (filter S [1..<NSIG]))"

lemma sigset_fold:
  "fold (\<lambda>sig (cnt, out). if S sig then (cnt + 1, out @ [f sig]) else (cnt, out)) ns (c :: int, out) =
     (c + int (length (filter S ns)), out @ map f (filter S ns))"
  by (induction ns arbitrary: c out) auto

lemma print_sigset_lines: "print_sigset strsignal prefix S out = out @ sigset_lines strsignal prefix S"
proof -
  have "(\<forall>n\<in>{1..<NSIG}. \<not> S n) \<longleftrightarrow> filter S [1..<NSIG] = []" by (auto simp: filter_empty_conv)
  then show ?thesis by (simp add: print_sigset_def sigset_fold sigset_lines_def)
qed

lemma concat_single:
  "concat (map (\<lambda>n. if n = k then [f n] else []) [a..<b]) = (if a \<le> k \<and> k < b then [f k] else [])"
  by (induction b) auto

section \<open>Counting\<close>

lemma handlers_count:
  assumes "length (sig_cnt r) = NSIG" and "\<forall>n\<in>set ns. n < NSIG"
  shows "\<exists>r'. run_stmts (map sig_handler ns) r = Inr r' \<and> length (sig_cnt r') = NSIG
    \<and> got_sigint r' = (got_sigint r \<or> SIGINT \<in> set ns)
    \<and> (\<forall>m<NSIG. sig_cnt r' ! m = sig_cnt r ! m + (if m = SIGINT then 0 else int (count_list ns m)))"
  using assms
proof (induction ns arbitrary: r)
  case (Cons n ns)
  let ?r = "if n = SIGINT then r\<lparr>got_sigint := True\<rparr> else r\<lparr>sig_cnt := (sig_cnt r)[n := sig_cnt r ! n + 1]\<rparr>"
  have h: "sig_handler n r = Inr ?r" using Cons.prems by (simp add: sig_handler_def)
  have "length (sig_cnt ?r) = NSIG" "\<forall>m\<in>set ns. m < NSIG" using Cons.prems by auto
  from Cons.IH [OF this] obtain r' where r': "run_stmts (map sig_handler ns) ?r = Inr r'" "length (sig_cnt r') = NSIG"
    "got_sigint r' = (got_sigint ?r \<or> SIGINT \<in> set ns)"
    "\<forall>m<NSIG. sig_cnt r' ! m = sig_cnt ?r ! m + (if m = SIGINT then 0 else int (count_list ns m))" by blast
  have "\<forall>m<NSIG. sig_cnt r' ! m = sig_cnt r ! m + (if m = SIGINT then 0 else int (count_list (n # ns) m))"
    using r'(4) Cons.prems(1) by (auto simp: nth_list_update)
  then show ?case using h r' by auto
qed simp

text \<open>The waiting loop is the handlers of the signals up to the first \<open>SIGINT\<close>.\<close>

definition until_int :: "nat list \<Rightarrow> nat list" where
  "until_int ns = takeWhile (\<lambda>n. n \<noteq> SIGINT) ns"

lemma spin_done: "got_sigint r \<Longrightarrow> spin ns r = Inr (Some r)"
  by (cases ns) auto

lemma spin_result:
  assumes "length (sig_cnt r) = NSIG" and "\<forall>n\<in>set ns. n < NSIG" and "got_sigint r \<or> SIGINT \<in> set ns"
  shows "\<exists>r'. spin ns r = Inr (Some r')
    \<and> (\<forall>m<NSIG. sig_cnt r' ! m = sig_cnt r ! m + (if got_sigint r then 0 else int (count_list (until_int ns) m)))"
  using assms
proof (induction ns arbitrary: r)
  case (Cons n ns)
  show ?case
  proof (cases "got_sigint r")
    case False
    show ?thesis
    proof (cases "n = SIGINT")
      case True
      then show ?thesis using False by (simp add: sig_handler_def until_int_def spin_done)
    next
      case ne: False
      let ?r = "r\<lparr>sig_cnt := (sig_cnt r)[n := sig_cnt r ! n + 1]\<rparr>"
      have "sig_handler n r = Inr ?r" using Cons.prems ne by (simp add: sig_handler_def)
      moreover obtain r' where "spin ns ?r = Inr (Some r')"
        "\<forall>m<NSIG. sig_cnt r' ! m = sig_cnt ?r ! m + int (count_list (until_int ns) m)"
        using Cons.IH [of ?r] Cons.prems False ne by auto
      ultimately show ?thesis using False ne Cons.prems(1) by (auto simp: until_int_def nth_list_update)
    qed
  qed (simp add: spin_done)
qed simp

text \<open>How often the handler has counted a signal when the loop ends.\<close>

definition caught :: "recv_env \<Rightarrow> nat \<Rightarrow> int" where
  "caught e n = (if n = SIGINT then 0 else
     int (if n < 32 then min 1 (count_list (map si_signo (re_sent e)) n) else count_list (map si_signo (re_sent e)) n)
     + (if SIGINT \<in> set (map si_signo (re_sent e)) then 0 else int (count_list (until_int (re_later e)) n)))"

definition recv_ok :: "recv_env \<Rightarrow> bool" where
  "recv_ok e \<longleftrightarrow> re_block e \<and> re_pending e \<and> re_unblock e
     \<and> mset (re_order e) = mset (map si_signo (post_all (re_sent e)))
     \<and> (\<forall>n\<in>set (map si_signo (re_sent e)) \<union> set (re_later e). n < NSIG)"

definition recv_lines :: "(nat \<Rightarrow> string) \<Rightarrow> recv_env \<Rightarrow> string \<Rightarrow> string \<Rightarrow> string list" where
  "recv_lines strsignal e prog secs =
     [prog @ ''s: PID is '' @ dec (re_pid e) @ [CHR 0x0A], prog @ '': sleeping for '' @ dec (atoi secs) @ '' seconds'' @ [CHR 0x0A],
      prog @ '': pending signals are: '' @ [CHR 0x0A]]
     @ sigset_lines strsignal tabs2 (\<lambda>n. n \<in> set (map si_signo (re_sent e)))"

lemma recv_counters:
  assumes "recv_ok e" and "SIGINT \<in> set (map si_signo (re_sent e)) \<union> set (re_later e)"
  shows "\<exists>r r'. run_stmts (map sig_handler (re_order e)) recv_start = Inr r \<and> spin (re_later e) r = Inr (Some r')
    \<and> (\<forall>n<NSIG. sig_cnt r' ! n = caught e n)"
proof -
  have order: "set (re_order e) = set (map si_signo (re_sent e))"
    "\<And>n. count_list (re_order e) n = (if n < 32 then min 1 (count_list (map si_signo (re_sent e)) n) else count_list (map si_signo (re_sent e)) n)"
    using assms(1) post_all_set [of "re_sent e"] post_all_count [of "re_sent e"] mset_eq_setD [of "re_order e" "map si_signo (post_all (re_sent e))"]
    by (auto simp: recv_ok_def count_list_mset)
  have start: "length (sig_cnt recv_start) = NSIG" "\<not> got_sigint recv_start" "\<And>n. n < NSIG \<Longrightarrow> sig_cnt recv_start ! n = 0"
    by (simp_all add: recv_start_def)
  obtain r where r: "run_stmts (map sig_handler (re_order e)) recv_start = Inr r" "length (sig_cnt r) = NSIG"
    "got_sigint r = (SIGINT \<in> set (re_order e))" "\<forall>m<NSIG. sig_cnt r ! m = (if m = SIGINT then 0 else int (count_list (re_order e) m))"
    using handlers_count [OF start(1), of "re_order e"] start assms(1) order(1) by (auto simp: recv_ok_def)
  obtain r' where r': "spin (re_later e) r = Inr (Some r')"
    "\<forall>m<NSIG. sig_cnt r' ! m = sig_cnt r ! m + (if got_sigint r then 0 else int (count_list (until_int (re_later e)) m))"
    using spin_result [OF r(2), of "re_later e"] assms r(3) order(1) by (auto simp: recv_ok_def)
  have "SIGINT \<notin> set (until_int (re_later e))" by (auto simp: until_int_def dest: set_takeWhileD)
  then have "count_list (until_int (re_later e)) SIGINT = 0" by (rule count_notin)
  then have "\<forall>n<NSIG. sig_cnt r' ! n = caught e n" using r'(2) r(3,4) order by (auto simp: caught_def)
  then show ?thesis using r(1) r'(1) by blast
qed

lemma sig_receiver_lines:
  assumes "recv_ok e" and "SIGINT \<in> set (map si_signo (re_sent e)) \<union> set (re_later e)"
  shows "sig_receiver strsignal e [prog, secs] = Inr (Some (recv_lines strsignal e prog secs
    @ concat (map (\<lambda>n. if caught e n \<noteq> 0 then [count_line prog n (caught e n)] else []) [1..<NSIG])))"
proof -
  obtain r r' where r: "run_stmts (map sig_handler (re_order e)) recv_start = Inr r" "spin (re_later e) r = Inr (Some r')"
    "\<forall>n<NSIG. sig_cnt r' ! n = caught e n" using recv_counters [OF assms] by blast
  have "sigpending (post_all (re_sent e)) = (\<lambda>n. n \<in> set (map si_signo (re_sent e)))"
    unfolding sigpending_def post_all_set by simp
  moreover have "print_counts prog r' = concat (map (\<lambda>n. if caught e n \<noteq> 0 then [count_line prog n (caught e n)] else []) [1..<NSIG])"
    unfolding print_counts_def using r(3) by (intro arg_cong [where f = concat] map_cong) auto
  ultimately show ?thesis
    using assms(1) r(1,2) by (simp add: sig_receiver_def recv_blocked_def recv_ok_def recv_lines_def print_sigset_lines)
qed

section \<open>Properties\<close>

text \<open>
  What \<open>sig_receiver\<close> reports. Once it got \<open>SIGINT\<close> it prints the set of signals that were pending, in
  ascending order, and for every signal how often it was caught: a standard signal sent while it was blocked counts
  once however often it was sent, a real-time signal counts every time, and later ones count until the \<open>SIGINT\<close>.
  This does not depend on the order in which the pending signals are delivered.
\<close>

lemma sig_receiver_counts:
  assumes "recv_ok e" and "SIGINT \<in> set (map si_signo (re_sent e)) \<union> set (re_later e)"
  shows "sig_receiver strsignal e [prog, secs] = Inr (Some (recv_lines strsignal e prog secs
    @ concat (map (\<lambda>n. if caught e n \<noteq> 0 then [count_line prog n (caught e n)] else []) [1..<NSIG])))"
  using assms by (rule sig_receiver_lines)

definition usr_info :: "nat \<Rightarrow> siginfo" where
  "usr_info n = \<lparr>si_signo = n, si_code = SI_USER, si_value = 0, si_pid = 7, si_uid = 0\<rparr>"

definition busy_env :: recv_env where
  "busy_env = \<lparr>re_pid = 9, re_block = True, re_pending = True, re_unblock = True,
     re_sent = [usr_info 10, usr_info 10, usr_info 40, usr_info 40], re_order = [40, 10, 40], re_later = [12, 2]\<rparr>"

section \<open>Senders\<close>

definition info_of :: "sender \<Rightarrow> nat \<Rightarrow> si_code \<Rightarrow> int \<Rightarrow> siginfo" where
  "info_of p n code v = \<lparr>si_signo = n, si_code = code, si_value = v, si_pid = sd_pid p, si_uid = sd_uid p\<rparr>"

lemma info_of_signo [simp]: "si_signo (info_of p n code v) = n"
  by (simp add: info_of_def)

lemma siginfo_of_info: "0 < n \<Longrightarrow> siginfo_of p (int n) code v = [info_of p n code v]"
  by (simp add: siginfo_of_def info_of_def)

lemma kill_works: "n < NSIG \<Longrightarrow> \<not> kill_fails p (sd_target p) (int n)"
  by (simp add: kill_fails_def)

lemma kill_loop_all:
  "0 < n \<Longrightarrow> n < NSIG \<Longrightarrow> kill_loop p (sd_target p) (int n) k = (True, replicate k (info_of p n SI_USER 0))"
  by (induction k) (simp_all add: kill_works siginfo_of_info)

lemma queue_loop_all:
  assumes "0 < n" and "n < NSIG" and "in_int (v + i)" and "in_int (v + i + int k)"
  shows "queue_loop p (sd_target p) (int n) v i k = Inr (True, map (\<lambda>j. info_of p n SI_QUEUE (v + i + int j)) [0..<k])"
  using assms(3,4)
proof (induction k arbitrary: i)
  case (Suc k)
  have "in_int (v + (i + 1))" "in_int (v + (i + 1) + int k)" using Suc.prems by (auto simp: in_int_def)
  from Suc.IH [OF this] have "queue_loop p (sd_target p) (int n) v i (Suc k)
      = Inr (True, info_of p n SI_QUEUE (v + i) # map (\<lambda>j. info_of p n SI_QUEUE (v + (i + 1) + int j)) [0..<k])"
    using Suc.prems(1) assms(1,2) by (simp add: kill_works siginfo_of_info)
  moreover have "map (\<lambda>j. info_of p n SI_QUEUE (v + i + int j)) [0..<Suc k] =
      info_of p n SI_QUEUE (v + i) # map (\<lambda>j. info_of p n SI_QUEUE (v + (i + 1) + int j)) [0..<k]"
    by (simp only: upt_conv_Cons [of 0 "Suc k"] zero_less_Suc map_Suc_upt [symmetric] list.map map_map comp_def) (simp add: ac_simps)
  ultimately show ?case by simp
qed simp

lemma dec_not_help: "0 < i \<Longrightarrow> dec i \<noteq> ''--help''"
proof
  assume "0 < i" "dec i = ''--help''"
  then have "atoi ''--help'' = i" using atoi_dec [of i] by simp
  then show False using \<open>0 < i\<close> by (simp add: atoi_def digit_val_def)
qed

lemma sig_sender_sends:
  assumes "0 < sd_target p" and "0 < n" and "n < NSIG"
  shows "sig_sender p [prog, dec (sd_target p), dec (int k), dec (int n)] = (0, replicate k (info_of p n SI_USER 0))"
  using assms by (simp add: sig_sender_def dec_not_help atoi_dec kill_loop_all)

lemma rt_signal_sends:
  assumes "0 < sd_target p" and "0 < n" and "n < NSIG" and "in_int v" and "in_int (v + int k)"
  shows "rt_signal p [prog, dec (sd_target p), dec (int n), dec v, dec (int k)] = Inr (0, map (\<lambda>j. info_of p n SI_QUEUE (v + int j)) [0..<k])"
  using assms queue_loop_all [of n v 0 k p] by (simp add: rt_signal_def dec_not_help atoi_dec)

section \<open>Queued signals\<close>

lemma post_all_rt: "\<forall>si\<in>set sis. 32 \<le> si_signo si \<Longrightarrow> fold post sis q = q @ sis"
  by (induction sis arbitrary: q) (auto simp: post_def)

lemma sort_key_same: "\<forall>x\<in>set xs. f x = (k :: nat) \<Longrightarrow> sort_key f xs = xs"
proof (induction xs)
  case (Cons x xs)
  then show ?case by (cases xs) auto
qed simp

definition ends_loop :: "siginfo \<Rightarrow> bool" where
  "ends_loop si \<longleftrightarrow> si_signo si = SIGINT \<or> si_signo si = SIGTERM"

lemma arrive_pending: "\<forall>si\<in>set sis. \<not> ends_loop si \<Longrightarrow> fold rt_arrive sis (r, q) = (r, fold post sis q)"
  by (induction sis arbitrary: q) (auto simp: ends_loop_def)

lemma handlers_print:
  "\<forall>si\<in>set sis. \<not> ends_loop si \<Longrightarrow> fold siginfoHandler sis r =
     r\<lparr>sigCnt := sigCnt r + int (length sis), rt_out := rt_out r @ concat (map info_lines sis)\<rparr>"
  by (induction sis arbitrary: r) (auto simp: ends_loop_def siginfoHandler_def)

lemma post_all_subset: "set (fold post sis q) \<subseteq> set sis \<union> set q"
proof (induction sis arbitrary: q)
  case (Cons si sis)
  have "set (post si q) \<subseteq> insert si (set q)" by (auto simp: post_def)
  then show ?case using Cons [of "post si q"] by auto
qed simp

definition rt_head :: "int \<Rightarrow> string \<Rightarrow> string \<Rightarrow> string list" where
  "rt_head pid prog a1 = [prog @ '': PID is '' @ dec pid @ [CHR 0x0A],
     prog @ '': signals blocked - sleeping '' @ a1 @ '' seconds'' @ [CHR 0x0A], prog @ '': sleep complete'' @ [CHR 0x0A]]"

text \<open>What was sent during the sleep is handled by number, then in the order of sending.\<close>

lemma rt_sig_recv_pending:
  assumes "\<forall>si\<in>set sent. \<not> ends_loop si" and "ends_loop fin"
  shows "\<exists>r. rt_sig_recv pid True True sent (fin # later) [prog, a1, a2] = Inr (Some r)
    \<and> sigCnt r = int (length (post_all sent)) \<and> rt_out r = rt_head pid prog a1 @ concat (map info_lines (sort_key si_signo (post_all sent)))"
proof -
  let ?q = "sort_key si_signo (post_all sent)"
  have "set (post_all sent) \<subseteq> set sent" using post_all_subset [of sent "[]"] by (simp add: post_all_def)
  then have "\<forall>si\<in>set ?q. \<not> ends_loop si" using assms(1) by auto
  then have unblk: "rt_unblock (r, post_all sent) = r\<lparr>sigCnt := sigCnt r + int (length (post_all sent)), rt_out := rt_out r @ concat (map info_lines ?q)\<rparr>" for r
    by (simp add: rt_unblock_def handlers_print)
  have arr: "fold rt_arrive sent (r, []) = (r, post_all sent)" for r
    using arrive_pending [OF assms(1)] by (simp add: post_all_def)
  have fin: "pause_loop (fin # later) r = Some (r\<lparr>allDone := True\<rparr>)" if "\<not> allDone r" for r
    using that assms(2) by (cases later) (auto simp: ends_loop_def siginfoHandler_def)
  show ?thesis
    by (simp del: pause_loop.simps add: rt_sig_recv_def arr unblk fin rt_print_def rt_head_def)
qed

text \<open>The second argument is read in any case, though the code treats it as optional.\<close>

lemma rt_sig_recv_arguments:
  "rt_sig_recv pid blk unblk sent later [prog] = Inl OutOfBounds"
  "rt_sig_recv pid blk unblk sent later [prog, a1] = Inl NullDeref"
  by (simp_all add: rt_sig_recv_def aget_def)

section \<open>Senders and receivers together\<close>


definition loud_sender :: sender where
  "loud_sender = \<lparr>sd_pid = 7, sd_uid = 0, sd_target = 9\<rparr>"

definition loud_env :: recv_env where
  "loud_env = \<lparr>re_pid = 9, re_block = True, re_pending = True, re_unblock = True,
     re_sent = snd (sig_sender loud_sender [''send'', dec 9, dec (int 3), dec (int 10)]), re_order = [10], re_later = [SIGINT]\<rparr>"

lemma loud_sent: "re_sent loud_env = replicate 3 (info_of loud_sender 10 SI_USER 0)"
  using sig_sender_sends [of loud_sender 10 "''send''" 3] by (simp add: loud_env_def loud_sender_def NSIG_def)




end
