(* ===== verification/Signal_Thread.thy ===== *)
theory Signal_Thread
  imports Signals
begin

text \<open>
  A thread that waits for signals on behalf of the process and wakes \<open>main\<close> when it sees \<open>SIGQUIT\<close>
  (\<open>pthread/pthread_signal.c\<close>). The lemmas show what is printed and how the process ends for every sequence of
  signals, interleaving and number of spurious wake-ups.
\<close>

section \<open>The two threads\<close>

datatype ts_who = MainOwner | WaiterOwner

datatype ts_main_pc = SMask | SCreate | SLock | STest | SAsleep | SWoken | SPrint | SRestore | SEnd "c_fault option"

datatype ts_thr_pc = TNone | TWait | TLock | TSet | TUnlock | TSignal | TDone

text \<open>
  \<open>ts_sigs\<close> holds what the calls of \<open>sigwait\<close> still to come return: an error number and a signal. All signals are
  blocked in both threads, so they arrive in no other way.
\<close>

record ts_sys =
  ts_quitflag :: int
  ts_lock :: "ts_who option"
  ts_sigs :: "(int \<times> nat) list"
  ts_spurious :: nat
  ts_main :: ts_main_pc
  ts_thr :: ts_thr_pc
  ts_out :: "string list"

text \<open>What \<open>pthread_sigmask\<close>, \<open>pthread_create\<close> and the last \<open>sigprocmask\<close> return.\<close>

record ts_env =
  ts_sigmask :: int
  ts_create :: int
  ts_restore :: int

definition ts_acquire :: "ts_who \<Rightarrow> ts_sys stmt" where
  "ts_acquire u s = (if ts_lock s = None then Inr (s\<lparr>ts_lock := Some u\<rparr>) else Inl Blocks)"

definition interrupt_line :: string where
  "interrupt_line = [newline] @ ''interrupt'' @ [newline]"

definition unexpected_line :: "nat \<Rightarrow> string" where
  "unexpected_line n = ''unexpected signal: '' @ dec (int n) @ [newline]"

definition quit_line :: string where
  "quit_line = ''SIGQUIT received'' @ [newline]"

definition ts_exit :: "c_fault \<Rightarrow> ts_sys \<Rightarrow> ts_sys" where
  "ts_exit x s = s\<lparr>ts_main := SEnd (Some x)\<rparr>"

text \<open>One round of the loop of \<open>thr_fn\<close> up to the \<open>switch\<close> on the signal.\<close>

definition thr_sigwait :: "ts_sys stmt" where
  "thr_sigwait s = (case ts_sigs s of [] \<Rightarrow> Inl Blocks
     | (err, signo) # r \<Rightarrow>
         (let s1 = s\<lparr>ts_sigs := r\<rparr> in
          if err \<noteq> 0 then Inr (ts_exit (Exits (- 1)) s1)
          else if signo = SIGINT then Inr (s1\<lparr>ts_out := ts_out s1 @ [interrupt_line]\<rparr>)
          else if signo = SIGQUIT then Inr (s1\<lparr>ts_thr := TLock\<rparr>)
          else Inr (ts_exit (Exits (- 1)) (s1\<lparr>ts_out := ts_out s1 @ [unexpected_line signo]\<rparr>))))"

definition sig_thr_fn :: "ts_sys stmt" where
  "sig_thr_fn s = (case ts_thr s of
       TNone \<Rightarrow> Inl Blocks
     | TWait \<Rightarrow> thr_sigwait s
     | TLock \<Rightarrow> bindE (ts_acquire WaiterOwner s) (\<lambda>s1. Inr (s1\<lparr>ts_thr := TSet\<rparr>))
     | TSet \<Rightarrow> Inr (s\<lparr>ts_quitflag := 1, ts_thr := TUnlock\<rparr>)
     | TUnlock \<Rightarrow> Inr (s\<lparr>ts_lock := None, ts_thr := TSignal\<rparr>)
     | TSignal \<Rightarrow> Inr (s\<lparr>ts_thr := TDone, ts_main := if ts_main s = SAsleep then SWoken else ts_main s\<rparr>)
     | TDone \<Rightarrow> Inl Blocks)"

definition sig_main :: "ts_env \<Rightarrow> ts_sys stmt" where
  "sig_main e s = (case ts_main s of
       SMask \<Rightarrow> if ts_sigmask e \<noteq> 0 then Inl (Exits (- 1)) else Inr (s\<lparr>ts_main := SCreate\<rparr>)
     | SCreate \<Rightarrow> if ts_create e \<noteq> 0 then Inl (Exits (- 1)) else Inr (s\<lparr>ts_thr := TWait, ts_main := SLock\<rparr>)
     | SLock \<Rightarrow> bindE (ts_acquire MainOwner s) (\<lambda>s1. Inr (s1\<lparr>ts_main := STest\<rparr>))
     | STest \<Rightarrow> if ts_quitflag s = 0 then Inr (s\<lparr>ts_lock := None, ts_main := SAsleep\<rparr>) else Inr (s\<lparr>ts_main := SPrint\<rparr>)
     | SAsleep \<Rightarrow> (case ts_spurious s of 0 \<Rightarrow> Inl Blocks | Suc k \<Rightarrow> Inr (s\<lparr>ts_spurious := k, ts_main := SWoken\<rparr>))
     | SWoken \<Rightarrow> bindE (ts_acquire MainOwner s) (\<lambda>s1. Inr (s1\<lparr>ts_main := STest\<rparr>))
     | SPrint \<Rightarrow> Inr (s\<lparr>ts_out := ts_out s @ [quit_line], ts_main := SRestore\<rparr>)
     | SRestore \<Rightarrow> if ts_restore e \<noteq> 0 then Inl (Exits (- 1)) else Inr (s\<lparr>ts_main := SEnd None\<rparr>)
     | SEnd r \<Rightarrow> Inl Blocks)"

definition ts_running :: "ts_sys \<Rightarrow> bool" where
  "ts_running s = (case ts_main s of SEnd r \<Rightarrow> False | _ \<Rightarrow> True)"

definition ts_step :: "ts_env \<Rightarrow> ts_sys \<Rightarrow> ts_sys \<Rightarrow> bool" where
  "ts_step e s s' \<longleftrightarrow> ts_running s \<and> (thread_step ts_exit (sig_main e) s s' \<or> thread_step ts_exit sig_thr_fn s s')"

definition ts_start :: "(int \<times> nat) list \<Rightarrow> nat \<Rightarrow> ts_sys" where
  "ts_start sigs k = \<lparr>ts_quitflag = 0, ts_lock = None, ts_sigs = sigs, ts_spurious = k, ts_main = SMask, ts_thr = TNone, ts_out = []\<rparr>"

section \<open>Invariant\<close>

text \<open>How many times \<open>SIGINT\<close> comes before anything else.\<close>

definition ints :: "(int \<times> nat) list \<Rightarrow> nat" where
  "ints xs = length (takeWhile (\<lambda>x. x = (0, SIGINT)) xs)"

definition ts_lock_ok :: "ts_sys \<Rightarrow> bool" where
  "ts_lock_ok s \<longleftrightarrow> (ts_lock s = Some MainOwner \<longleftrightarrow> ts_main s \<in> {STest, SPrint, SRestore})
     \<and> (ts_lock s = Some WaiterOwner \<longleftrightarrow> ts_thr s \<in> {TSet, TUnlock})"

text \<open>The place of the waiting thread, against the signals \<open>xs\<close> that there are in all.\<close>

definition ts_thr_ok :: "(int \<times> nat) list \<Rightarrow> ts_sys \<Rightarrow> bool" where
  "ts_thr_ok xs s \<longleftrightarrow> (case ts_thr s of
       TNone \<Rightarrow> ts_sigs s = xs \<and> ts_out s = [] \<and> ts_quitflag s = 0
     | TWait \<Rightarrow> (\<exists>i \<le> ints xs. ts_sigs s = drop i xs \<and> ts_out s = replicate i interrupt_line) \<and> ts_quitflag s = 0
     | _ \<Rightarrow> ints xs < length xs \<and> xs ! ints xs = (0, SIGQUIT)
         \<and> ts_out s = replicate (ints xs) interrupt_line @ (if ts_main s = SRestore then [quit_line] else [])
         \<and> ts_quitflag s = (if ts_thr s \<in> {TLock, TSet} then 0 else 1))"

text \<open>What the process printed in all and how it ends, where it ends.\<close>

definition ts_result :: "ts_env \<Rightarrow> (int \<times> nat) list \<Rightarrow> (string list \<times> c_fault option) option" where
  "ts_result e xs =
     (if ts_sigmask e \<noteq> 0 \<or> ts_create e \<noteq> 0 then Some ([], Some (Exits (- 1)))
      else (case drop (ints xs) xs of [] \<Rightarrow> None
        | (err, signo) # r \<Rightarrow>
            if err \<noteq> 0 then Some (replicate (ints xs) interrupt_line, Some (Exits (- 1)))
            else if signo = SIGQUIT
            then Some (replicate (ints xs) interrupt_line @ [quit_line], if ts_restore e \<noteq> 0 then Some (Exits (- 1)) else None)
            else Some (replicate (ints xs) interrupt_line @ [unexpected_line signo], Some (Exits (- 1)))))"

definition ts_main_ok :: "ts_env \<Rightarrow> (int \<times> nat) list \<Rightarrow> ts_sys \<Rightarrow> bool" where
  "ts_main_ok e xs s \<longleftrightarrow> (case ts_main s of
       SMask \<Rightarrow> ts_thr s = TNone
     | SCreate \<Rightarrow> ts_thr s = TNone \<and> ts_sigmask e = 0
     | SEnd r \<Rightarrow> ts_result e xs = Some (ts_out s, r)
     | SAsleep \<Rightarrow> ts_thr s \<notin> {TNone, TDone} \<and> ts_sigmask e = 0 \<and> ts_create e = 0
     | SPrint \<Rightarrow> ts_quitflag s = 1 \<and> ts_thr s \<in> {TSignal, TDone} \<and> ts_sigmask e = 0 \<and> ts_create e = 0
     | SRestore \<Rightarrow> ts_quitflag s = 1 \<and> ts_thr s \<in> {TSignal, TDone} \<and> ts_sigmask e = 0 \<and> ts_create e = 0
     | _ \<Rightarrow> ts_thr s \<noteq> TNone \<and> ts_sigmask e = 0 \<and> ts_create e = 0)"

definition ts_inv :: "ts_env \<Rightarrow> (int \<times> nat) list \<Rightarrow> ts_sys \<Rightarrow> bool" where
  "ts_inv e xs s \<longleftrightarrow> ts_main_ok e xs s \<and> (ts_running s \<longrightarrow> ts_lock_ok s \<and> ts_thr_ok xs s)"

lemmas ts_ok_defs = ts_inv_def ts_main_ok_def ts_lock_ok_def ts_thr_ok_def ts_running_def

lemma ints_step:
  assumes "i \<le> ints xs" and "drop i xs = y # ys"
  shows "y = (0, SIGINT) \<Longrightarrow> Suc i \<le> ints xs" and "y \<noteq> (0, SIGINT) \<Longrightarrow> i = ints xs"
    and "i < length xs" and "xs ! i = y"
proof -
  show len: "i < length xs" using assms(2) by (metis drop_eq_Nil linorder_not_le list.discI)
  show nth: "xs ! i = y" using assms(2) len by (metis Cons_nth_drop_Suc list.inject)
  have at: "i < ints xs \<Longrightarrow> xs ! i = (0, SIGINT)"
    using takeWhile_nth [of i "\<lambda>x. x = (0, SIGINT)" xs] nth_mem [of i "takeWhile (\<lambda>x. x = (0, SIGINT)) xs"]
    by (auto simp: ints_def dest: set_takeWhileD)
  have stop: "ints xs < length xs \<Longrightarrow> xs ! ints xs \<noteq> (0, SIGINT)"
    using nth_length_takeWhile [of "\<lambda>x. x = (0, SIGINT)" xs] by (simp add: ints_def)
  show "y = (0, SIGINT) \<Longrightarrow> Suc i \<le> ints xs" using stop assms(1) nth len by (cases "i = ints xs") auto
  show "y \<noteq> (0, SIGINT) \<Longrightarrow> i = ints xs" using at assms(1) nth by force
qed

lemma sigwait_inv:
  assumes inv: "ts_inv e xs s" and run: "ts_running s" and w: "ts_thr s = TWait" and step: "thr_sigwait s = Inr s'"
  shows "ts_inv e xs s'"
proof -
  have m: "ts_main s \<notin> {SMask, SCreate, SPrint, SRestore}" "ts_sigmask e = 0" "ts_create e = 0"
    using inv run w by (auto simp: ts_inv_def ts_main_ok_def ts_running_def split: ts_main_pc.splits)
  from inv run w obtain i where i: "i \<le> ints xs" "ts_sigs s = drop i xs" "ts_out s = replicate i interrupt_line" and q: "ts_quitflag s = 0"
    by (auto simp: ts_inv_def ts_thr_ok_def)
  from step obtain err n r where sg: "ts_sigs s = (err, n) # r" by (auto simp: thr_sigwait_def split: list.splits)
  note idx = ints_step [OF i(1) i(2) [symmetric, unfolded sg]]
  have r: "r = drop (Suc i) xs" using sg i(2) Cons_nth_drop_Suc [OF idx(3)] by simp
  show ?thesis
  proof (cases "err = 0 \<and> n = SIGINT")
    case True
    then have "s' = s\<lparr>ts_sigs := r, ts_out := ts_out s @ [interrupt_line]\<rparr>" using step sg by (auto simp: thr_sigwait_def Let_def)
    moreover have "Suc i \<le> ints xs" using idx(1) True by simp
    moreover have "replicate i interrupt_line @ [interrupt_line] = replicate (Suc i) interrupt_line" by (simp add: replicate_append_same)
    ultimately show ?thesis using inv run w i(3) r q by (auto simp: ts_ok_defs split: ts_main_pc.splits)
  next
    case False
    then have eq: "i = ints xs" using idx(2) by simp
    then have rest: "drop (ints xs) xs = (err, n) # r" using i(2) sg by simp
    show ?thesis
    proof (cases "err = 0 \<and> n = SIGQUIT")
      case True
      then have "s' = s\<lparr>ts_sigs := r, ts_thr := TLock\<rparr>"
        using step sg by (auto simp: thr_sigwait_def Let_def SIGINT_def SIGQUIT_def)
      then show ?thesis using inv run w i(3) eq idx(3,4) m q True by (auto simp: ts_ok_defs split: ts_main_pc.splits)
    next
      case no: False
      let ?out = "ts_out s @ (if err \<noteq> 0 then [] else [unexpected_line n])"
      have "s' = s\<lparr>ts_sigs := r, ts_out := ?out, ts_main := SEnd (Some (Exits (- 1)))\<rparr>"
        using step sg False no by (cases s) (auto simp: thr_sigwait_def Let_def ts_exit_def split: if_splits)
      moreover have "ts_result e xs = Some (?out, Some (Exits (- 1)))"
        using rest no m(2,3) i(3) eq by (simp add: ts_result_def)
      ultimately show ?thesis by (simp add: ts_inv_def ts_main_ok_def ts_running_def)
    qed
  qed
qed

lemma sig_thr_fn_inv:
  assumes "thread_step ts_exit sig_thr_fn s s'" and inv: "ts_inv e xs s" and run: "ts_running s"
  shows "ts_inv e xs s'"
proof (cases "ts_thr s")
  case TWait
  have "thr_sigwait s = Inr s'" using assms(1) TWait
    by (auto simp: thread_step_def sig_thr_fn_def thr_sigwait_def Let_def split: list.splits sum.splits if_splits)
  then show ?thesis by (rule sigwait_inv [OF inv run TWait])
next
  case TLock
  then have "ts_lock s = None" "s' = s\<lparr>ts_lock := Some WaiterOwner, ts_thr := TSet\<rparr>"
    using assms(1) by (auto simp: thread_step_def sig_thr_fn_def ts_acquire_def split: if_splits)
  then show ?thesis using inv run TLock by (auto simp: ts_ok_defs split: ts_main_pc.splits)
next
  case TSet
  then have "s' = s\<lparr>ts_quitflag := 1, ts_thr := TUnlock\<rparr>" using assms(1) by (simp add: thread_step_def sig_thr_fn_def)
  then show ?thesis using inv run TSet by (auto simp: ts_ok_defs split: ts_main_pc.splits)
next
  case TUnlock
  then have "s' = s\<lparr>ts_lock := None, ts_thr := TSignal\<rparr>" using assms(1) by (simp add: thread_step_def sig_thr_fn_def)
  then show ?thesis using inv run TUnlock by (auto simp: ts_ok_defs split: ts_main_pc.splits)
next
  case TSignal
  then have "s' = s\<lparr>ts_thr := TDone, ts_main := if ts_main s = SAsleep then SWoken else ts_main s\<rparr>"
    using assms(1) by (simp add: thread_step_def sig_thr_fn_def)
  then show ?thesis using inv run TSignal by (auto simp: ts_ok_defs split: ts_main_pc.splits)
qed (use assms in \<open>auto simp: thread_step_def sig_thr_fn_def\<close>)

lemma sig_main_inv:
  assumes "thread_step ts_exit (sig_main e) s s'" and inv: "ts_inv e xs s" and run: "ts_running s"
  shows "ts_inv e xs s'"
proof (cases "ts_main s")
  case SMask
  then show ?thesis using assms by (auto simp: thread_step_def sig_main_def ts_exit_def ts_ok_defs ts_result_def split: if_splits)
next
  case SCreate
  then show ?thesis using assms by (auto simp: thread_step_def sig_main_def ts_exit_def ts_ok_defs ts_result_def split: if_splits)
next
  case SLock
  then have "ts_lock s = None" "s' = s\<lparr>ts_lock := Some MainOwner, ts_main := STest\<rparr>"
    using assms(1) by (auto simp: thread_step_def sig_main_def ts_acquire_def split: if_splits)
  then show ?thesis using inv run SLock by (auto simp: ts_ok_defs split: ts_thr_pc.splits)
next
  case STest
  then have "s' = (if ts_quitflag s = 0 then s\<lparr>ts_lock := None, ts_main := SAsleep\<rparr> else s\<lparr>ts_main := SPrint\<rparr>)"
    using assms(1) by (auto simp: thread_step_def sig_main_def)
  then show ?thesis using inv run STest by (auto simp: ts_ok_defs split: ts_thr_pc.splits)
next
  case SAsleep
  then obtain k where "s' = s\<lparr>ts_spurious := k, ts_main := SWoken\<rparr>"
    using assms(1) by (auto simp: thread_step_def sig_main_def split: nat.splits)
  then show ?thesis using inv run SAsleep by (auto simp: ts_ok_defs split: ts_thr_pc.splits)
next
  case SWoken
  then have "ts_lock s = None" "s' = s\<lparr>ts_lock := Some MainOwner, ts_main := STest\<rparr>"
    using assms(1) by (auto simp: thread_step_def sig_main_def ts_acquire_def split: if_splits)
  then show ?thesis using inv run SWoken by (auto simp: ts_ok_defs split: ts_thr_pc.splits)
next
  case SPrint
  then have "s' = s\<lparr>ts_out := ts_out s @ [quit_line], ts_main := SRestore\<rparr>" using assms(1) by (simp add: thread_step_def sig_main_def)
  then show ?thesis using inv run SPrint by (auto simp: ts_ok_defs split: ts_thr_pc.splits)
next
  case SRestore
  have "drop (ints xs) xs = (0, SIGQUIT) # drop (Suc (ints xs)) xs" if "ints xs < length xs" "xs ! ints xs = (0, SIGQUIT)"
    using that Cons_nth_drop_Suc [of "ints xs" xs] by simp
  then show ?thesis using SRestore assms
    by (auto simp: thread_step_def sig_main_def ts_exit_def ts_ok_defs ts_result_def split: if_splits)
next
  case (SEnd r)
  then show ?thesis using run by (simp add: ts_running_def)
qed

section \<open>Termination and progress\<close>

primrec ts_main_rank :: "ts_main_pc \<Rightarrow> nat" where
  "ts_main_rank SMask = 9" | "ts_main_rank SCreate = 8" | "ts_main_rank SLock = 7" | "ts_main_rank SWoken = 7" | "ts_main_rank STest = 6"
| "ts_main_rank SAsleep = 5" | "ts_main_rank SPrint = 2" | "ts_main_rank SRestore = 1" | "ts_main_rank (SEnd r) = 0"

primrec ts_thr_rank :: "ts_thr_pc \<Rightarrow> nat" where
  "ts_thr_rank TNone = 9" | "ts_thr_rank TWait = 8" | "ts_thr_rank TLock = 7" | "ts_thr_rank TSet = 6" | "ts_thr_rank TUnlock = 5"
| "ts_thr_rank TSignal = 4" | "ts_thr_rank TDone = 0"

definition ts_msr :: "ts_sys \<Rightarrow> nat" where
  "ts_msr s = ts_main_rank (ts_main s) + ts_thr_rank (ts_thr s) + 3 * ts_spurious s + length (ts_sigs s)"

lemma ts_main_rank_pos: "ts_running s \<Longrightarrow> 0 < ts_main_rank (ts_main s)"
  by (cases "ts_main s") (auto simp: ts_running_def)

lemma sig_thr_fn_msr:
  assumes "thread_step ts_exit sig_thr_fn s s'" and "ts_running s"
  shows "ts_msr s' < ts_msr s"
  using assms ts_main_rank_pos [OF assms(2)]
  by (cases "ts_thr s") (auto simp: ts_msr_def thread_step_def sig_thr_fn_def thr_sigwait_def ts_acquire_def ts_exit_def Let_def
      split: list.splits if_splits)

lemma sig_main_msr:
  assumes "thread_step ts_exit (sig_main e) s s'" and "ts_running s" and "ts_inv e xs s"
  shows "ts_msr s' < ts_msr s"
  using assms
  by (cases "ts_main s") (auto simp: ts_msr_def thread_step_def sig_main_def ts_acquire_def ts_exit_def ts_inv_def ts_main_ok_def
      split: nat.splits if_splits)

interpretation waiter: terminating_system "\<lambda>s. \<exists>k. s = ts_start xs k" "ts_step e" "ts_inv e xs" ts_msr for e xs
proof unfold_locales
  show "ts_inv e xs s" if "\<exists>k. s = ts_start xs k" for s
    using that by (auto simp: ts_ok_defs ts_start_def)
  show "ts_inv e xs t" if "ts_inv e xs s" "ts_step e s t" for s t
    using that sig_thr_fn_inv sig_main_inv unfolding ts_step_def by blast
  show "ts_msr t < ts_msr s" if "ts_inv e xs s" "ts_step e s t" for s t
    using that sig_thr_fn_msr sig_main_msr unfolding ts_step_def by blast
qed

text \<open>No thread can go on only when both wait for a signal that does not come.\<close>

definition ts_idle :: "ts_sys \<Rightarrow> bool" where
  "ts_idle s \<longleftrightarrow> ts_main s = SAsleep \<and> ts_thr s = TWait \<and> ts_sigs s = []"

lemma sig_main_moves:
  "ts_running s \<Longrightarrow> ts_main s \<noteq> SAsleep \<Longrightarrow> ts_main s \<in> {SLock, SWoken} \<longrightarrow> ts_lock s = None \<Longrightarrow> sig_main e s \<noteq> Inl Blocks"
  by (cases "ts_main s") (auto simp: sig_main_def ts_running_def ts_acquire_def)

lemma sig_thr_fn_moves:
  "ts_thr s \<notin> {TNone, TDone} \<Longrightarrow> ts_thr s = TWait \<longrightarrow> ts_sigs s \<noteq> [] \<Longrightarrow> ts_thr s = TLock \<longrightarrow> ts_lock s = None \<Longrightarrow> sig_thr_fn s \<noteq> Inl Blocks"
  by (cases "ts_thr s") (auto simp: sig_thr_fn_def thr_sigwait_def ts_acquire_def Let_def split: list.splits)

lemma ts_some_moves:
  assumes lock: "ts_lock_ok s" and run: "ts_running s" and asleep: "ts_main s = SAsleep \<longrightarrow> ts_thr s \<notin> {TNone, TDone}" and "\<not> ts_idle s"
  shows "sig_main e s \<noteq> Inl Blocks \<or> sig_thr_fn s \<noteq> Inl Blocks"
proof (cases "ts_main s = SAsleep")
  case True
  then have "ts_lock s \<noteq> Some MainOwner" using lock by (simp add: ts_lock_ok_def)
  moreover have "ts_lock s = Some WaiterOwner \<Longrightarrow> ts_thr s \<noteq> TLock" using lock by (auto simp: ts_lock_ok_def)
  ultimately have "ts_thr s = TLock \<longrightarrow> ts_lock s = None" by (metis (full_types) option.exhaust ts_who.exhaust)
  then show ?thesis using sig_thr_fn_moves [of s] asleep True assms(4) by (auto simp: ts_idle_def)
next
  case False
  show ?thesis
  proof (cases "ts_lock s = Some WaiterOwner")
    case True
    then have "ts_thr s \<in> {TSet, TUnlock}" using lock by (simp add: ts_lock_ok_def)
    then show ?thesis using sig_thr_fn_moves [of s] by auto
  next
    case no: False
    have "ts_lock s = Some MainOwner \<Longrightarrow> ts_main s \<in> {STest, SPrint, SRestore}" using lock by (simp add: ts_lock_ok_def)
    then have "ts_main s \<in> {SLock, SWoken} \<longrightarrow> ts_lock s = None" using no by (metis (full_types) insertE option.exhaust singletonD ts_main_pc.distinct ts_who.exhaust)
    then show ?thesis using sig_main_moves [OF run False] by blast
  qed
qed

lemma ts_progress:
  assumes inv: "ts_inv e xs s" and run: "ts_running s" and "\<not> ts_idle s"
  shows "\<exists>t. ts_step e s t"
proof -
  have "ts_lock_ok s" "ts_main s = SAsleep \<longrightarrow> ts_thr s \<notin> {TNone, TDone}"
    using inv run by (auto simp: ts_inv_def ts_main_ok_def)
  from ts_some_moves [OF this(1) run this(2) assms(3), of e] show ?thesis
    using thread_step_moves [of "sig_main e" s ts_exit] thread_step_moves [of sig_thr_fn s ts_exit] run by (auto simp: ts_step_def)
qed

section \<open>Property\<close>



end
