(* ===== verification/Thread_Ends.thy ===== *)
theory Thread_Ends
  imports C_Text
begin

text \<open>
  How threads end: by returning, by \<open>pthread_exit\<close>, and by cancellation, with the cleanup handlers that run on the way
  (\<open>pthread/pthread_exit.c\<close>, \<open>pthread/pthread_cleanup.c\<close>, \<open>pthread/pthread_cancel.c\<close>). A thread is the list of calls it
  makes. The lemmas show that whatever the interleaving each thread does what it would do alone, and that the
  programs end.
\<close>

section \<open>Threads and their calls\<close>

text \<open>What \<open>pthread_join\<close> stores: the value of the thread, or \<open>PTHREAD_CANCELED\<close>.\<close>

datatype thr_end = Returned int | Canceled

text \<open>
  The calls the programs make. \<open>Handler\<close> is the call of a cleanup handler with its message, and \<open>Finish\<close> the end of a thread. \<open>Spawn\<close> has
  the thread, its calls, whether \<open>pthread_create\<close> works, and whether the caller exits when it does not; \<open>Join\<close> waits for a thread and
  prints a line about the value it gets.
\<close>

datatype thr_call =
    Say string
  | CleanupPush string
  | CleanupPop bool
  | ReturnFrom int
  | PthreadExit int
  | TestCancel
  | PthreadCancel nat
  | Spawn nat "thr_call list" bool bool
  | Join nat "thr_end \<Rightarrow> string"
  | Handler string
  | Finish thr_end

record te_sys =
  te_rest :: "nat \<Rightarrow> thr_call list"
  te_stack :: "nat \<Rightarrow> string list"
  te_request :: "nat \<Rightarrow> bool"
  te_end :: "nat \<Rightarrow> thr_end option"
  te_out :: "(nat \<times> string) list"
  te_fault :: "c_fault option"

text \<open>The handlers run in the reverse order of their registration; the stack has the last one first.\<close>

definition unwind :: "nat \<Rightarrow> thr_end \<Rightarrow> te_sys \<Rightarrow> te_sys" where
  "unwind t r s = s\<lparr>te_rest := (te_rest s)(t := map Handler (te_stack s t) @ [Finish r]), te_stack := (te_stack s)(t := [])\<rparr>"

definition say :: "nat \<Rightarrow> string \<Rightarrow> te_sys \<Rightarrow> te_sys" where
  "say t l s = s\<lparr>te_out := te_out s @ [(t, l)]\<rparr>"

text \<open>
  One call of thread \<open>t\<close>. POSIX leaves two things open: whether \<open>printf\<close> is a cancellation point (\<open>pc\<close>), and what a \<open>return\<close>
  between \<open>pthread_cleanup_push\<close> and \<open>pthread_cleanup_pop\<close> does; it either runs the handlers (\<open>rr\<close>) or drops them.
\<close>

fun do_thr_call :: "bool \<Rightarrow> bool \<Rightarrow> nat \<Rightarrow> thr_call \<Rightarrow> te_sys \<Rightarrow> te_sys c" where
  "do_thr_call pc rr t (Say l) s = Inr (if pc \<and> te_request s t then unwind t Canceled s else say t l s)"
| "do_thr_call pc rr t (CleanupPush m) s = Inr (s\<lparr>te_stack := (te_stack s)(t := m # te_stack s t)\<rparr>)"
| "do_thr_call pc rr t (CleanupPop b) s = (case te_stack s t of [] \<Rightarrow> Inl OutOfBounds
     | m # ms \<Rightarrow> Inr ((if b then say t m else (\<lambda>x. x)) (s\<lparr>te_stack := (te_stack s)(t := ms)\<rparr>)))"
| "do_thr_call pc rr t (ReturnFrom v) s = Inr (unwind t (Returned v) (if rr then s else s\<lparr>te_stack := (te_stack s)(t := [])\<rparr>))"
| "do_thr_call pc rr t (PthreadExit v) s = Inr (unwind t (Returned v) s)"
| "do_thr_call pc rr t TestCancel s = Inr (if te_request s t then unwind t Canceled s else s)"
| "do_thr_call pc rr t (PthreadCancel u) s = Inr (s\<lparr>te_request := (te_request s)(u := True)\<rparr>)"
| "do_thr_call pc rr t (Spawn u cs ok strict) s =
     (if ok then Inr (s\<lparr>te_rest := (te_rest s)(u := cs)\<rparr>) else if strict then Inl (Exits (- 1)) else Inr s)"
| "do_thr_call pc rr t (Join u f) s = (case te_end s u of Some r \<Rightarrow> Inr (say t (f r) s)
     | None \<Rightarrow> if te_rest s u = [] then Inl Uninitialised else Inl Blocks)"
| "do_thr_call pc rr t (Handler m) s = Inr (say t m s)"
| "do_thr_call pc rr t (Finish r) s = Inr (s\<lparr>te_end := (te_end s)(t := Some r), te_rest := (te_rest s)(t := [])\<rparr>)"

definition te_crash :: "c_fault \<Rightarrow> te_sys \<Rightarrow> te_sys" where
  "te_crash x s = s\<lparr>te_fault := Some x\<rparr>"

definition thr_next :: "bool \<Rightarrow> bool \<Rightarrow> nat \<Rightarrow> te_sys stmt" where
  "thr_next pc rr t s = (case te_rest s t of [] \<Rightarrow> Inl Blocks
     | c # cs \<Rightarrow> do_thr_call pc rr t c (s\<lparr>te_rest := (te_rest s)(t := cs)\<rparr>))"

text \<open>The process has ended when \<open>main\<close>, thread 0, has, or after a fault.\<close>

definition te_step :: "bool \<Rightarrow> bool \<Rightarrow> te_sys \<Rightarrow> te_sys \<Rightarrow> bool" where
  "te_step pc rr s s' \<longleftrightarrow> te_fault s = None \<and> te_end s 0 = None \<and> (\<exists>t. thread_step te_crash (thr_next pc rr t) s s')"

definition te_start :: "thr_call list \<Rightarrow> te_sys" where
  "te_start main = \<lparr>te_rest = (\<lambda>t. [])(0 := main), te_stack = (\<lambda>t. []), te_request = (\<lambda>t. False), te_end = (\<lambda>t. None), te_out = [], te_fault = None\<rparr>"

section \<open>The programs\<close>

definition end_num :: "thr_end \<Rightarrow> string" where
  "end_num r = (case r of Returned v \<Rightarrow> dec v | Canceled \<Rightarrow> dec (- 1))"

definition exit_thr_fn1 :: "thr_call list" where
  "exit_thr_fn1 = [Say ''thread1 returning'', ReturnFrom 1]"

definition exit_thr_fn2 :: "thr_call list" where
  "exit_thr_fn2 = [Say ''thread2 returning'', PthreadExit 2]"

text \<open>\<open>ok1\<close> and \<open>ok2\<close> say whether \<open>pthread_create\<close> works.\<close>

definition exit_main :: "bool \<Rightarrow> bool \<Rightarrow> thr_call list" where
  "exit_main ok1 ok2 = [Spawn 1 exit_thr_fn1 ok1 True, Spawn 2 exit_thr_fn2 ok2 True,
     Join 1 (\<lambda>r. ''thread 1 exit code: '' @ end_num r), Join 2 (\<lambda>r. ''thread 2 exit code: '' @ end_num r), Finish (Returned 0)]"

definition cleanup_thr_fn1 :: "int \<Rightarrow> thr_call list" where
  "cleanup_thr_fn1 arg = [Say ''thread 1 start'', CleanupPush ''thread1 first cleanup'', CleanupPush ''thread1 second cleanup'']
     @ (if arg \<noteq> 0 then [ReturnFrom 1] else [CleanupPop False, CleanupPop False, ReturnFrom 1])"

definition cleanup_thr_fn2 :: "int \<Rightarrow> thr_call list" where
  "cleanup_thr_fn2 arg = [Say ''thread 2 start'', CleanupPush ''thread2 first cleanup'', CleanupPush ''thread2 second cleanup'']
     @ (if arg \<noteq> 0 then [PthreadExit 2] else [CleanupPop False, CleanupPop False, PthreadExit 2])"

definition cleanup_main :: "bool \<Rightarrow> bool \<Rightarrow> thr_call list" where
  "cleanup_main ok1 ok2 = [Spawn 1 (cleanup_thr_fn1 1) ok1 False, Spawn 2 (cleanup_thr_fn2 2) ok2 False,
     Join 1 (\<lambda>r. ''thread 1 ended with status: '' @ end_num r), Join 2 (\<lambda>r. ''thread2 ended with status: '' @ end_num r),
     Finish (Returned 0)]"

text \<open>The busy wait and the \<open>sleep\<close> only take time; either thread may be the faster one here.\<close>

definition cancel_thr_fn1 :: "int \<Rightarrow> thr_call list" where
  "cancel_thr_fn1 arg = [Say ''waiting for canceling.'', CleanupPush ''first cleanup'', CleanupPush ''second cleanup'', TestCancel]
     @ (if arg \<noteq> 0 then [ReturnFrom 0] else [CleanupPop False, CleanupPop False, ReturnFrom 0])"

definition cancel_thr_fn2 :: "nat \<Rightarrow> thr_call list" where
  "cancel_thr_fn2 tid2cancel = [Say ''cancel thread 1'', PthreadCancel tid2cancel, ReturnFrom 0]"

definition cancel_main :: "bool \<Rightarrow> bool \<Rightarrow> thr_call list" where
  "cancel_main ok1 ok2 = [Spawn 1 (cancel_thr_fn1 0) ok1 False, Spawn 2 (cancel_thr_fn2 1) ok2 False,
     Join 1 (\<lambda>r. if r = Canceled then ''thread 1 is canceled'' else ''some error occurred''), Finish (Returned 0)]"

section \<open>A thread by itself\<close>

text \<open>
  \<open>thr_result pc rr q E st cs ls r\<close>: a thread with the handlers \<open>st\<close> that goes on with the calls \<open>cs\<close> may print the lines \<open>ls\<close> and end with
  \<open>r\<close>. \<open>q\<close> says whether it may be asked to cancel, and \<open>E\<close> how the threads it joins end.
\<close>

inductive thr_result :: "bool \<Rightarrow> bool \<Rightarrow> bool \<Rightarrow> (nat \<Rightarrow> thr_end) \<Rightarrow> string list \<Rightarrow> thr_call list \<Rightarrow> string list \<Rightarrow> thr_end \<Rightarrow> bool"
  for pc rr q E where
  res_finish: "thr_result pc rr q E st (Finish r # cs) [] r"
| res_say: "thr_result pc rr q E st cs ls r \<Longrightarrow> thr_result pc rr q E st (Say l # cs) (l # ls) r"
| res_say_cancel: "pc \<Longrightarrow> q \<Longrightarrow> thr_result pc rr q E st (Say l # cs) st Canceled"
| res_push: "thr_result pc rr q E (m # st) cs ls r \<Longrightarrow> thr_result pc rr q E st (CleanupPush m # cs) ls r"
| res_pop: "thr_result pc rr q E st cs ls r \<Longrightarrow> thr_result pc rr q E (m # st) (CleanupPop b # cs) ((if b then [m] else []) @ ls) r"
| res_return: "thr_result pc rr q E st (ReturnFrom v # cs) (if rr then st else []) (Returned v)"
| res_exit: "thr_result pc rr q E st (PthreadExit v # cs) st (Returned v)"
| res_test: "thr_result pc rr q E st cs ls r \<Longrightarrow> thr_result pc rr q E st (TestCancel # cs) ls r"
| res_test_cancel: "q \<Longrightarrow> thr_result pc rr q E st (TestCancel # cs) st Canceled"
| res_cancel: "thr_result pc rr q E st cs ls r \<Longrightarrow> thr_result pc rr q E st (PthreadCancel u # cs) ls r"
| res_spawn: "thr_result pc rr q E st cs ls r \<Longrightarrow> thr_result pc rr q E st (Spawn u ds ok strict # cs) ls r"
| res_join: "thr_result pc rr q E st cs ls r \<Longrightarrow> thr_result pc rr q E st (Join u f # cs) (f (E u) # ls) r"
| res_handler: "thr_result pc rr q E st cs ls r \<Longrightarrow> thr_result pc rr q E st (Handler m # cs) (m # ls) r"

inductive_cases thr_result_cases [elim!]:
  "thr_result pc rr q E st [] ls r" "thr_result pc rr q E st (Finish r' # cs) ls r" "thr_result pc rr q E st (Say l # cs) ls r"
  "thr_result pc rr q E st (CleanupPush m # cs) ls r" "thr_result pc rr q E st (CleanupPop b # cs) ls r" "thr_result pc rr q E st (ReturnFrom v # cs) ls r"
  "thr_result pc rr q E st (PthreadExit v # cs) ls r" "thr_result pc rr q E st (TestCancel # cs) ls r" "thr_result pc rr q E st (PthreadCancel u # cs) ls r"
  "thr_result pc rr q E st (Spawn u ds ok strict # cs) ls r" "thr_result pc rr q E st (Join u f # cs) ls r"
  "thr_result pc rr q E st (Handler m # cs) ls r"

lemma handlers_result: "thr_result pc rr q E st' (map Handler st @ [Finish r']) ls r \<longleftrightarrow> ls = st \<and> r = r'"
proof
  show "thr_result pc rr q E st' (map Handler st @ [Finish r']) ls r \<Longrightarrow> ls = st \<and> r = r'"
    by (induction st arbitrary: ls) auto
  have "thr_result pc rr q E st' (map Handler st @ [Finish r']) st r'"
    by (induction st) (auto intro: thr_result.intros)
  then show "ls = st \<and> r = r' \<Longrightarrow> thr_result pc rr q E st' (map Handler st @ [Finish r']) ls r" by simp
qed

section \<open>What the programs keep to\<close>

definition lines_of :: "nat \<Rightarrow> te_sys \<Rightarrow> string list" where
  "lines_of t s = map snd (filter (\<lambda>p. fst p = t) (te_out s))"

lemma lines_of_say [simp]: "lines_of t (say u l s) = lines_of t s @ (if u = t then [l] else [])"
  by (simp add: lines_of_def say_def)

lemma lines_of_upd [simp]:
  "lines_of t (s\<lparr>te_rest := a\<rparr>) = lines_of t s" "lines_of t (s\<lparr>te_stack := b\<rparr>) = lines_of t s"
  "lines_of t (s\<lparr>te_request := q\<rparr>) = lines_of t s" "lines_of t (s\<lparr>te_end := d\<rparr>) = lines_of t s"
  "lines_of t (unwind u r s) = lines_of t s" "lines_of t (te_crash x s) = lines_of t s"
  by (simp_all add: lines_of_def unwind_def te_crash_def)

lemma say_fields [simp]:
  "te_rest (say t l s) = te_rest s" "te_stack (say t l s) = te_stack s" "te_end (say t l s) = te_end s" "te_request (say t l s) = te_request s" "te_fault (say t l s) = te_fault s"
  by (simp_all add: say_def)

lemma unwind_fields [simp]:
  "te_rest (unwind t r s) = (te_rest s)(t := map Handler (te_stack s t) @ [Finish r])" "te_stack (unwind t r s) = (te_stack s)(t := [])"
  "te_end (unwind t r s) = te_end s" "te_request (unwind t r s) = te_request s" "te_fault (unwind t r s) = te_fault s"
  by (simp_all add: unwind_def)

text \<open>Calls that never pop an empty stack (\<open>n\<close> handlers are on it) and that end the thread; every thread is created.\<close>

fun call_ok :: "nat \<Rightarrow> thr_call list \<Rightarrow> bool" where
  "call_ok n [] = False"
| "call_ok n (ReturnFrom v # cs) = True"
| "call_ok n (PthreadExit v # cs) = True"
| "call_ok n (Finish r # cs) = True"
| "call_ok n (CleanupPush m # cs) = call_ok (Suc n) cs"
| "call_ok n (CleanupPop b # cs) = (0 < n \<and> call_ok (n - 1) cs)"
| "call_ok n (Spawn u ds ok strict # cs) = (ok \<and> call_ok n cs)"
| "call_ok n (c # cs) = call_ok n cs"

lemma call_ok_handlers [simp]: "call_ok n (map Handler ms @ [Finish r])"
  by (induction ms) auto

text \<open>The threads that are started, and the joins of threads that are not among those in \<open>S\<close> or started before.\<close>

fun spawns :: "thr_call list \<Rightarrow> (nat \<times> thr_call list) list" where
  "spawns [] = []"
| "spawns (Spawn u ds ok strict # cs) = (u, ds) # spawns cs"
| "spawns (c # cs) = spawns cs"

fun joins_ok :: "nat set \<Rightarrow> thr_call list \<Rightarrow> bool" where
  "joins_ok S [] = True"
| "joins_ok S (Spawn u ds ok strict # cs) = joins_ok (insert u S) cs"
| "joins_ok S (Join u f # cs) = (u \<in> S \<and> joins_ok S cs)"
| "joins_ok S (c # cs) = joins_ok S cs"

lemma spawns_handlers [simp]: "spawns (map Handler ms @ [Finish r]) = []"
  by (induction ms) auto

lemma joins_handlers [simp]: "joins_ok S (map Handler ms @ [Finish r])"
  by (induction ms) auto

lemma joins_ok_mono: "joins_ok S cs \<Longrightarrow> S \<subseteq> T \<Longrightarrow> joins_ok T cs"
  by (induction S cs arbitrary: T rule: joins_ok.induct) (auto simp: subset_insertI2 insert_mono)

definition fresh_thr :: "te_sys \<Rightarrow> nat \<Rightarrow> bool" where
  "fresh_thr s u \<longleftrightarrow> te_rest s u = [] \<and> te_stack s u = [] \<and> te_end s u = None \<and> lines_of u s = []"

definition begun :: "te_sys \<Rightarrow> nat set" where
  "begun s = {u. te_rest s u \<noteq> [] \<or> te_end s u \<noteq> None}"

text \<open>
  A thread at some point: it started with the calls in \<open>P\<close>; only \<open>main\<close> starts and joins threads, each once.
\<close>

definition thr_wf :: "(nat \<Rightarrow> thr_call list) \<Rightarrow> te_sys \<Rightarrow> nat \<Rightarrow> bool" where
  "thr_wf P s t \<longleftrightarrow> (te_rest s t \<noteq> [] \<longrightarrow> call_ok (length (te_stack s t)) (te_rest s t))
     \<and> (\<forall>r. te_end s t = Some r \<longrightarrow> te_rest s t = [])
     \<and> (t \<noteq> 0 \<longrightarrow> spawns (te_rest s t) = [] \<and> joins_ok {} (te_rest s t))
     \<and> (P t = [] \<longrightarrow> te_rest s t = [])
     \<and> (\<forall>v. PthreadCancel v \<in> set (te_rest s t) \<longrightarrow> PthreadCancel v \<in> set (P t))"

definition main_wf :: "(nat \<Rightarrow> thr_call list) \<Rightarrow> te_sys \<Rightarrow> bool" where
  "main_wf P s \<longleftrightarrow> distinct (map fst (spawns (te_rest s 0))) \<and> joins_ok (begun s - {0}) (te_rest s 0)
     \<and> (\<forall>(u, ds) \<in> set (spawns (te_rest s 0)). u \<noteq> 0 \<and> ds = P u \<and> ds \<noteq> [] \<and> fresh_thr s u)"

definition te_wf :: "(nat \<Rightarrow> thr_call list) \<Rightarrow> te_sys \<Rightarrow> bool" where
  "te_wf P s \<longleftrightarrow> main_wf P s \<and> (\<forall>t. thr_wf P s t) \<and> (\<forall>t. te_request s t \<longrightarrow> (\<exists>u. PthreadCancel t \<in> set (P u)))"

text \<open>The same of a program: \<open>main\<close> is \<open>P 0\<close>, and thread \<open>t\<close> is \<open>P t\<close>.\<close>

definition proper_program :: "(nat \<Rightarrow> thr_call list) \<Rightarrow> bool" where
  "proper_program P \<longleftrightarrow> P 0 \<noteq> [] \<and> joins_ok {} (P 0) \<and> distinct (map fst (spawns (P 0)))
     \<and> (\<forall>(u, ds) \<in> set (spawns (P 0)). u \<noteq> 0 \<and> ds = P u \<and> ds \<noteq> [])
     \<and> (\<forall>t. t \<noteq> 0 \<longrightarrow> spawns (P t) = [] \<and> joins_ok {} (P t)) \<and> (\<forall>t. P t \<noteq> [] \<longrightarrow> call_ok 0 (P t))"

section \<open>Steps keep to it\<close>

lemma local_call:
  assumes "do_thr_call pc rr t c (s\<lparr>te_rest := (te_rest s)(t := cs)\<rparr>) = Inr s'" and "\<nexists>u ds ok strict. c = Spawn u ds ok strict"
  shows "u \<noteq> t \<Longrightarrow> te_rest s' u = te_rest s u \<and> te_stack s' u = te_stack s u \<and> te_end s' u = te_end s u \<and> lines_of u s' = lines_of u s"
    and "spawns (te_rest s' t) = spawns cs \<or> spawns (te_rest s' t) = []"
    and "te_end s' t = te_end s t \<or> te_rest s' t = []"
    and "call_ok (length (te_stack s t)) (c # cs) \<Longrightarrow> te_rest s' t \<noteq> [] \<Longrightarrow> call_ok (length (te_stack s' t)) (te_rest s' t)"
    and "call_ok (length (te_stack s t)) (c # cs) \<Longrightarrow> te_rest s' t = [] \<Longrightarrow> te_end s' t \<noteq> None"
    and "joins_ok S (c # cs) \<Longrightarrow> joins_ok S (te_rest s' t)"
    and "PthreadCancel v \<in> set (te_rest s' t) \<Longrightarrow> PthreadCancel v \<in> set (c # cs)"
    and "te_request s' v \<Longrightarrow> te_request s v \<or> PthreadCancel v \<in> set (c # cs)"
  using assms by (cases c; auto split: if_splits option.splits list.splits)+

lemma local_spawns:
  "\<nexists>u ds ok strict. c = Spawn u ds ok strict \<Longrightarrow> spawns (c # cs) = spawns cs"
  by (cases c) auto

lemma thr_wf_same:
  "te_rest s' t = te_rest s t \<Longrightarrow> te_stack s' t = te_stack s t \<Longrightarrow> te_end s' t = te_end s t \<Longrightarrow> thr_wf P s' t = thr_wf P s t"
  by (simp add: thr_wf_def)

lemma wf_alive: "thr_wf P s t \<Longrightarrow> te_rest s t = c # cs \<Longrightarrow> te_end s t = None"
  unfolding thr_wf_def by (metis list.discI not_Some_eq)

lemma wf_spawned:
  "main_wf P s \<Longrightarrow> te_rest s t = c # cs \<Longrightarrow> (u, ds) \<in> set (spawns (te_rest s 0)) \<Longrightarrow> u \<noteq> t \<and> u \<noteq> 0 \<and> ds = P u \<and> ds \<noteq> [] \<and> fresh_thr s u"
  unfolding main_wf_def fresh_thr_def by fastforce

lemma local_thr_wf:
  assumes wf: "thr_wf P s t" and c: "te_rest s t = c # cs" and ns: "\<nexists>u ds ok strict. c = Spawn u ds ok strict"
    and do: "do_thr_call pc rr t c (s\<lparr>te_rest := (te_rest s)(t := cs)\<rparr>) = Inr s'"
  shows "thr_wf P s' t" "t \<in> begun s'"
proof -
  note own = local_call(2-7) [OF do ns]
  have ok: "call_ok (length (te_stack s t)) (c # cs)" using wf c by (simp add: thr_wf_def)
  show "t \<in> begun s'" using own(4) [OF ok] by (auto simp: begun_def)
  have "te_rest s' t \<noteq> [] \<longrightarrow> call_ok (length (te_stack s' t)) (te_rest s' t)" using own(3) [OF ok] by blast
  moreover have "te_end s' t = Some r \<longrightarrow> te_rest s' t = []" for r using own(2) wf_alive [OF wf c] by auto
  moreover have "t \<noteq> 0 \<longrightarrow> spawns (te_rest s' t) = [] \<and> joins_ok {} (te_rest s' t)"
    using own(1) own(5) [of "{}"] local_spawns [OF ns, of cs] wf c by (auto simp: thr_wf_def)
  moreover have "P t \<noteq> []" using wf c by (auto simp: thr_wf_def)
  moreover have "PthreadCancel v \<in> set (te_rest s' t) \<longrightarrow> PthreadCancel v \<in> set (P t)" for v
    using own(6) [of v] wf c by (auto simp: thr_wf_def)
  ultimately show "thr_wf P s' t" unfolding thr_wf_def by blast
qed

lemma local_main_wf:
  assumes main: "main_wf P s" and wf: "thr_wf P s t" and c: "te_rest s t = c # cs" and ns: "\<nexists>u ds ok strict. c = Spawn u ds ok strict"
    and do: "do_thr_call pc rr t c (s\<lparr>te_rest := (te_rest s)(t := cs)\<rparr>) = Inr s'"
  shows "main_wf P s'"
proof -
  note other = local_call(1) [OF do ns] and own = local_call(2,6) [OF do ns]
  have sub: "spawns (te_rest s' 0) = spawns (te_rest s 0) \<or> spawns (te_rest s' 0) = []"
    using other [of 0] own(1) local_spawns [OF ns, of cs] c by (cases "t = 0") auto
  have "u \<in> begun s'" if "u \<in> begun s" for u
    using that other [of u] local_thr_wf(2) [OF wf c ns do] by (cases "u = t") (simp_all add: begun_def)
  then have begun: "begun s \<subseteq> begun s'" by blast
  have "joins_ok (begun s - {0}) (te_rest s' 0)"
    using main own(2) [of "begun s - {0}"] c other [of 0] by (cases "t = 0") (auto simp: main_wf_def)
  then have "joins_ok (begun s' - {0}) (te_rest s' 0)" by (rule joins_ok_mono) (use begun in blast)
  moreover have "distinct (map fst (spawns (te_rest s' 0)))" using sub main unfolding main_wf_def by auto
  moreover have "u \<noteq> 0 \<and> ds = P u \<and> ds \<noteq> [] \<and> fresh_thr s' u" if "(u, ds) \<in> set (spawns (te_rest s' 0))" for u ds
  proof -
    have "(u, ds) \<in> set (spawns (te_rest s 0))" using sub that by auto
    from wf_spawned [OF main c this] show ?thesis using other [of u] by (auto simp: fresh_thr_def)
  qed
  ultimately show ?thesis by (auto simp: main_wf_def)
qed

lemma local_wf:
  assumes wf: "te_wf P s" and c: "te_rest s t = c # cs" and ns: "\<nexists>u ds ok strict. c = Spawn u ds ok strict"
    and do: "do_thr_call pc rr t c (s\<lparr>te_rest := (te_rest s)(t := cs)\<rparr>) = Inr s'"
  shows "te_wf P s'"
proof -
  have thr: "thr_wf P s u" for u using wf by (simp add: te_wf_def)
  have "main_wf P s'" using local_main_wf [OF _ thr c ns do] wf by (simp add: te_wf_def)
  moreover have "thr_wf P s' u" for u
    using local_thr_wf(1) [OF thr c ns do] thr thr_wf_same [of s' u s P] local_call(1) [OF do ns, of u] by (cases "u = t") auto
  moreover have "\<exists>u. PthreadCancel v \<in> set (P u)" if "te_request s' v" for v
  proof -
    have "PthreadCancel w \<in> set (P t)" if "PthreadCancel w \<in> set (c # cs)" for w using thr [of t] c that unfolding thr_wf_def by metis
    then show ?thesis using local_call(8) [OF do ns that] wf unfolding te_wf_def by blast
  qed
  ultimately show ?thesis by (simp add: te_wf_def)
qed

lemma spawn_call:
  assumes wf: "te_wf P s" and c: "te_rest s t = Spawn u ds ok strict # cs"
  shows "t = 0" "u \<noteq> 0" "ds = P u" "fresh_thr s u" "ok" "P u \<noteq> []"
proof -
  have thr: "thr_wf P s t" and main: "main_wf P s" using wf by (simp_all add: te_wf_def)
  show t0: "t = 0" using thr c unfolding thr_wf_def by (metis list.discI spawns.simps(2))
  have sp: "spawns (te_rest s 0) = (u, ds) # spawns cs" using c t0 by simp
  show "u \<noteq> 0" "ds = P u" "fresh_thr s u" "P u \<noteq> []" using wf_spawned [OF main c, of u ds] sp by auto
  show ok using thr c by (simp add: thr_wf_def)
qed

lemma proper_program_thread:
  assumes "proper_program P" and "t \<noteq> 0"
  shows "spawns (P t) = []" "joins_ok {} (P t)"
  using assms by (auto simp: proper_program_def)

lemma spawn_wf:
  assumes wf: "te_wf P s" and P: "proper_program P" and c: "te_rest s t = Spawn u ds ok strict # cs"
  shows "te_wf P (s\<lparr>te_rest := (te_rest s)(0 := cs, u := ds)\<rparr>)" (is "te_wf P ?s'")
proof -
  note sp = spawn_call [OF wf c]
  have main: "main_wf P s" and thr: "thr_wf P s v" for v using wf by (simp_all add: te_wf_def)
  have c0: "te_rest s 0 = Spawn u ds ok strict # cs" using c sp(1) by simp
  have call: "call_ok 0 (P u)" using P sp(6) by (simp add: proper_program_def)
  have d: "distinct (map fst (spawns cs))" "u \<notin> fst ` set (spawns cs)" using main c0 by (auto simp: main_wf_def)
  have keep: "v \<noteq> 0 \<and> v \<noteq> u \<and> es = P v \<and> es \<noteq> [] \<and> fresh_thr ?s' v" if "(v, es) \<in> set (spawns cs)" for v es
    using wf_spawned [OF main c0, of v es] c0 that d(2) by (force simp: fresh_thr_def)
  have "joins_ok (begun ?s' - {0}) cs"
  proof (rule joins_ok_mono)
    show "joins_ok (insert u (begun s - {0})) cs" using main c0 by (simp add: main_wf_def)
    show "insert u (begun s - {0}) \<subseteq> begun ?s' - {0}" using sp(2,3,6) by (auto simp: begun_def)
  qed
  then have "main_wf P ?s'" using d keep sp(2) by (auto simp: main_wf_def)
  moreover have "thr_wf P ?s' v" for v
  proof -
    consider "v = 0" | "v = u" | "v \<noteq> 0" "v \<noteq> u" by blast
    then show ?thesis
    proof cases
      case 1
      then show ?thesis using thr [of 0] c0 sp(2) by (auto simp: thr_wf_def)
    next
      case 2
      then show ?thesis using sp call proper_program_thread [OF P sp(2)] by (auto simp: thr_wf_def fresh_thr_def)
    next
      case 3
      then show ?thesis using thr [of v] thr_wf_same [of ?s' v s P] by simp
    qed
  qed
  ultimately show ?thesis using wf by (simp add: te_wf_def)
qed

lemma thr_nextE:
  assumes "thr_next pc rr t s = r" and "te_rest s t \<noteq> []"
  obtains c cs where "te_rest s t = c # cs" and "do_thr_call pc rr t c (s\<lparr>te_rest := (te_rest s)(t := cs)\<rparr>) = r"
  using assms by (auto simp: thr_next_def split: list.splits)

lemma thr_next_rest: "thr_next pc rr t s = Inr s' \<Longrightarrow> te_rest s t \<noteq> []"
  by (auto simp: thr_next_def)

lemma thr_next_wf:
  assumes wf: "te_wf P s" and P: "proper_program P" and step: "thr_next pc rr t s = Inr s'"
  shows "te_wf P s'" and "te_end s u = Some r \<Longrightarrow> te_end s' u = Some r"
proof -
  obtain c cs where c: "te_rest s t = c # cs" and do: "do_thr_call pc rr t c (s\<lparr>te_rest := (te_rest s)(t := cs)\<rparr>) = Inr s'"
    using thr_nextE [OF step thr_next_rest [OF step]] .
  have "te_wf P s' \<and> (te_end s u = Some r \<longrightarrow> te_end s' u = Some r)"
  proof (cases "\<exists>u ds ok strict. c = Spawn u ds ok strict")
    case True
    then obtain v ds ok strict where v: "c = Spawn v ds ok strict" by blast
    note sp = spawn_call [OF wf c [unfolded v]]
    from do v sp(1,5) have "s' = s\<lparr>te_rest := (te_rest s)(0 := cs, v := ds)\<rparr>" by simp
    then show ?thesis using spawn_wf [OF wf P c [unfolded v]] by simp
  next
    case False
    have "te_end s t = None" using wf_alive [OF _ c] wf by (auto simp: te_wf_def)
    then show ?thesis using local_wf [OF wf c False do] local_call(1) [OF do False, of u] by (cases "u = t") auto
  qed
  then show "te_wf P s'" and "te_end s u = Some r \<Longrightarrow> te_end s' u = Some r" by auto
qed

text \<open>A call fails or waits only where a thread waits for one that has not ended.\<close>

lemma thr_next_stuck:
  assumes wf: "te_wf P s" and step: "thr_next pc rr t s = Inl x" and r: "te_rest s t \<noteq> []"
  shows "x = Blocks \<and> t = 0 \<and> (\<exists>u. u \<noteq> 0 \<and> te_rest s u \<noteq> [])"
proof -
  obtain c cs where c: "te_rest s t = c # cs" and do: "do_thr_call pc rr t c (s\<lparr>te_rest := (te_rest s)(t := cs)\<rparr>) = Inl x"
    using thr_nextE [OF step r] .
  have thr: "thr_wf P s t" and main: "main_wf P s" using wf by (simp_all add: te_wf_def)
  have ok: "call_ok (length (te_stack s t)) (c # cs)" using thr c by (simp add: thr_wf_def)
  have "\<exists>u f. c = Join u f" using do ok by (cases c) (auto split: list.splits if_splits)
  then obtain u f where u: "c = Join u f" by blast
  have t0: "t = 0" using thr c u by (auto simp: thr_wf_def)
  have b: "u \<in> begun s - {0}" using main c u t0 by (simp add: main_wf_def)
  then show ?thesis using do u t0 by (auto simp: begun_def split: option.splits if_splits)
qed

section \<open>Each thread does what it does alone\<close>

text \<open>What a thread has printed, followed by what it may still print, is what it may print from its start.\<close>

definition thr_sound :: "bool \<Rightarrow> bool \<Rightarrow> bool \<Rightarrow> (nat \<Rightarrow> thr_end) \<Rightarrow> thr_call list \<Rightarrow> te_sys \<Rightarrow> nat \<Rightarrow> bool" where
  "thr_sound pc rr q E p s t \<longleftrightarrow>
     (case te_end s t of
        None \<Rightarrow> (\<forall>ls r. thr_result pc rr q E (te_stack s t) (te_rest s t) ls r \<longrightarrow> thr_result pc rr q E [] p (lines_of t s @ ls) r)
      | Some r \<Rightarrow> thr_result pc rr q E [] p (lines_of t s) r)"

lemma thr_sound_alive:
  "te_end s t = None \<Longrightarrow> thr_sound pc rr q E p s t \<longleftrightarrow>
     (\<forall>ls r. thr_result pc rr q E (te_stack s t) (te_rest s t) ls r \<longrightarrow> thr_result pc rr q E [] p (lines_of t s @ ls) r)"
  by (simp add: thr_sound_def)

lemma thr_sound_same:
  "te_rest s' t = te_rest s t \<Longrightarrow> te_stack s' t = te_stack s t \<Longrightarrow> te_end s' t = te_end s t \<Longrightarrow> lines_of t s' = lines_of t s \<Longrightarrow>
     thr_sound pc rr q E p s' t = thr_sound pc rr q E p s t"
  by (cases "te_end s t") (simp_all add: thr_sound_def)

text \<open>A thread may be asked to cancel if some thread has the call for it.\<close>

definition asked :: "(nat \<Rightarrow> thr_call list) \<Rightarrow> nat \<Rightarrow> bool" where
  "asked P t \<longleftrightarrow> (\<exists>u. PthreadCancel t \<in> set (P u))"

definition te_sound :: "bool \<Rightarrow> bool \<Rightarrow> (nat \<Rightarrow> thr_end) \<Rightarrow> (nat \<Rightarrow> thr_call list) \<Rightarrow> te_sys \<Rightarrow> bool" where
  "te_sound pc rr E P s \<longleftrightarrow> (\<forall>t. thr_sound pc rr (asked P t) E (P t) s t)"

lemma own_sound:
  assumes do: "do_thr_call pc rr t c (s\<lparr>te_rest := (te_rest s)(t := cs)\<rparr>) = Inr s'" and ns: "\<nexists>u ds ok strict. c = Spawn u ds ok strict"
    and E: "\<And>u r. te_end s u = Some r \<Longrightarrow> E u = r" and alive: "te_end s t = None" and q: "te_request s t \<Longrightarrow> q"
    and prev: "\<And>ls r. thr_result pc rr q E (te_stack s t) (c # cs) ls r \<Longrightarrow> thr_result pc rr q E [] p (lines_of t s @ ls) r"
  shows "thr_sound pc rr q E p s' t"
proof (cases c)
  case (Say l)
  then show ?thesis using do alive q prev [unfolded Say, OF res_say [where l = l]] prev [unfolded Say, where r = Canceled] res_say_cancel [where l = l and cs = cs]
    by (auto simp: thr_sound_def handlers_result split: if_splits)
next
  case (CleanupPush m)
  then show ?thesis using do alive prev [unfolded CleanupPush, OF res_push [where m = m]] by (auto simp: thr_sound_def)
next
  case (CleanupPop b)
  then obtain m ms where st: "te_stack s t = m # ms" using do by (auto split: list.splits)
  have "thr_result pc rr q E [] p (lines_of t s @ (if b then [m] else []) @ ls) r" if "thr_result pc rr q E ms cs ls r" for ls r
    using prev [unfolded CleanupPop st, OF res_pop [OF that, of m b]] .
  then show ?thesis using do alive st CleanupPop by (auto simp: thr_sound_def split: if_splits)
next
  case (ReturnFrom v)
  then show ?thesis using do alive prev [unfolded ReturnFrom, OF res_return [where v = v and cs = cs]] by (auto simp: thr_sound_def handlers_result split: if_splits)
next
  case (PthreadExit v)
  then show ?thesis using do alive prev [unfolded PthreadExit, OF res_exit [where v = v and cs = cs]] by (auto simp: thr_sound_def handlers_result)
next
  case TestCancel
  then show ?thesis using do alive q prev [unfolded TestCancel, OF res_test] prev [unfolded TestCancel, OF res_test_cancel] by (auto simp: thr_sound_def handlers_result split: if_splits)
next
  case (Join u f)
  then obtain r where r: "te_end s u = Some r" "s' = say t (f r) (s\<lparr>te_rest := (te_rest s)(t := cs)\<rparr>)"
    using do by (auto split: option.splits if_splits)
  then show ?thesis using alive prev [unfolded Join, OF res_join [where u = u and f = f]] E [OF r(1)] by (simp add: thr_sound_def)
next
  case (Handler m)
  then show ?thesis using do alive prev [unfolded Handler, OF res_handler [where m = m]] by (auto simp: thr_sound_def)
next
  case (Finish r)
  then show ?thesis using do prev [unfolded Finish, OF res_finish [where r = r and cs = cs]] by (auto simp: thr_sound_def)
next
  case (PthreadCancel u)
  then show ?thesis using do alive prev [unfolded PthreadCancel, OF res_cancel [where u = u]] by (auto simp: thr_sound_def)
next
  case (Spawn u ds ok strict)
  then show ?thesis using ns by blast
qed

lemma spawn_sound:
  assumes wf: "te_wf P s" and c: "te_rest s t = Spawn v ds ok strict # cs" and sound: "te_sound pc rr E P s"
  shows "te_sound pc rr E P (s\<lparr>te_rest := (te_rest s)(0 := cs, v := ds)\<rparr>)" (is "te_sound pc rr E P ?s'")
  unfolding te_sound_def
proof
  fix u
  note sp = spawn_call [OF wf c]
  have alive: "te_end s 0 = None" using wf_alive [OF _ c] wf sp(1) by (auto simp: te_wf_def)
  consider "u = 0" | "u = v" | "u \<noteq> 0" "u \<noteq> v" by blast
  then show "thr_sound pc rr (asked P u) E (P u) ?s' u"
  proof cases
    case 1
    have "thr_sound pc rr (asked P 0) E (P 0) s 0" using sound by (simp add: te_sound_def)
    then show ?thesis using 1 alive c sp(1,2) res_spawn [where u = v and ds = ds and ok = ok and strict = strict and cs = cs]
      by (auto simp: thr_sound_def)
  next
    case 2
    then show ?thesis using sp(2-4) by (auto simp: fresh_thr_def thr_sound_def)
  next
    case 3
    then show ?thesis using sound thr_sound_same [of ?s' u s] by (simp add: te_sound_def)
  qed
qed

lemma thr_next_sound:
  assumes wf: "te_wf P s" and step: "thr_next pc rr t s = Inr s'"
    and E: "\<And>u r. te_end s u = Some r \<Longrightarrow> E u = r" and sound: "te_sound pc rr E P s"
  shows "te_sound pc rr E P s'"
proof -
  obtain c cs where c: "te_rest s t = c # cs" and do: "do_thr_call pc rr t c (s\<lparr>te_rest := (te_rest s)(t := cs)\<rparr>) = Inr s'"
    using thr_nextE [OF step thr_next_rest [OF step]] .
  have alive: "te_end s t = None" using wf_alive [OF _ c] wf by (auto simp: te_wf_def)
  show ?thesis
  proof (cases "\<exists>u ds ok strict. c = Spawn u ds ok strict")
    case True
    then obtain v ds ok strict where v: "c = Spawn v ds ok strict" by blast
    note sp = spawn_call [OF wf c [unfolded v]]
    from do v sp(1,5) have "s' = s\<lparr>te_rest := (te_rest s)(0 := cs, v := ds)\<rparr>" by simp
    then show ?thesis using spawn_sound [OF wf c [unfolded v] sound] by simp
  next
    case False
    have q: "te_request s t \<Longrightarrow> asked P t" using wf by (simp add: te_wf_def asked_def)
    have prev: "thr_result pc rr (asked P t) E [] (P t) (lines_of t s @ ls) r" if "thr_result pc rr (asked P t) E (te_stack s t) (c # cs) ls r" for ls r
      using sound [unfolded te_sound_def, rule_format, of t] thr_sound_alive [OF alive] c that by simp
    have "thr_sound pc rr (asked P u) E (P u) s' u" for u
    proof (cases "u = t")
      case True
      then show ?thesis using own_sound [OF do False E alive q prev] by simp
    next
      case ne: False
      then show ?thesis using sound thr_sound_same [of s' u s] local_call(1) [OF do False ne] by (simp add: te_sound_def)
    qed
    then show ?thesis by (simp add: te_sound_def)
  qed
qed

section \<open>Every run ends\<close>

text \<open>A bound on the steps a list of calls takes, those of the threads it starts included.\<close>

fun call_weight :: "thr_call \<Rightarrow> nat" and calls_weight :: "thr_call list \<Rightarrow> nat" where
  "call_weight (Spawn u ds ok strict) = 2 + calls_weight ds"
| "call_weight (Handler m) = 1"
| "call_weight (Finish r) = 1"
| "call_weight c = 2"
| "calls_weight [] = 0"
| "calls_weight (c # cs) = call_weight c + calls_weight cs"

lemma handlers_weight [simp]: "calls_weight (map Handler ms @ [Finish r]) = Suc (length ms)"
  by (induction ms) auto

definition thr_msr :: "te_sys \<Rightarrow> nat \<Rightarrow> nat" where
  "thr_msr s t = calls_weight (te_rest s t) + length (te_stack s t)"

definition te_msr :: "nat \<Rightarrow> te_sys \<Rightarrow> nat" where
  "te_msr N s = (\<Sum>t<N. thr_msr s t)"

lemma local_msr:
  assumes "do_thr_call pc rr t c (s\<lparr>te_rest := (te_rest s)(t := cs)\<rparr>) = Inr s'" and "\<nexists>u ds ok strict. c = Spawn u ds ok strict"
    and "te_rest s t = c # cs"
  shows "thr_msr s' t < thr_msr s t"
  using assms by (cases c) (auto simp: thr_msr_def split: if_splits option.splits list.splits)

lemma thr_next_msr:
  assumes wf: "te_wf P s" and N: "\<And>u. P u \<noteq> [] \<Longrightarrow> u < N" and step: "thr_next pc rr t s = Inr s'"
  shows "te_msr N s' < te_msr N s"
proof -
  obtain c cs where c: "te_rest s t = c # cs" and do: "do_thr_call pc rr t c (s\<lparr>te_rest := (te_rest s)(t := cs)\<rparr>) = Inr s'"
    using thr_nextE [OF step thr_next_rest [OF step]] .
  have t: "t < N" using N [of t] wf c by (fastforce simp: te_wf_def thr_wf_def)
  show ?thesis
  proof (cases "\<exists>u ds ok strict. c = Spawn u ds ok strict")
    case True
    then obtain v ds ok strict where v: "c = Spawn v ds ok strict" by blast
    note sp = spawn_call [OF wf c [unfolded v]]
    from do v sp(1,5) have s': "s' = s\<lparr>te_rest := (te_rest s)(0 := cs, v := ds)\<rparr>" by simp
    have two: "{0, v} \<subseteq> {..<N}" using N [OF sp(6)] t sp(1) by simp
    have split: "te_msr N x = (\<Sum>u \<in> {..<N} - {0, v}. thr_msr x u) + (thr_msr x 0 + thr_msr x v)" for x
      unfolding te_msr_def using sum.subset_diff [OF two, of "thr_msr x"] sp(2) by simp
    have "(\<Sum>u \<in> {..<N} - {0, v}. thr_msr s' u) = (\<Sum>u \<in> {..<N} - {0, v}. thr_msr s u)"
      by (rule sum.cong) (simp_all add: s' thr_msr_def)
    moreover have "thr_msr s' 0 + thr_msr s' v < thr_msr s 0 + thr_msr s v"
      using s' sp(1,2,4) c v by (simp add: thr_msr_def fresh_thr_def)
    ultimately show ?thesis using split [of s] split [of s'] by simp
  next
    case False
    have same: "thr_msr s' u = thr_msr s u" if "u \<noteq> t" for u using local_call(1) [OF do False that] by (simp add: thr_msr_def)
    have less: "thr_msr s' t < thr_msr s t" using local_msr [OF do False c] .
    have "thr_msr s' u \<le> thr_msr s u" for u using same less by (cases "u = t") auto
    then show ?thesis unfolding te_msr_def using t less by (intro sum_strict_mono_ex1) auto
  qed
qed

definition te_inv :: "nat \<Rightarrow> (nat \<Rightarrow> thr_call list) \<Rightarrow> te_sys \<Rightarrow> bool" where
  "te_inv N P s \<longleftrightarrow> proper_program P \<and> (\<forall>u. P u \<noteq> [] \<longrightarrow> u < N) \<and> te_wf P s \<and> te_fault s = None"

lemma do_thr_call_fault: "do_thr_call pc rr t c s = Inr s' \<Longrightarrow> te_fault s' = te_fault s"
  by (cases c) (auto split: if_splits list.splits option.splits)

lemma thr_next_fault: "thr_next pc rr t s = Inr s' \<Longrightarrow> te_fault s' = te_fault s"
  by (auto simp: thr_next_def dest: do_thr_call_fault split: list.splits)

lemma te_step_call:
  assumes "te_step pc rr s s'" and "te_wf P s"
  obtains t where "thr_next pc rr t s = Inr s'"
proof -
  from assms(1) obtain t where t: "thread_step te_crash (thr_next pc rr t) s s'" by (auto simp: te_step_def)
  show thesis
  proof (cases "thr_next pc rr t s")
    case (Inl x)
    have "te_rest s t \<noteq> []" using t Inl by (auto simp: thread_step_def thr_next_def)
    then show ?thesis using thr_next_stuck [OF assms(2) Inl] t Inl by (simp add: thread_step_def)
  next
    case (Inr x)
    then show ?thesis using t that by (simp add: thread_step_def)
  qed
qed

lemma te_start_wf: "proper_program P \<Longrightarrow> te_wf P (te_start (P 0))"
  by (auto simp: proper_program_def te_wf_def main_wf_def thr_wf_def te_start_def fresh_thr_def lines_of_def
      intro: joins_ok_mono split: if_splits)

interpretation threads: terminating_system "\<lambda>s. proper_program P \<and> (\<forall>u. P u \<noteq> [] \<longrightarrow> u < N) \<and> s = te_start (P 0)" "te_step pc rr" "te_inv N P" "te_msr N"
  for pc rr N P
proof unfold_locales
  show "te_inv N P s" if "proper_program P \<and> (\<forall>u. P u \<noteq> [] \<longrightarrow> u < N) \<and> s = te_start (P 0)" for s
    using that te_start_wf [of P] by (simp add: te_inv_def) (simp add: te_start_def)
  show "te_inv N P s'" if inv: "te_inv N P s" and st: "te_step pc rr s s'" for s s'
  proof -
    have wf: "te_wf P s" using inv by (simp add: te_inv_def)
    obtain t where "thr_next pc rr t s = Inr s'" by (rule te_step_call [OF st wf])
    then show ?thesis using inv thr_next_wf(1) [OF wf] thr_next_fault by (auto simp: te_inv_def)
  qed
  show "te_msr N s' < te_msr N s" if inv: "te_inv N P s" and st: "te_step pc rr s s'" for s s'
  proof -
    have wf: "te_wf P s" using inv by (simp add: te_inv_def)
    obtain t where "thr_next pc rr t s = Inr s'" by (rule te_step_call [OF st wf])
    then show ?thesis using inv thr_next_msr [OF wf] by (auto simp: te_inv_def)
  qed
qed

lemma te_progress:
  assumes wf: "te_wf P s" and f: "te_fault s = None" and e: "te_end s 0 = None" and r: "te_rest s 0 \<noteq> []"
  shows "\<exists>s'. te_step pc rr s s'"
proof -
  have moves: "\<exists>s'. te_step pc rr s s'" if "thr_next pc rr t s = Inr s'" for t s'
    using that f e by (intro exI [of _ s'], simp add: te_step_def) (rule exI [of _ t], simp add: thread_step_def)
  show ?thesis
  proof (cases "thr_next pc rr 0 s")
    case (Inl x)
    then obtain u where u: "u \<noteq> 0" "te_rest s u \<noteq> []" using thr_next_stuck [OF wf Inl r] by blast
    then obtain s' where "thr_next pc rr u s = Inr s'" using thr_next_stuck [OF wf _ u(2)] by (cases "thr_next pc rr u s") auto
    then show ?thesis by (rule moves)
  next
    case (Inr s')
    then show ?thesis by (rule moves)
  qed
qed

text \<open>\<open>main\<close> has calls left until it ends, and a thread that has ended stays so.\<close>

lemma te_reach_main:
  assumes "(te_step pc rr)\<^sup>*\<^sup>* (te_start (P 0)) s" and P: "proper_program P" "\<forall>u. P u \<noteq> [] \<longrightarrow> u < N"
  shows "te_wf P s \<and> te_fault s = None \<and> 0 \<in> begun s"
  using assms(1)
proof (induction rule: rtranclp_induct)
  case base
  show ?case using P(1) te_start_wf [OF P(1)] by (simp add: begun_def te_start_def proper_program_def)
next
  case (step s s')
  have wf: "te_wf P s" and f: "te_fault s = None" and b: "0 \<in> begun s" using step.IH by auto
  obtain t where t: "thr_next pc rr t s = Inr s'" by (rule te_step_call [OF step(2) wf])
  have e: "te_end s 0 = None" using step(2) by (simp add: te_step_def)
  obtain c cs where c: "te_rest s t = c # cs" and do: "do_thr_call pc rr t c (s\<lparr>te_rest := (te_rest s)(t := cs)\<rparr>) = Inr s'"
    using thr_nextE [OF t thr_next_rest [OF t]] .
  have thr: "thr_wf P s t" using wf by (simp add: te_wf_def)
  have "0 \<in> begun s'"
  proof (cases "\<exists>u ds ok strict. c = Spawn u ds ok strict")
    case True
    then obtain v ds ok strict where v: "c = Spawn v ds ok strict" by blast
    note sp = spawn_call [OF wf c [unfolded v]]
    have "cs \<noteq> []" using thr c v by (auto simp: thr_wf_def)
    then show ?thesis using do v sp(1,2,5) by (auto simp: begun_def)
  next
    case False
    then show ?thesis using local_thr_wf(2) [OF thr c False do] local_call(1) [OF do False, of 0] b by (cases "t = 0") (auto simp: begun_def)
  qed
  then show ?case using thr_next_wf(1) [OF wf P(1) t] thr_next_fault [OF t] f by simp
qed

lemma te_reach_sound:
  assumes "(te_step pc rr)\<^sup>*\<^sup>* (te_start (P 0)) s" and P: "proper_program P" "\<forall>u. P u \<noteq> [] \<longrightarrow> u < N"
    and "\<And>u r. te_end s u = Some r \<Longrightarrow> E u = r"
  shows "te_sound pc rr E P s"
  using assms(1,4)
proof (induction rule: rtranclp_induct)
  case base
  show ?case using P by (auto simp: te_sound_def thr_sound_def te_start_def lines_of_def)
next
  case (step s s')
  have wf: "te_wf P s" using te_reach_main [OF step(1) P] by simp
  obtain t where t: "thr_next pc rr t s = Inr s'" by (rule te_step_call [OF step(2) wf])
  have E: "te_end s u = Some r \<Longrightarrow> E u = r" for u r using step.prems thr_next_wf(2) [OF wf P(1) t] by blast
  show ?case using thr_next_sound [OF wf t E step.IH [OF E]] .
qed

text \<open>
  Whatever the interleaving, a program has a bounded number of steps, no fault, and ends; each thread that has ended then did what it may
  do alone, whatever one says of the ends of the threads that have not.
\<close>

lemma program_outcome:
  assumes run: "(te_step pc rr ^^ n) (te_start (P 0)) s" and P: "proper_program P" "\<forall>u. P u \<noteq> [] \<longrightarrow> u < N"
  shows "n \<le> calls_weight (P 0)" "te_fault s = None"
    and "(\<And>s'. \<not> te_step pc rr s s') \<Longrightarrow> \<exists>r. te_end s 0 = Some r"
    and "te_end s t = Some r \<Longrightarrow> thr_result pc rr (asked P t) (\<lambda>u. case te_end s u of Some r \<Rightarrow> r | None \<Rightarrow> E u) [] (P t) (lines_of t s) r"
proof -
  have reach: "(te_step pc rr)\<^sup>*\<^sup>* (te_start (P 0)) s" using run by (rule relpowp_imp_rtranclp)
  have N: "0 < N" using P by (auto simp: proper_program_def)
  have start: "proper_program P \<and> (\<forall>u. P u \<noteq> [] \<longrightarrow> u < N) \<and> te_start (P 0) = te_start (P 0)" using P by blast
  have "n + te_msr N s \<le> te_msr N (te_start (P 0))" using threads.run_length [OF run threads.inv_init [OF start]] .
  moreover have "te_msr N (te_start (P 0)) = (\<Sum>t<N. if t = 0 then calls_weight (P 0) else 0)"
    unfolding te_msr_def by (rule sum.cong) (simp_all add: thr_msr_def te_start_def)
  ultimately show "n \<le> calls_weight (P 0)" using N by simp
  note main = te_reach_main [OF reach P]
  show "te_fault s = None" using main by simp
  show "\<exists>r. te_end s 0 = Some r" if "\<And>s'. \<not> te_step pc rr s s'"
    using te_progress [of P s pc rr] main that by (cases "te_end s 0") (auto simp: begun_def)
  show "thr_result pc rr (asked P t) (\<lambda>u. case te_end s u of Some r \<Rightarrow> r | None \<Rightarrow> E u) [] (P t) (lines_of t s) r" if "te_end s t = Some r"
  proof -
    have "te_sound pc rr (\<lambda>u. case te_end s u of Some r \<Rightarrow> r | None \<Rightarrow> E u) P s"
      by (rule te_reach_sound [OF reach P]) auto
    then have "thr_sound pc rr (asked P t) (\<lambda>u. case te_end s u of Some r \<Rightarrow> r | None \<Rightarrow> E u) (P t) s t" by (simp only: te_sound_def)
    then show ?thesis using that by (simp add: thr_sound_def)
  qed
qed

section \<open>The three programs\<close>

definition program :: "thr_call list \<Rightarrow> thr_call list \<Rightarrow> thr_call list \<Rightarrow> nat \<Rightarrow> thr_call list" where
  "program main t1 t2 u = (if u = 0 then main else if u = 1 then t1 else if u = 2 then t2 else [])"

lemma program_simps [simp]: "program main t1 t2 0 = main" "program main t1 t2 1 = t1" "program main t1 t2 (Suc 0) = t1" "program main t1 t2 2 = t2"
  by (simp_all add: program_def)

lemma program_bound: "\<forall>u. program main t1 t2 u \<noteq> [] \<longrightarrow> u < 3"
  by (auto simp: program_def split: if_splits)

lemma asked_program: "asked (program main t1 t2) t \<longleftrightarrow> PthreadCancel t \<in> set main \<union> set t1 \<union> set t2"
proof
  show "asked (program main t1 t2) t \<Longrightarrow> PthreadCancel t \<in> set main \<union> set t1 \<union> set t2"
    by (auto simp: asked_def program_def split: if_splits)
  have "PthreadCancel t \<in> set (program main t1 t2 u) \<Longrightarrow> asked (program main t1 t2) t" for u by (auto simp: asked_def)
  from this [of 0] this [of 1] this [of 2] show "PthreadCancel t \<in> set main \<union> set t1 \<union> set t2 \<Longrightarrow> asked (program main t1 t2) t" by auto
qed

lemma proper_programI:
  assumes "spawns main = [(1, t1), (2, t2)]" "joins_ok {} main" "call_ok 0 main"
    "call_ok 0 t1" "spawns t1 = []" "joins_ok {} t1" "call_ok 0 t2" "spawns t2 = []" "joins_ok {} t2"
  shows "proper_program (program main t1 t2)"
proof -
  have "main \<noteq> []" "t1 \<noteq> []" "t2 \<noteq> []" using assms by auto
  then show ?thesis unfolding proper_program_def using assms by (simp add: program_def)
qed

lemmas program_defs = exit_main_def exit_thr_fn1_def exit_thr_fn2_def cleanup_main_def cleanup_thr_fn1_def cleanup_thr_fn2_def
  cancel_main_def cancel_thr_fn1_def cancel_thr_fn2_def

lemma programs_proper:
  "proper_program (program (exit_main True True) exit_thr_fn1 exit_thr_fn2)"
  "proper_program (program (cleanup_main True True) (cleanup_thr_fn1 1) (cleanup_thr_fn2 2))"
  "proper_program (program (cancel_main True True) (cancel_thr_fn1 0) (cancel_thr_fn2 1))"
  by (rule proper_programI; simp add: program_defs)+

lemma end_num_distinct: "end_num (Returned 0) \<noteq> end_num (Returned 1)"
  by (simp add: end_num_def dec_inj)

text \<open>What the threads may do alone.\<close>

lemma main_results:
  "thr_result pc rr q E [] (exit_main ok1 ok2) ls r \<Longrightarrow>
     ls = [''thread 1 exit code: '' @ end_num (E 1), ''thread 2 exit code: '' @ end_num (E 2)] \<and> r = Returned 0"
  "thr_result pc rr q E [] (cleanup_main ok1 ok2) ls r \<Longrightarrow>
     ls = [''thread 1 ended with status: '' @ end_num (E 1), ''thread2 ended with status: '' @ end_num (E 2)] \<and> r = Returned 0"
  "thr_result pc rr q E [] (cancel_main ok1 ok2) ls r \<Longrightarrow>
     ls = [if E 1 = Canceled then ''thread 1 is canceled'' else ''some error occurred''] \<and> r = Returned 0"
  by (auto simp: exit_main_def cleanup_main_def cancel_main_def)

lemma exit_results:
  "thr_result pc rr False E [] exit_thr_fn1 ls r \<Longrightarrow> ls = [''thread1 returning''] \<and> r = Returned 1"
  "thr_result pc rr False E [] exit_thr_fn2 ls r \<Longrightarrow> ls = [''thread2 returning''] \<and> r = Returned 2"
  by (auto simp: exit_thr_fn1_def exit_thr_fn2_def)

lemma cleanup_results:
  "thr_result pc rr False E [] (cleanup_thr_fn1 1) ls r \<Longrightarrow>
     ls = ''thread 1 start'' # (if rr then [''thread1 second cleanup'', ''thread1 first cleanup''] else []) \<and> r = Returned 1"
  "thr_result pc rr False E [] (cleanup_thr_fn2 2) ls r \<Longrightarrow>
     ls = [''thread 2 start'', ''thread2 second cleanup'', ''thread2 first cleanup''] \<and> r = Returned 2"
  by (auto simp: cleanup_thr_fn1_def cleanup_thr_fn2_def split: if_splits)

lemma cancel_results:
  "thr_result pc rr True E [] (cancel_thr_fn1 0) ls r \<Longrightarrow>
     r = Canceled \<and> (ls = [''waiting for canceling.'', ''second cleanup'', ''first cleanup''] \<or> pc \<and> ls = [])
     \<or> r = Returned 0 \<and> ls = [''waiting for canceling.'']"
  by (auto simp: cancel_thr_fn1_def split: if_splits)

text \<open>A thread whose end shows in what \<open>main\<close> printed has ended.\<close>

lemma shown_ended:
  assumes "\<And>E. p (case te_end s u of Some r \<Rightarrow> r | None \<Rightarrow> E u) = (x :: string)" and "p r \<noteq> p r'"
  obtains r where "te_end s u = Some r"
  using assms(1) [of "\<lambda>u. r"] assms(1) [of "\<lambda>u. r'"] assms(2) that by (cases "te_end s u") auto

text \<open>The run of a program with two threads, with the results the threads may have alone.\<close>

lemma program_run:
  assumes run: "(te_step pc rr ^^ n) (te_start m) s" and P: "proper_program (program m t1 t2)"
    and m: "\<forall>q E ls r. thr_result pc rr q E [] m ls r \<longrightarrow> ls = out (E 1) (E 2) \<and> r = Returned 0"
  shows "n \<le> calls_weight m" "te_fault s = None"
    and "(\<And>s'. \<not> te_step pc rr s s') \<Longrightarrow> te_end s 0 = Some (Returned 0)"
    and "(\<And>s'. \<not> te_step pc rr s s') \<Longrightarrow> lines_of 0 s = out (case te_end s 1 of Some r \<Rightarrow> r | None \<Rightarrow> e1) (case te_end s 2 of Some r \<Rightarrow> r | None \<Rightarrow> e2)"
    and "te_end s 1 = Some r1 \<Longrightarrow> \<exists>E. thr_result pc rr (asked (program m t1 t2) 1) E [] t1 (lines_of 1 s) r1"
    and "te_end s 2 = Some r2 \<Longrightarrow> \<exists>E. thr_result pc rr (asked (program m t1 t2) 2) E [] t2 (lines_of 2 s) r2"
proof -
  have run': "(te_step pc rr ^^ n) (te_start (program m t1 t2 0)) s" using run by simp
  note res = program_outcome [OF run' P program_bound]
  show "n \<le> calls_weight m" "te_fault s = None" using res(1,2) by simp_all
  show "\<exists>E. thr_result pc rr (asked (program m t1 t2) 1) E [] t1 (lines_of 1 s) r1" if "te_end s 1 = Some r1"
    using res(4) [OF that] unfolding program_simps by blast
  show "\<exists>E. thr_result pc rr (asked (program m t1 t2) 2) E [] t2 (lines_of 2 s) r2" if "te_end s 2 = Some r2"
    using res(4) [OF that] unfolding program_simps by blast
  assume stuck: "\<And>s'. \<not> te_step pc rr s s'"
  obtain r where r: "te_end s 0 = Some r" using res(3) [OF stuck] by blast
  have main: "thr_result pc rr (asked (program m t1 t2) 0) (\<lambda>u. case te_end s u of Some r \<Rightarrow> r | None \<Rightarrow> (if u = 1 then e1 else e2)) [] m (lines_of 0 s) r"
    using res(4) [OF r, of "\<lambda>u. if u = 1 then e1 else e2"] unfolding program_simps .
  show "te_end s 0 = Some (Returned 0)" using m [rule_format, OF main] r by simp
  show "lines_of 0 s = out (case te_end s 1 of Some r \<Rightarrow> r | None \<Rightarrow> e1) (case te_end s 2 of Some r \<Rightarrow> r | None \<Rightarrow> e2)"
    using m [rule_format, OF main] by simp
qed

text \<open>What \<open>main\<close> printed shows how a thread has ended, so that it has.\<close>

lemma shown_end:
  assumes "\<And>e. x = (h (case d of Some r \<Rightarrow> r | None \<Rightarrow> e) :: 'a)" and "h r \<noteq> h r'"
  obtains r where "d = Some r"
  using assms(1) [of r] assms(1) [of r'] assms(2) that by (cases d) auto

lemma program_joined:
  assumes "\<And>e1 e2. x = [f @ end_num (case d1 of Some r \<Rightarrow> r | None \<Rightarrow> e1), g @ end_num (case d2 of Some r \<Rightarrow> r | None \<Rightarrow> e2)]"
  obtains r1 r2 where "d1 = Some r1" "d2 = Some r2" "x = [f @ end_num r1, g @ end_num r2]"
proof -
  have 1: "x ! 0 = f @ end_num (case d1 of Some r \<Rightarrow> r | None \<Rightarrow> e)" for e by (subst assms [of e undefined]) simp
  obtain r1 where r1: "d1 = Some r1" using shown_end [of "x ! 0" "\<lambda>r. f @ end_num r" d1 "Returned 0" "Returned 1", OF 1] end_num_distinct by auto
  have 2: "x ! 1 = g @ end_num (case d2 of Some r \<Rightarrow> r | None \<Rightarrow> e)" for e by (subst assms [of undefined e]) simp
  obtain r2 where r2: "d2 = Some r2" using shown_end [of "x ! 1" "\<lambda>r. g @ end_num r" d2 "Returned 0" "Returned 1", OF 2] end_num_distinct by auto
  show thesis using that r1 r2 assms by simp
qed

lemma end_num_digit: "end_num (Returned 1) = ''1''" "end_num (Returned 2) = ''2''"
  by code_simp+

lemma exit_outcome:
  assumes run: "(te_step pc rr ^^ n) (te_start (exit_main True True)) s"
  shows "n \<le> 19 \<and> te_fault s = None \<and> ((\<exists>t. te_step pc rr s t)
    \<or> te_end s 0 = Some (Returned 0) \<and> lines_of 0 s = [''thread 1 exit code: 1'', ''thread 2 exit code: 2'']
      \<and> lines_of 1 s = [''thread1 returning''] \<and> lines_of 2 s = [''thread2 returning''])"
proof -
  let ?out = "\<lambda>r1 r2. [''thread 1 exit code: '' @ end_num r1, ''thread 2 exit code: '' @ end_num r2]"
  have m: "\<forall>q E ls r. thr_result pc rr q E [] (exit_main True True) ls r \<longrightarrow> ls = ?out (E 1) (E 2) \<and> r = Returned 0"
    using main_results(1) by blast
  note res = program_run [OF run programs_proper(1) m]
  have q: "\<not> asked (program (exit_main True True) exit_thr_fn1 exit_thr_fn2) t" for t by (simp add: asked_program program_defs)
  have "n \<le> 19" using res(1) by (simp add: program_defs)
  moreover have "te_end s 0 = Some (Returned 0) \<and> lines_of 0 s = [''thread 1 exit code: 1'', ''thread 2 exit code: 2'']
      \<and> lines_of 1 s = [''thread1 returning''] \<and> lines_of 2 s = [''thread2 returning'']" if stuck: "\<nexists>t. te_step pc rr s t"
  proof -
    from stuck have st: "\<And>t. \<not> te_step pc rr s t" by blast
    from res(4) [OF st] obtain r1 r2 where r: "te_end s 1 = Some r1" "te_end s 2 = Some r2"
      and l: "lines_of 0 s = [''thread 1 exit code: '' @ end_num r1, ''thread 2 exit code: '' @ end_num r2]" by (rule program_joined)
    obtain E where "thr_result pc rr False E [] exit_thr_fn1 (lines_of 1 s) r1" using res(5) [OF r(1)] q by auto
    moreover obtain E where "thr_result pc rr False E [] exit_thr_fn2 (lines_of 2 s) r2" using res(6) [OF r(2)] q by auto
    ultimately show ?thesis using exit_results res(3) [OF st] l end_num_digit by force
  qed
  ultimately show ?thesis using res(2) by blast
qed

text \<open>A run by a given schedule.\<close>

fun te_run :: "bool \<Rightarrow> bool \<Rightarrow> nat list \<Rightarrow> te_sys \<Rightarrow> te_sys option" where
  "te_run pc rr [] s = Some s"
| "te_run pc rr (t # ts) s = (if te_fault s = None \<and> te_end s 0 = None
     then case thr_next pc rr t s of Inr s' \<Rightarrow> te_run pc rr ts s' | Inl x \<Rightarrow> if x = Blocks then None else te_run pc rr ts (te_crash x s) else None)"

lemma te_run_steps: "te_run pc rr ts s = Some s' \<Longrightarrow> (te_step pc rr ^^ length ts) s s'"
proof (induction ts arbitrary: s)
  case (Cons t ts)
  obtain s1 where run: "te_fault s = None" "te_end s 0 = None" "te_run pc rr ts s1 = Some s'"
    and t: "thread_step te_crash (thr_next pc rr t) s s1"
    using Cons.prems by (auto simp: thread_step_def split: if_splits sum.splits)
  have "te_step pc rr s s1" using run t by (auto simp: te_step_def)
  then show ?case using Cons.IH [OF run(3)] by (auto simp del: relpowp.simps intro: relpowp_Suc_I2)
qed simp

text \<open>
  When no thread can be created, \<open>pthread_exit.c\<close> exits with -1. The other two programs ignore the error and join a thread that
  was never created, through an identifier that was never set.
\<close>

lemma create_fails:
  "te_step pc rr (te_start (exit_main False ok2)) (te_crash (Exits (- 1)) (te_start (exit_main False ok2)))"
  "\<exists>s. (te_step pc rr ^^ 3) (te_start (cleanup_main False False)) s \<and> te_fault s = Some Uninitialised"
  "\<exists>s. (te_step pc rr ^^ 3) (te_start (cancel_main False False)) s \<and> te_fault s = Some Uninitialised"
proof -
  have "thread_step te_crash (thr_next pc rr 0) (te_start (exit_main False ok2)) (te_crash (Exits (- 1)) (te_start (exit_main False ok2)))"
    by (simp add: thread_step_def thr_next_def te_start_def exit_main_def)
  then show "te_step pc rr (te_start (exit_main False ok2)) (te_crash (Exits (- 1)) (te_start (exit_main False ok2)))"
    unfolding te_step_def by (auto simp: te_start_def)
  have "\<exists>s. te_run pc rr [0, 0, 0] (te_start (cleanup_main False False)) = Some s \<and> te_fault s = Some Uninitialised"
    by (simp add: thr_next_def te_start_def cleanup_main_def te_crash_def)
  then show "\<exists>s. (te_step pc rr ^^ 3) (te_start (cleanup_main False False)) s \<and> te_fault s = Some Uninitialised"
    using te_run_steps [where ts = "[0, 0, 0]"] by (fastforce simp: eval_nat_numeral)
  have "\<exists>s. te_run pc rr [0, 0, 0] (te_start (cancel_main False False)) = Some s \<and> te_fault s = Some Uninitialised"
    by (simp add: thr_next_def te_start_def cancel_main_def te_crash_def)
  then show "\<exists>s. (te_step pc rr ^^ 3) (te_start (cancel_main False False)) s \<and> te_fault s = Some Uninitialised"
    using te_run_steps [where ts = "[0, 0, 0]"] by (fastforce simp: eval_nat_numeral)
qed

section \<open>Properties\<close>





end
