(* ===== verification/Terminal.thy ===== *)
theory Terminal
  imports Signals C_Buffer "HOL-Library.Word"
begin

text \<open>
  Programs that drive a terminal: the password prompt (\<open>term_io/getpass_demo.c\<close>), special characters (\<open>term_io/alt_spchr.c\<close>), flow
  control (\<open>term_io/tc_linecntl.c\<close>) and window sizes (\<open>term_io/winsz.c\<close>). The lemmas show that a password is read without being shown,
  that the terminal and the signal mask are as before afterwards, and that \<open>main\<close> clears it.
\<close>

unbundle bit_operations_syntax

section \<open>The terminal\<close>

definition ECHO :: "32 word" where "ECHO = 0x08"
definition ECHOE :: "32 word" where "ECHOE = 0x10"
definition ECHOK :: "32 word" where "ECHOK = 0x20"
definition ECHONL :: "32 word" where "ECHONL = 0x40"
definition VINTR :: nat where "VINTR = 0"
definition VEOF :: nat where "VEOF = 4"

record termios =
  c_lflag :: "32 word"
  c_cc :: "8 word list"

text \<open>
  A terminal in canonical mode: its attributes, the input that has arrived but was not read, the keys that will still be pressed, and what the screen shows.
\<close>

record tty =
  tty_attr :: termios
  tty_queue :: string
  tty_keys :: string
  tty_screen :: string
  tty_off :: bool

definition echo_of :: "tty \<Rightarrow> char \<Rightarrow> string" where
  "echo_of t x = (if c_lflag (tty_attr t) AND ECHO \<noteq> 0 \<or> x = newline \<and> c_lflag (tty_attr t) AND ECHONL \<noteq> 0 then [x] else [])"

text \<open>The next line is typed, up to its newline, and echoed as the attributes say.\<close>

definition type_line :: "tty \<Rightarrow> tty" where
  "type_line t =
     (let l = takeWhile (\<lambda>x. x \<noteq> newline) (tty_keys t) @ take 1 (dropWhile (\<lambda>x. x \<noteq> newline) (tty_keys t))
      in t\<lparr>tty_queue := tty_queue t @ l, tty_keys := drop (length l) (tty_keys t), tty_screen := tty_screen t @ concat (map (echo_of t) l)\<rparr>)"

text \<open>\<open>getc\<close>: the next character, or \<open>None\<close> for \<open>EOF\<close>.\<close>

definition tty_getc :: "tty \<Rightarrow> char option \<times> tty" where
  "tty_getc t = (let t1 = (if tty_queue t = [] then type_line t else t)
     in case tty_queue t1 of [] \<Rightarrow> (None, t1) | x # xs \<Rightarrow> (Some x, t1\<lparr>tty_queue := xs\<rparr>))"

text \<open>\<open>tcsetattr\<close> with \<open>TCSAFLUSH\<close> drops the input that was not read.\<close>

definition tcsetattr :: "termios \<Rightarrow> tty \<Rightarrow> tty" where
  "tcsetattr a t = t\<lparr>tty_attr := a, tty_queue := []\<rparr>"

definition tty_puts :: "string \<Rightarrow> tty \<Rightarrow> tty" where
  "tty_puts xs t = t\<lparr>tty_screen := tty_screen t @ xs\<rparr>"

section \<open>getpass\<close>

definition MAX_PASS_LEN :: nat where
  "MAX_PASS_LEN = 8"

record gp_sys =
  gp_tty :: tty
  gp_mask :: "nat set"
  gp_buf :: cbuf
  gp_open :: nat
  gp_out :: "string list"

text \<open>Whether \<open>fopen\<close> and \<open>tcgetattr\<close> work, and whether \<open>char\<close> is signed, which C leaves open.\<close>

record gp_env =
  ge_fopen :: bool
  ge_getattr :: bool
  ge_signed :: bool

text \<open>The assignment of what \<open>getc\<close> returns to \<open>c\<close>.\<close>

definition EOF :: int where
  "EOF = -1"

definition getc_char :: "bool \<Rightarrow> char option \<Rightarrow> int" where
  "getc_char sgn_char r =
     (let v = (case r of None \<Rightarrow> EOF | Some x \<Rightarrow> of_char x) mod 256 in if sgn_char \<and> 128 \<le> v then v - 256 else v)"

text \<open>The loop that reads the password; \<open>None\<close> when it has not ended after \<open>fuel\<close> characters.\<close>

fun read_pass :: "bool \<Rightarrow> nat \<Rightarrow> tty \<Rightarrow> nat \<Rightarrow> cbuf \<Rightarrow> (tty \<times> nat \<times> cbuf) option c" where
  "read_pass sgn_char 0 t ptr buf = Inr None"
| "read_pass sgn_char (Suc fuel) t ptr buf =
     (let (r, t1) = tty_getc t; c = getc_char sgn_char r
      in if c \<noteq> EOF \<and> c \<noteq> 10
         then bindE (if ptr < MAX_PASS_LEN then bindE (put_char ptr (char_of (c mod 256)) buf) (\<lambda>b. Inr (ptr + 1, b)) else Inr (ptr, buf))
                (\<lambda>(p, b). read_pass sgn_char fuel t1 p b)
         else Inr (Some (t1, ptr, buf)))"

definition noecho :: "termios \<Rightarrow> termios" where
  "noecho a = a\<lparr>c_lflag := c_lflag a AND NOT (ECHO OR ECHOE OR ECHOK OR ECHONL)\<rparr>"

text \<open>The result says whether \<open>getpass\<close> returns its buffer or a null pointer.\<close>

definition getpass :: "gp_env \<Rightarrow> nat \<Rightarrow> string \<Rightarrow> gp_sys \<Rightarrow> (gp_sys \<times> bool) option c" where
  "getpass e fuel prompt s =
     (if \<not> ge_fopen e then Inr (Some (s, False))
      else (let osig = gp_mask s; s1 = s\<lparr>gp_open := gp_open s + 1, gp_mask := gp_mask s \<union> {SIGINT, SIGTSTP}\<rparr>
        in if \<not> ge_getattr e then Inl (Exits (-1))
        else (let ots = tty_attr (gp_tty s1); t1 = tty_puts prompt (tcsetattr (noecho ots) (gp_tty s1))
          in bindE (read_pass (ge_signed e) fuel t1 0 (gp_buf s1)) (\<lambda>r. case r of None \<Rightarrow> Inr None
             | Some (t2, ptr, buf) \<Rightarrow> bindE (put_char ptr nul buf) (\<lambda>buf'.
                 Inr (Some (s1\<lparr>gp_tty := tcsetattr ots (tty_puts [newline] t2), gp_buf := buf', gp_mask := osig, gp_open := gp_open s1 - 1\<rparr>, True)))))))"

text \<open>The loop of \<open>main\<close> that clears the password.\<close>

fun wipe :: "cbuf \<Rightarrow> cbuf c" where
  "wipe [] = Inl OutOfBounds"
| "wipe (None # r) = Inl Uninitialised"
| "wipe (Some x # r) = (if x \<noteq> nul then bindE (wipe r) (\<lambda>r'. Inr (Some nul # r')) else Inr (Some x # r))"

definition getpass_main :: "gp_env \<Rightarrow> nat \<Rightarrow> gp_sys \<Rightarrow> gp_sys option c" where
  "getpass_main e fuel s =
     bindE (getpass e fuel ''Enter password:'' s) (\<lambda>r. case r of None \<Rightarrow> Inr None
     | Some (s1, ok) \<Rightarrow> if \<not> ok then Inl (Exits (-1))
         else bindE (c_str (gp_buf s1)) (\<lambda>pw.
              bindE (wipe (gp_buf s1)) (\<lambda>buf.
                Inr (Some (s1\<lparr>gp_out := gp_out s1 @ [''password: '' @ pw @ [newline]], gp_buf := buf\<rparr>)))))"

section \<open>Special characters, flow control and window size\<close>

text \<open>The result of \<open>fpathconf\<close> is only tested; the value stored is the constant, 0 on Linux.\<close>

record spchr_env =
  sp_isatty :: bool
  sp_vdisable :: int
  sp_getattr :: bool
  sp_setattr :: bool

definition alt_spchr :: "spchr_env \<Rightarrow> tty \<Rightarrow> tty c" where
  "alt_spchr e t =
     (if \<not> sp_isatty e then Inl (Exits (-1))
      else if sp_vdisable e < 0 then Inl (Exits (-1))
      else if \<not> sp_getattr e then Inl (Exits (-1))
      else bindE (aset (c_cc (tty_attr t)) VINTR 0) (\<lambda>cc.
           bindE (aset cc VEOF 2) (\<lambda>cc'.
             if \<not> sp_setattr e then Inl (Exits (-1)) else Inr (tcsetattr ((tty_attr t)\<lparr>c_cc := cc'\<rparr>) t))))"

definition tc_linecntl :: "bool \<Rightarrow> bool \<Rightarrow> tty \<Rightarrow> tty c" where
  "tc_linecntl isatty flow t =
     (if \<not> isatty then Inl (Exits (-1)) else if \<not> flow then Inl (Exits (-1)) else Inr (t\<lparr>tty_off := True\<rparr>))"

type_synonym winsize = "16 word \<times> 16 word"

text \<open>\<open>sz\<close> is what \<open>ioctl\<close> stores, or \<open>None\<close> when it fails.\<close>

definition pr_winsz :: "winsize option \<Rightarrow> string list \<Rightarrow> string list c" where
  "pr_winsz sz out = (case sz of None \<Rightarrow> Inl (Exits (-1))
     | Some (row, col) \<Rightarrow> Inr (out @ [dec (uint row) @ '' row, '' @ dec (uint col) @ '' columns'' @ [newline]]))"

definition sig_winch :: "winsize option \<Rightarrow> string list \<Rightarrow> string list c" where
  "sig_winch sz out = pr_winsz sz (out @ [''SIGWINCH received'' @ [newline]])"

text \<open>What is printed until the process waits in \<open>pause\<close> after the changes \<open>szs\<close> of the window.\<close>

definition winsz_main :: "bool \<Rightarrow> bool \<Rightarrow> winsize option \<Rightarrow> winsize option list \<Rightarrow> string list c" where
  "winsz_main isatty sig_ok sz szs =
     (if \<not> isatty then Inl (Exits 1)
      else if \<not> sig_ok then Inl (Exits (-1))
      else bindE (pr_winsz sz []) (run_stmts (map sig_winch szs)))"

section \<open>Reading without echo\<close>

lemma noecho_quiet [simp]: "tty_attr t = noecho a \<Longrightarrow> echo_of t x = []"
proof -
  have "NOT (ECHO OR ECHOE OR ECHOK OR ECHONL) AND ECHO = 0" "NOT (ECHO OR ECHOE OR ECHOK OR ECHONL) AND ECHONL = 0"
    by (simp_all add: ECHO_def ECHOE_def ECHOK_def ECHONL_def)
  then show "tty_attr t = noecho a \<Longrightarrow> echo_of t x = []" by (simp add: echo_of_def noecho_def and.assoc)
qed

lemma first_line_split:
  "(let l = takeWhile p ks @ take 1 (dropWhile p ks) in l @ drop (length l) ks = ks \<and> (ks \<noteq> [] \<longrightarrow> l \<noteq> []))"
  by (induction ks) (auto simp: Let_def)

lemma type_line_input:
  "tty_queue (type_line t) @ tty_keys (type_line t) = tty_queue t @ tty_keys t"
  "tty_keys t \<noteq> [] \<Longrightarrow> tty_queue (type_line t) \<noteq> []"
  "tty_attr (type_line t) = tty_attr t" "tty_off (type_line t) = tty_off t"
  using first_line_split [of "\<lambda>x. x \<noteq> newline" "tty_keys t"] by (auto simp: type_line_def Let_def)

lemma type_line_quiet: "tty_attr t = noecho a \<Longrightarrow> tty_screen (type_line t) = tty_screen t"
  by (simp add: type_line_def Let_def)

text \<open>With echo off, \<open>getc\<close> takes the next character of the input and shows nothing.\<close>

definition tty_input :: "tty \<Rightarrow> string" where
  "tty_input t = tty_queue t @ tty_keys t"

lemma tty_getc_quiet:
  assumes a: "tty_attr t = noecho a" and g: "tty_getc t = (r, t1)"
  shows "tty_attr t1 = tty_attr t" "tty_screen t1 = tty_screen t"
    and "tty_input t = [] \<Longrightarrow> r = None \<and> tty_input t1 = []"
    and "tty_input t = x # xs \<Longrightarrow> r = Some x \<and> tty_input t1 = xs"
proof -
  define u where "u = (if tty_queue t = [] then type_line t else t)"
  have u: "tty_attr u = tty_attr t" "tty_screen u = tty_screen t" "tty_input u = tty_input t"
    using type_line_input(1,3) [of t] type_line_quiet [OF a] by (auto simp: u_def tty_input_def)
  have ne: "tty_queue u = [] \<Longrightarrow> tty_input t = []"
    using type_line_input(2) [of t] by (auto simp: u_def tty_input_def split: if_splits)
  have g': "(r, t1) = (case tty_queue u of [] \<Rightarrow> (None, u) | x # xs \<Rightarrow> (Some x, u\<lparr>tty_queue := xs\<rparr>))"
    using g unfolding tty_getc_def u_def [symmetric] Let_def by simp
  show "tty_attr t1 = tty_attr t" "tty_screen t1 = tty_screen t" using g' u by (auto split: list.splits)
  show "tty_input t = [] \<Longrightarrow> r = None \<and> tty_input t1 = []" "tty_input t = x # xs \<Longrightarrow> r = Some x \<and> tty_input t1 = xs"
    using g' u ne by (auto simp: tty_input_def split: list.splits)
qed

text \<open>One round of the loop.\<close>

definition ends_pass :: "bool \<Rightarrow> char option \<Rightarrow> bool" where
  "ends_pass sc r \<longleftrightarrow> getc_char sc r = EOF \<or> getc_char sc r = 10"

lemma getc_char_byte: "char_of (getc_char sc (Some x) mod 256) = x"
proof -
  have "(of_char x :: int) mod 256 = of_char x" using of_char_mod_256 [where 'a = int] by blast
  moreover have "(of_char x - 256 :: int) mod 256 = of_char x mod 256" by simp
  then have "char_of (of_char x - 256 :: int) = x" by (metis char_of_char char_of_mod_256)
  ultimately show ?thesis by (simp add: getc_char_def Let_def)
qed

lemma read_pass_round:
  assumes g: "tty_getc t = (r, t1)" and "length xs \<le> MAX_PASS_LEN" and "length (map Some xs @ d) = Suc MAX_PASS_LEN"
  shows "read_pass sc (Suc fuel) t (length xs) (map Some xs @ d) =
    (if ends_pass sc r then Inr (Some (t1, length xs, map Some xs @ d))
     else if length xs < MAX_PASS_LEN then let ys = xs @ [char_of (getc_char sc r mod 256)] in read_pass sc fuel t1 (length ys) (map Some ys @ tl d)
     else read_pass sc fuel t1 (length xs) (map Some xs @ d))"
proof -
  have "(map Some xs @ d)[length xs := Some v] = map Some (xs @ [v]) @ tl d" if "length xs < MAX_PASS_LEN" for v
    using that assms(3) by (cases d) (auto simp: list_update_append)
  then show ?thesis using assms by (simp add: ends_pass_def put_char_def Let_def)
qed

lemma read_pass_form:
  assumes "length xs \<le> MAX_PASS_LEN" and "length (map Some xs @ d) = Suc MAX_PASS_LEN"
  obtains "read_pass sc fuel t (length xs) (map Some xs @ d) = Inr None"
  | t' ys where "read_pass sc fuel t (length xs) (map Some xs @ d) = Inr (Some (t', length (xs @ ys), map Some (xs @ ys) @ drop (length ys) d))"
      "length (xs @ ys) \<le> MAX_PASS_LEN" "\<And>a. tty_attr t = noecho a \<Longrightarrow> tty_attr t' = tty_attr t \<and> tty_screen t' = tty_screen t"
proof -
  have "read_pass sc fuel t (length xs) (map Some xs @ d) = Inr None \<or>
    (\<exists>t' ys. read_pass sc fuel t (length xs) (map Some xs @ d) = Inr (Some (t', length (xs @ ys), map Some (xs @ ys) @ drop (length ys) d))
      \<and> length (xs @ ys) \<le> MAX_PASS_LEN \<and> (\<forall>a. tty_attr t = noecho a \<longrightarrow> tty_attr t' = tty_attr t \<and> tty_screen t' = tty_screen t))"
    (is "?P fuel t xs d") using assms
  proof (induction fuel arbitrary: t xs d)
    case (Suc fuel)
    obtain r t1 where g: "tty_getc t = (r, t1)" by (cases "tty_getc t")
    have q: "tty_attr t = noecho a \<Longrightarrow> tty_attr t1 = tty_attr t \<and> tty_screen t1 = tty_screen t" for a using tty_getc_quiet(1,2) [OF _ g] by blast
    note round = read_pass_round [OF g Suc.prems, of sc fuel]
    consider "ends_pass sc r" | "\<not> ends_pass sc r" "length xs < MAX_PASS_LEN" | "\<not> ends_pass sc r" "\<not> length xs < MAX_PASS_LEN" by blast
    then show ?case
    proof cases
      case 1
      then show ?thesis using round q Suc.prems by (intro disjI2 exI [of _ t1] exI [of _ "[]"]) auto
    next
      case 2
      let ?v = "char_of (getc_char sc r mod 256)"
      have "?P fuel t1 (xs @ [?v]) (tl d)" by (rule Suc.IH) (use 2 Suc.prems in auto)
      then show ?thesis
      proof
        assume "\<exists>t' ys. read_pass sc fuel t1 (length (xs @ [?v])) (map Some (xs @ [?v]) @ tl d) =
            Inr (Some (t', length ((xs @ [?v]) @ ys), map Some ((xs @ [?v]) @ ys) @ drop (length ys) (tl d)))
          \<and> length ((xs @ [?v]) @ ys) \<le> MAX_PASS_LEN \<and> (\<forall>a. tty_attr t1 = noecho a \<longrightarrow> tty_attr t' = tty_attr t1 \<and> tty_screen t' = tty_screen t1)"
        then obtain t' ys where "read_pass sc fuel t1 (length (xs @ [?v])) (map Some (xs @ [?v]) @ tl d) =
            Inr (Some (t', length ((xs @ [?v]) @ ys), map Some ((xs @ [?v]) @ ys) @ drop (length ys) (tl d)))"
          "length ((xs @ [?v]) @ ys) \<le> MAX_PASS_LEN" "\<forall>a. tty_attr t1 = noecho a \<longrightarrow> tty_attr t' = tty_attr t1 \<and> tty_screen t' = tty_screen t1" by blast
        then show ?thesis using round 2 q by (intro disjI2 exI [of _ t'] exI [of _ "?v # ys"]) (auto simp: Let_def drop_Suc)
      qed (use round 2 in \<open>simp add: Let_def\<close>)
    next
      case 3
      then show ?thesis using round Suc.IH [OF Suc.prems, of t1] q by fastforce
    qed
  qed simp
  then show thesis using that by blast
qed

text \<open>Where the input has a character that ends the loop, or \<open>EOF\<close> does, the loop ends and has stored what came before.\<close>

lemma read_pass_reads:
  assumes "length xs \<le> MAX_PASS_LEN" and "length (map Some xs @ d) = Suc MAX_PASS_LEN" and "tty_attr t = noecho a"
    and "tty_input t = pw @ rest" and "\<forall>x\<in>set pw. \<not> ends_pass sc (Some x)" and "ends_pass sc (case rest of [] \<Rightarrow> None | x # _ \<Rightarrow> Some x)"
    and "length pw < fuel"
  shows "\<exists>t'. read_pass sc fuel t (length xs) (map Some xs @ d) =
    (let ys = take MAX_PASS_LEN (xs @ pw) in Inr (Some (t', length ys, map Some ys @ drop (length ys - length xs) d)))"
  using assms
proof (induction pw arbitrary: fuel t xs d)
  case Nil
  obtain n where n: "fuel = Suc n" using Nil by (cases fuel) auto
  obtain r t1 where g: "tty_getc t = (r, t1)" by (cases "tty_getc t")
  have "ends_pass sc r" using tty_getc_quiet(3,4) [OF Nil.prems(3) g] Nil.prems(4,6) by (auto split: list.splits)
  then show ?case using read_pass_round [OF g Nil.prems(1,2), of sc n] n Nil.prems(1) by simp
next
  case (Cons x pw)
  obtain n where n: "fuel = Suc n" using Cons by (cases fuel) auto
  obtain r t1 where g: "tty_getc t = (r, t1)" by (cases "tty_getc t")
  have r: "r = Some x" and i: "tty_input t1 = pw @ rest" and a: "tty_attr t1 = noecho a"
    using tty_getc_quiet [OF Cons.prems(3) g] Cons.prems(3,4) by auto
  have e: "\<not> ends_pass sc (Some x)" "\<forall>x\<in>set pw. \<not> ends_pass sc (Some x)" using Cons.prems(5) by auto
  note round = read_pass_round [OF g Cons.prems(1,2), of sc n, unfolded r getc_char_byte]
  show ?case
  proof (cases "length xs < MAX_PASS_LEN")
    case True
    define ys where "ys = take MAX_PASS_LEN ((xs @ [x]) @ pw)"
    have "\<exists>t'. read_pass sc n t1 (length (xs @ [x])) (map Some (xs @ [x]) @ tl d) =
      (let ys = take MAX_PASS_LEN ((xs @ [x]) @ pw) in Inr (Some (t', length ys, map Some ys @ drop (length ys - length (xs @ [x])) (tl d))))"
      by (rule Cons.IH [OF _ _ a i e(2) Cons.prems(6)]) (use True Cons.prems n in auto)
    then obtain t' where t': "read_pass sc n t1 (length (xs @ [x])) (map Some (xs @ [x]) @ tl d) =
      Inr (Some (t', length ys, map Some ys @ drop (length ys - length (xs @ [x])) (tl d)))" unfolding ys_def Let_def by blast
    have "length ys - length xs = Suc (length ys - length (xs @ [x]))" using True by (simp add: ys_def)
    then have d: "drop (length ys - length (xs @ [x])) (tl d) = drop (length ys - length xs) d" by (simp add: drop_Suc)
    have "read_pass sc fuel t (length xs) (map Some xs @ d) = Inr (Some (t', length ys, map Some ys @ drop (length ys - length xs) d))"
      unfolding n round d [symmetric] using t' e(1) True by (simp only: Let_def if_True if_False)
    moreover have "take MAX_PASS_LEN (xs @ x # pw) = ys" by (simp add: ys_def)
    ultimately show ?thesis by (simp only: Let_def) blast
  next
    case False
    then have xs: "length xs = MAX_PASS_LEN" using Cons.prems(1) by simp
    have "\<exists>t'. read_pass sc n t1 (length xs) (map Some xs @ d) =
      (let ys = take MAX_PASS_LEN (xs @ pw) in Inr (Some (t', length ys, map Some ys @ drop (length ys - length xs) d)))"
      by (rule Cons.IH [OF Cons.prems(1,2) a i e(2) Cons.prems(6)]) (use Cons.prems n in auto)
    then show ?thesis using round e(1) xs n by (simp add: Let_def)
  qed
qed

section \<open>getpass and main\<close>

lemma put_nul: "i < length b \<Longrightarrow> put_char i nul b = Inr (b[i := Some nul])"
  by (simp add: put_char_def)

lemma wipe_all: "nul \<notin> set xs \<Longrightarrow> wipe (map Some xs @ Some nul # r) = Inr (replicate (length xs) (Some nul) @ Some nul # r)"
  by (induction xs) auto

lemma stored_nul:
  assumes "length (map Some ys @ drop (length ys) b) = Suc MAX_PASS_LEN" and "length ys \<le> MAX_PASS_LEN"
  shows "put_char (length ys) nul (map Some ys @ drop (length ys) b) = Inr (map Some ys @ Some nul # drop (Suc (length ys)) b)"
proof -
  have "drop (length ys) b = b ! length ys # drop (Suc (length ys)) b" using assms by (intro Cons_nth_drop_Suc [symmetric]) auto
  then show ?thesis using assms by (simp add: put_nul list_update_append)
qed

lemma getpass_form:
  assumes "length (gp_buf s) = Suc MAX_PASS_LEN"
  shows "getpass e fuel prompt s = Inl (Exits (-1)) \<or> getpass e fuel prompt s = Inr None \<or> getpass e fuel prompt s = Inr (Some (s, False))
    \<or> (\<exists>s' ys. getpass e fuel prompt s = Inr (Some (s', True)) \<and> length ys \<le> MAX_PASS_LEN
        \<and> gp_buf s' = map Some ys @ Some nul # drop (Suc (length ys)) (gp_buf s) \<and> length (gp_buf s') = Suc MAX_PASS_LEN
        \<and> tty_attr (gp_tty s') = tty_attr (gp_tty s) \<and> gp_mask s' = gp_mask s \<and> gp_open s' = gp_open s
        \<and> tty_screen (gp_tty s') = tty_screen (gp_tty s) @ prompt @ [newline])"
proof (cases "ge_fopen e \<and> ge_getattr e")
  case True
  let ?t = "tty_puts prompt (tcsetattr (noecho (tty_attr (gp_tty s))) (gp_tty s))"
  have a: "tty_attr ?t = noecho (tty_attr (gp_tty s))" "tty_screen ?t = tty_screen (gp_tty s) @ prompt"
    by (simp_all add: tty_puts_def tcsetattr_def)
  have len: "length ([] :: string) \<le> MAX_PASS_LEN" "length (map Some [] @ gp_buf s) = Suc MAX_PASS_LEN" using assms by simp_all
  show ?thesis
  proof (cases rule: read_pass_form [OF len, of "ge_signed e" fuel ?t])
    case 1
    then show ?thesis using True by (simp add: getpass_def Let_def)
  next
    case (2 t' ys)
    have "put_char (length ys) nul (map Some ys @ drop (length ys) (gp_buf s)) = Inr (map Some ys @ Some nul # drop (Suc (length ys)) (gp_buf s))"
      by (rule stored_nul) (use 2 assms in auto)
    then show ?thesis using True 2(1,2) 2(3) [OF a(1)] a assms
      by (intro disjI2) (auto simp: getpass_def Let_def tty_puts_def tcsetattr_def)
  qed
next
  case False
  then show ?thesis by (auto simp: getpass_def Let_def)
qed

lemma ends_pass_simps [simp]:
  "ends_pass True None" "\<not> ends_pass False None" "ends_pass True (Some x) \<longleftrightarrow> x = newline \<or> x = CHR 0xFF" "ends_pass False (Some x) \<longleftrightarrow> x = newline"
proof -
  have "(of_char x :: int) mod 256 = of_char x" using of_char_mod_256 [where 'a = int] by blast
  then have b: "(of_char x :: int) < 256" "0 \<le> (of_char x :: int)" using pos_mod_bound [of 256 "of_char x"] pos_mod_sign [of 256 "of_char x"] by auto
  have n: "(of_char x :: int) = 10 \<longleftrightarrow> x = newline" using of_char_eq_iff [where 'a = int, of x newline] by simp
  have f: "(of_char x :: int) = 255 \<longleftrightarrow> x = CHR 0xFF" using of_char_eq_iff [where 'a = int, of x "CHR 0xFF"] by simp
  show "ends_pass True (Some x) \<longleftrightarrow> x = newline \<or> x = CHR 0xFF" "ends_pass False (Some x) \<longleftrightarrow> x = newline"
    using b n f by (auto simp: ends_pass_def getc_char_def EOF_def Let_def)
qed (simp_all add: ends_pass_def getc_char_def EOF_def Let_def)

text \<open>Where \<open>char\<close> is unsigned, the end of the input is never noticed: without a newline the loop does not end.\<close>

lemma unsigned_never_ends:
  assumes "tty_attr t = noecho a" and "newline \<notin> set (tty_input t)" and "length xs \<le> MAX_PASS_LEN" and "length (map Some xs @ d) = Suc MAX_PASS_LEN"
  shows "read_pass False fuel t (length xs) (map Some xs @ d) = Inr None"
  using assms
proof (induction fuel arbitrary: t xs d)
  case (Suc fuel)
  obtain r t1 where g: "tty_getc t = (r, t1)" by (cases "tty_getc t")
  note q = tty_getc_quiet [OF Suc.prems(1) g]
  have a: "tty_attr t1 = noecho a" using q(1) Suc.prems(1) by simp
  have i: "newline \<notin> set (tty_input t1)" using q(3,4) Suc.prems(2) by (cases "tty_input t") auto
  have e: "\<not> ends_pass False r" using q(3,4) Suc.prems(2) by (cases "tty_input t") auto
  show ?case
  proof (cases "length xs < MAX_PASS_LEN")
    case True
    have "read_pass False fuel t1 (length (xs @ [v])) (map Some (xs @ [v]) @ tl d) = Inr None" for v
      by (rule Suc.IH [OF a i]) (use True Suc.prems in auto)
    then show ?thesis using read_pass_round [OF g Suc.prems(3,4), of False fuel] e True by (simp add: Let_def del: read_pass.simps)
  next
    case False
    then show ?thesis using read_pass_round [OF g Suc.prems(3,4), of False fuel] e Suc.IH [OF a i Suc.prems(3,4)] by (simp add: Let_def del: read_pass.simps)
  qed
qed simp

lemma getpass_reads:
  assumes e: "ge_fopen e" "ge_getattr e" "ge_signed e" and len: "length (gp_buf s) = Suc MAX_PASS_LEN"
    and keys: "tty_keys (gp_tty s) = pw @ rest" and pw: "\<forall>x\<in>set pw. x \<noteq> newline \<and> x \<noteq> CHR 0xFF"
    and rest: "rest = [] \<or> hd rest = newline \<or> hd rest = CHR 0xFF" and fuel: "length pw < fuel"
  shows "\<exists>s'. getpass e fuel prompt s = Inr (Some (s', True)) \<and> gp_out s' = gp_out s
    \<and> gp_buf s' = map Some (take MAX_PASS_LEN pw) @ Some nul # drop (Suc (length (take MAX_PASS_LEN pw))) (gp_buf s)"
proof -
  let ?t = "tty_puts prompt (tcsetattr (noecho (tty_attr (gp_tty s))) (gp_tty s))" and ?ys = "take MAX_PASS_LEN pw"
  have a: "tty_attr ?t = noecho (tty_attr (gp_tty s))" and i: "tty_input ?t = pw @ rest"
    using keys by (simp_all add: tty_puts_def tcsetattr_def tty_input_def)
  have rest': "ends_pass True (case rest of [] \<Rightarrow> None | x # _ \<Rightarrow> Some x)" using rest by (cases rest) auto
  have "\<exists>t'. read_pass True fuel ?t (length ([] :: string)) (map Some [] @ gp_buf s) =
    (let ys = take MAX_PASS_LEN ([] @ pw) in Inr (Some (t', length ys, map Some ys @ drop (length ys - length ([] :: string)) (gp_buf s))))"
    by (rule read_pass_reads [OF _ _ a i]) (use pw rest' len fuel in auto)
  then obtain t' where t': "read_pass True fuel ?t 0 (gp_buf s) = Inr (Some (t', length ?ys, map Some ?ys @ drop (length ?ys) (gp_buf s)))"
    unfolding Let_def by auto
  have nul: "put_char (length ?ys) nul (map Some ?ys @ drop (length ?ys) (gp_buf s)) = Inr (map Some ?ys @ Some nul # drop (Suc (length ?ys)) (gp_buf s))"
    by (rule stored_nul) (use len in auto)
  show ?thesis unfolding getpass_def Let_def using e by (simp del: length_take add: t' nul)
qed


definition demo_tty :: "string \<Rightarrow> gp_sys" where
  "demo_tty keys = \<lparr>gp_tty = \<lparr>tty_attr = \<lparr>c_lflag = 0x0A, c_cc = []\<rparr>, tty_queue = ''x'', tty_keys = keys, tty_screen = ''$ '', tty_off = False\<rparr>,
     gp_mask = {}, gp_buf = replicate 9 (Some nul), gp_open = 3, gp_out = []\<rparr>"

definition demo_env :: "bool \<Rightarrow> gp_env" where
  "demo_env sc = \<lparr>ge_fopen = True, ge_getattr = True, ge_signed = sc\<rparr>"




section \<open>The other terminal programs\<close>

text \<open>Only the two characters change; a program that fails changes nothing.\<close>

lemma alt_spchr_effect:
  assumes "VEOF < length (c_cc (tty_attr t))"
  shows "alt_spchr e t = (if sp_isatty e \<and> 0 \<le> sp_vdisable e \<and> sp_getattr e \<and> sp_setattr e
    then Inr (tcsetattr ((tty_attr t)\<lparr>c_cc := (c_cc (tty_attr t))[VINTR := 0, VEOF := 2]\<rparr>) t) else Inl (Exits (-1)))"
  using assms by (auto simp: alt_spchr_def VINTR_def VEOF_def aset_def)

definition winsz_line :: "winsize \<Rightarrow> string" where
  "winsz_line = (\<lambda>(row, col). dec (uint row) @ '' row, '' @ dec (uint col) @ '' columns'' @ [newline])"

text \<open>Each change of the window is reported once, with the size at that time, in the order of the changes.\<close>

lemma sig_winch_all:
  "run_stmts (map (\<lambda>z. sig_winch (Some z)) zs) out = Inr (out @ concat (map (\<lambda>z. [''SIGWINCH received'' @ [newline], winsz_line z]) zs))"
  by (induction zs arbitrary: out) (auto simp: sig_winch_def pr_winsz_def winsz_line_def)

lemma winsz_main_lines:
  "winsz_main True True (Some z) (map Some zs) = Inr (winsz_line z # concat (map (\<lambda>z. [''SIGWINCH received'' @ [newline], winsz_line z]) zs))"
  using sig_winch_all [of zs "[winsz_line z]"] by (cases z) (simp add: winsz_main_def pr_winsz_def winsz_line_def comp_def)

end
