(* ===== verification/Signal_Waits.thy ===== *)
theory Signal_Waits
  imports Signals
begin

text \<open>
  Programs that wait for signals: \<open>sigsuspend\<close> between critical sections (\<open>signal/sig_suspend.c\<close>), \<open>sigwaitinfo\<close> (\<open>signal/sig_waitinfo.c\<close>),
  a jump out of a handler (\<open>signal/sigjump.c\<close>) and \<open>pause\<close> (\<open>signal/sig_user.c\<close>). The lemmas show that no handler runs inside
  a critical section, that signals are accepted in the documented order, and that a jump leaves no signal blocked.
\<close>

section \<open>sigsuspend\<close>

record susp =
  gotSigquit :: bool
  su_pending :: "nat list"
  su_out :: "string list"

definition susp_line :: "string \<Rightarrow> susp \<Rightarrow> susp" where
  "susp_line l s = s\<lparr>su_out := su_out s @ [l @ [newline]]\<rparr>"

definition susp_handler :: "(nat \<Rightarrow> string) \<Rightarrow> nat \<Rightarrow> susp \<Rightarrow> susp" where
  "susp_handler strsignal signo s =
     (let s1 = susp_line (''Caught signal '' @ dec (int signo) @ '' ('' @ strsignal signo @ '')'') s
      in if signo = SIGQUIT then s1\<lparr>gotSigquit := True\<rparr> else s1)"

text \<open>A blocked standard signal that is already pending is not queued again.\<close>

definition susp_arrive :: "nat \<Rightarrow> susp \<Rightarrow> susp" where
  "susp_arrive n s = (if n \<in> set (su_pending s) then s else s\<lparr>su_pending := su_pending s @ [n]\<rparr>)"

text \<open>
  \<open>sigsuspend\<close> with the mask \<open>orig\<close>. If signals that are not in it are pending, their handlers run, in the order \<open>ord\<close> gives; otherwise the first
  such signal that arrives ends the wait. \<open>None\<close>: none of \<open>later\<close> does. The call always returns -1 with \<open>EINTR\<close>, for which the program tests.
\<close>

fun susp_wait :: "(nat \<Rightarrow> string) \<Rightarrow> (nat \<Rightarrow> bool) \<Rightarrow> nat list \<Rightarrow> susp \<Rightarrow> susp option" where
  "susp_wait strsignal orig [] s = None"
| "susp_wait strsignal orig (n # ns) s =
     (if orig n then susp_wait strsignal orig ns (susp_arrive n s) else Some (susp_handler strsignal n s))"

definition sigsuspend :: "(nat \<Rightarrow> string) \<Rightarrow> (nat list \<Rightarrow> nat list) \<Rightarrow> (nat \<Rightarrow> bool) \<Rightarrow> nat list \<Rightarrow> susp \<Rightarrow> susp option" where
  "sigsuspend strsignal ord orig later s =
     (let ready = filter (\<lambda>n. \<not> orig n) (su_pending s)
      in if ready \<noteq> [] then Some (fold (susp_handler strsignal) (ord ready) (s\<lparr>su_pending := filter orig (su_pending s)\<rparr>))
         else susp_wait strsignal orig later s)"

text \<open>A round of the loop: the signals that arrive in the critical section, and those that arrive in \<open>sigsuspend\<close>.\<close>

type_synonym round = "nat list \<times> nat list"

definition susp_round :: "(nat \<Rightarrow> string) \<Rightarrow> (nat list \<Rightarrow> nat list) \<Rightarrow> (nat \<Rightarrow> bool) \<Rightarrow> nat \<Rightarrow> round \<Rightarrow> susp \<Rightarrow> susp option" where
  "susp_round strsignal ord orig loopNum r s =
     (let s1 = susp_line (''=== LOOP '' @ dec (int loopNum)) s;
          s2 = s1\<lparr>su_out := snd (print_sigmask strsignal (Some (\<lambda>n. n = SIGQUIT \<or> n = SIGINT)) (Some (''Starting critical section, signal mask is:'' @ [newline])) (su_out s1))\<rparr>;
          s3 = fold susp_arrive (fst r) s2;
          s4 = s3\<lparr>su_out := snd (print_pendingsigs strsignal (Some (\<lambda>n. n \<in> set (su_pending s3))) (Some (''Before sigsuspend() - pending signals:'' @ [newline])) (su_out s3))\<rparr>
      in sigsuspend strsignal ord orig (snd r) s4)"

text \<open>The loop, over the rounds there are; \<open>None\<close> when it goes on after them.\<close>

fun susp_loop :: "(nat \<Rightarrow> string) \<Rightarrow> (nat list \<Rightarrow> nat list) \<Rightarrow> (nat \<Rightarrow> bool) \<Rightarrow> nat \<Rightarrow> round list \<Rightarrow> susp \<Rightarrow> susp option" where
  "susp_loop strsignal ord orig loopNum [] s = (if gotSigquit s then Some s else None)"
| "susp_loop strsignal ord orig loopNum (r # rs) s =
     (if gotSigquit s then Some s
      else (case susp_round strsignal ord orig loopNum r s of None \<Rightarrow> None | Some s' \<Rightarrow> susp_loop strsignal ord orig (loopNum + 1) rs s'))"

text \<open>Whether \<open>sigprocmask\<close> and the two calls of \<open>sigaction\<close> work.\<close>

definition sig_suspend :: "(nat \<Rightarrow> string) \<Rightarrow> (nat list \<Rightarrow> nat list) \<Rightarrow> bool \<Rightarrow> bool \<Rightarrow> bool \<Rightarrow> (nat \<Rightarrow> bool) \<Rightarrow> round list \<Rightarrow> string list option c" where
  "sig_suspend strsignal ord procmask act1 act2 orig rs =
     (let out = snd (print_sigmask strsignal (Some orig) (Some (''Initial signal mask is:'' @ [newline])) [])
      in if \<not> procmask then Inl (Exits (-1)) else if \<not> act1 then Inl (Exits (-1)) else if \<not> act2 then Inl (Exits (-1))
         else Inr (map_option su_out (susp_loop strsignal ord orig 1 rs \<lparr>gotSigquit = False, su_pending = [], su_out = out\<rparr>)))"

section \<open>sigwaitinfo\<close>

text \<open>The pending signal accepted next: the lowest number, and of its instances the first.\<close>

definition accept :: "siginfo list \<Rightarrow> siginfo \<times> siginfo list" where
  "accept q = (let n = Min (set (map si_signo q)); si = hd (filter (\<lambda>x. si_signo x = n) q) in (si, remove1 si q))"

definition wait_lines :: "(nat \<Rightarrow> string) \<Rightarrow> siginfo \<Rightarrow> string list" where
  "wait_lines strsignal si =
     [''got signal '' @ dec (int (si_signo si)) @ '' ('' @ strsignal (si_signo si) @ '')'' @ [newline],
      tabs2 @ ''si_signo = '' @ dec (int (si_signo si)) @ '', si_code = '' @ dec (code_num (si_code si)) @ '' ('' @ code_name (si_code si) @ ''), si_value = '' @ dec (si_value si) @ '', '',
      ''si_pid = '' @ dec (si_pid si) @ '', si_uid = '' @ dec (si_uid si) @ [newline]]"

text \<open>
  The loop. All signals are blocked, so that those which arrive are queued; each element of the list has those that arrive before the next
  call of \<open>sigwaitinfo\<close>, or is \<open>None\<close> where that call fails. The result has the lines, and whether the program has ended.
\<close>

function wait_loop :: "(nat \<Rightarrow> string) \<Rightarrow> siginfo list option list \<Rightarrow> siginfo list \<Rightarrow> string list \<Rightarrow> (string list \<times> bool) c" where
  "wait_loop strsignal bs q out =
     (if bs \<noteq> [] \<and> hd bs = None then Inl (Exits (-1))
      else (let q1 = (case bs of Some b # _ \<Rightarrow> fold post b q | _ \<Rightarrow> q)
        in if q1 = [] then (if bs = [] then Inr (out, False) else wait_loop strsignal (tl bs) [] out)
           else (let (si, q2) = accept q1
             in if si_signo si = SIGINT \<or> si_signo si = SIGTERM then Inr (out @ [''terminating'' @ [newline]], True)
                else wait_loop strsignal (tl bs) q2 (out @ wait_lines strsignal si))))"
  by pat_completeness auto

lemma accept_in:
  assumes "q \<noteq> []"
  shows "fst (accept q) \<in> set q" "si_signo (fst (accept q)) = Min (set (map si_signo q))" "length (snd (accept q)) < length q"
proof -
  let ?n = "Min (set (map si_signo q))"
  have "?n \<in> set (map si_signo q)" using assms by (intro Min_in) auto
  then have "filter (\<lambda>x. si_signo x = ?n) q \<noteq> []" by (auto simp: filter_empty_conv)
  from hd_in_set [OF this] show "fst (accept q) \<in> set q" "si_signo (fst (accept q)) = Min (set (map si_signo q))"
    by (auto simp: accept_def Let_def)
  then show "length (snd (accept q)) < length q"
    using length_pos_if_in_set [of "fst (accept q)" q] by (simp add: accept_def Let_def length_remove1)
qed

lemma post_length: "length (fold post b q) \<le> length q + length b"
proof (induction b arbitrary: q)
  case (Cons si b)
  have "length (post si q) \<le> Suc (length q)" by (simp add: post_def)
  then show ?case using Cons.IH [of "post si q"] by simp
qed simp

definition wait_size :: "siginfo list option list \<Rightarrow> nat" where
  "wait_size bs = length bs + sum_list (map (\<lambda>b. case b of None \<Rightarrow> 0 | Some sis \<Rightarrow> length sis) bs)"

termination wait_loop
proof (relation "measure (\<lambda>(strsignal, bs, q, out). wait_size bs + length q)", goal_cases)
  case (2 strsignal bs q out q1)
  then show ?case by (cases bs) (auto simp: wait_size_def)
next
  case (3 strsignal bs q out q1 x si q2)
  have "length q1 \<le> length q + (case bs of Some b # _ \<Rightarrow> length b | _ \<Rightarrow> 0)"
    using 3(2) post_length by (auto split: list.splits option.splits)
  moreover have "length q2 < length q1" using accept_in(3) [OF 3(3)] 3(4,5) by (metis snd_conv)
  ultimately show ?case by (cases bs) (auto simp: wait_size_def split: option.splits)
qed simp

declare wait_loop.simps [simp del]

text \<open>\<open>main\<close>: whether \<open>sigprocmask\<close> works, what is sent before the loop, with the delay if there is an argument, and later.\<close>

definition sig_waitinfo :: "(nat \<Rightarrow> string) \<Rightarrow> int \<Rightarrow> bool \<Rightarrow> siginfo list \<Rightarrow> siginfo list option list \<Rightarrow> string list \<Rightarrow> (string list \<times> bool) c" where
  "sig_waitinfo strsignal pid procmask sent bs argv =
     bindE (aget argv 0) (\<lambda>prog.
       if \<not> procmask then Inl (Exits (-1))
       else (let out = [prog @ '': PID is '' @ dec pid @ [newline], prog @ '': all signal blocked'' @ [newline]]
               @ (if length argv > 1 then [prog @ '': about to delay '' @ argv ! 1 @ '' seconds'' @ [newline], prog @ '': finished delay'' @ [newline]] else [])
             in wait_loop strsignal bs (post_all sent) out))"

section \<open>A jump out of a handler\<close>

text \<open>\<open>sj_env\<close> is the mask \<open>sigsetjmp\<close> has saved.\<close>

record sigjump =
  sj_mask :: "nat \<Rightarrow> bool"
  sj_env :: "(nat \<Rightarrow> bool) option"
  canJump :: bool
  sj_out :: "string list"

definition sj_print_mask :: "(nat \<Rightarrow> string) \<Rightarrow> string option \<Rightarrow> sigjump \<Rightarrow> sigjump" where
  "sj_print_mask strsignal msg s = s\<lparr>sj_out := snd (print_sigmask strsignal (Some (sj_mask s)) msg (sj_out s))\<rparr>"

text \<open>
  The delivery of a \<open>SIGINT\<close> that is not blocked. The handler runs with \<open>SIGINT\<close> blocked. If it returns, the mask from before is restored; if it jumps, the mask
  is the saved one, and \<open>main\<close> goes on behind \<open>sigsetjmp\<close>.
\<close>

definition sj_handler :: "(nat \<Rightarrow> string) \<Rightarrow> nat \<Rightarrow> sigjump stmt" where
  "sj_handler strsignal signo s =
     (let s1 = s\<lparr>sj_mask := (sj_mask s)(signo := True)\<rparr>;
          s2 = s1\<lparr>sj_out := sj_out s1 @ [''Received signal: '' @ dec (int signo) @ '' ('' @ strsignal signo @ ''), signal mask is:'' @ [newline]]\<rparr>;
          s3 = sj_print_mask strsignal None s2
      in if \<not> canJump s3 then Inr (s3\<lparr>sj_out := sj_out s3 @ [[CHR 0x27] @ ''env'' @ [CHR 0x27] @ '' buffer not set yet, doing a simple return'' @ [newline]], sj_mask := sj_mask s\<rparr>)
         else (case sj_env s3 of None \<Rightarrow> Inl Uninitialised
               | Some m \<Rightarrow> Inr (sj_print_mask strsignal (Some (''After jump from handler, signal mask is:'' @ [newline])) (s3\<lparr>sj_mask := m\<rparr>))))"

definition sj_deliver :: "(nat \<Rightarrow> string) \<Rightarrow> sigjump stmt" where
  "sj_deliver strsignal s = (if sj_mask s SIGINT then Inr s else sj_handler strsignal SIGINT s)"

text \<open>
  \<open>main\<close>: \<open>a\<close> signals arrive between \<open>sigaction\<close> and \<open>sigsetjmp\<close>, \<open>b\<close> before \<open>canJump\<close> is set, and \<open>n\<close> in the loop.
\<close>

definition sigjump_main :: "(nat \<Rightarrow> string) \<Rightarrow> bool \<Rightarrow> (nat \<Rightarrow> bool) \<Rightarrow> nat \<Rightarrow> nat \<Rightarrow> nat \<Rightarrow> sigjump c" where
  "sigjump_main strsignal act m0 a b n =
     (let s0 = sj_print_mask strsignal None \<lparr>sj_mask = m0, sj_env = None, canJump = False, sj_out = []\<rparr>
      in if \<not> act then Inl (Exits (-1))
         else run_stmts (replicate a (sj_deliver strsignal) @ [\<lambda>s. Inr (s\<lparr>sj_env := Some (sj_mask s)\<rparr>)] @ replicate b (sj_deliver strsignal)
                @ [\<lambda>s. Inr (s\<lparr>canJump := True\<rparr>)] @ replicate n (sj_deliver strsignal)) s0)"

section \<open>Two user signals\<close>

definition SIGUSR1 :: nat where "SIGUSR1 = 10"
definition SIGUSR2 :: nat where "SIGUSR2 = 12"

definition sig_user :: "nat \<Rightarrow> string" where
  "sig_user signo = (if signo = SIGUSR1 then ''received SIGUSR1'' else if signo = SIGUSR2 then ''received SIGUSR2''
     else ''received signal '' @ dec (int signo)) @ [newline]"

text \<open>What is printed after the signals \<open>ns\<close>, each of them one of the two, have arrived one after the other.\<close>

definition sig_user_main :: "bool \<Rightarrow> bool \<Rightarrow> nat list \<Rightarrow> string list c" where
  "sig_user_main h1 h2 ns = (if \<not> h1 then Inl (Exits (-1)) else if \<not> h2 then Inl (Exits (-1)) else Inr (map sig_user ns))"

section \<open>Lemmas on sigjump\<close>

definition sj_lines :: "(nat \<Rightarrow> string) \<Rightarrow> (nat \<Rightarrow> bool) \<Rightarrow> bool \<Rightarrow> string list" where
  "sj_lines strsignal m jump =
     [''Received signal: '' @ dec (int SIGINT) @ '' ('' @ strsignal SIGINT @ ''), signal mask is:'' @ [newline]]
     @ sigset_lines strsignal tabs2 (m(SIGINT := True))
     @ (if jump then (''After jump from handler, signal mask is:'' @ [newline]) # sigset_lines strsignal tabs2 m
        else [[CHR 0x27] @ ''env'' @ [CHR 0x27] @ '' buffer not set yet, doing a simple return'' @ [newline]])"

lemma sj_deliver_keeps:
  assumes "\<not> sj_mask s SIGINT" and "canJump s \<Longrightarrow> sj_env s = Some (sj_mask s)"
  shows "sj_deliver strsignal s = Inr (s\<lparr>sj_out := sj_out s @ sj_lines strsignal (sj_mask s) (canJump s)\<rparr>)"
  using assms by (cases "canJump s")
    (simp_all add: sj_deliver_def sj_handler_def sj_print_mask_def print_sigmask_def print_sigset_lines sj_lines_def Let_def)

lemma sj_deliver_many:
  assumes "\<not> sj_mask s SIGINT" and "canJump s \<Longrightarrow> sj_env s = Some (sj_mask s)"
  shows "run_stmts (replicate k (sj_deliver strsignal)) s = Inr (s\<lparr>sj_out := sj_out s @ concat (replicate k (sj_lines strsignal (sj_mask s) (canJump s)))\<rparr>)"
  using assms
proof (induction k arbitrary: s)
  case (Suc k)
  let ?s = "s\<lparr>sj_out := sj_out s @ sj_lines strsignal (sj_mask s) (canJump s)\<rparr>"
  have "run_stmts (replicate k (sj_deliver strsignal)) ?s = Inr (?s\<lparr>sj_out := sj_out ?s @ concat (replicate k (sj_lines strsignal (sj_mask ?s) (canJump ?s)))\<rparr>)"
    by (rule Suc.IH) (use Suc.prems in auto)
  then show ?case using sj_deliver_keeps [OF Suc.prems] by simp
qed simp



section \<open>Lemmas on sigwaitinfo\<close>

lemma accept_sorted:
  assumes "q \<noteq> []"
  shows "sort_key si_signo q = fst (accept q) # sort_key si_signo (snd (accept q))"
proof (rule properties_for_sort_key)
  let ?m = "fst (accept q)" and ?n = "Min (set (map si_signo q))"
  have q2: "snd (accept q) = remove1 ?m q" by (simp add: accept_def Let_def)
  note m = accept_in(1,2) [OF assms]
  show "mset (?m # sort_key si_signo (snd (accept q))) = mset q" using m(1) by (simp add: q2)
  have "?n \<le> si_signo x" if "x \<in> set q" for x using that by simp
  then have "?n \<le> si_signo x" if "x \<in> set (remove1 ?m q)" for x using that set_remove1_subset [of ?m q] by blast
  then show "sorted (map si_signo (?m # sort_key si_signo (snd (accept q))))" using m(2) by (simp add: q2)
  have ne: "filter (\<lambda>x. si_signo x = ?n) q \<noteq> []" using m by (auto simp: filter_empty_conv)
  have hd: "filter (\<lambda>x. si_signo x = ?n) q = ?m # tl (filter (\<lambda>x. si_signo x = ?n) q)" using ne by (simp add: accept_def Let_def)
  show "filter (\<lambda>x. si_signo k = si_signo x) (?m # sort_key si_signo (snd (accept q))) = filter (\<lambda>x. si_signo k = si_signo x) q" for k
  proof (cases "si_signo k = ?n")
    case True
    have "filter (\<lambda>x. si_signo x = ?n) (remove1 ?m q) = tl (filter (\<lambda>x. si_signo x = ?n) q)"
      using hd by (metis filter_remove1 remove1.simps(2))
    then show ?thesis using True hd m(2) sort_key_stable [of si_signo ?n "remove1 ?m q"] by (simp add: q2 eq_commute)
  next
    case False
    have "filter (\<lambda>x. si_signo x = si_signo k) (remove1 ?m q) = filter (\<lambda>x. si_signo x = si_signo k) q"
      using False m(2) by (metis (mono_tags, lifting) filter_remove1 remove1_filter_not)
    then show ?thesis using False m(2) sort_key_stable [of si_signo "si_signo k" "remove1 ?m q"] by (simp add: q2 eq_commute)
  qed
qed

text \<open>Once nothing more arrives, the queue is reported in order, up to the first signal that ends the program.\<close>

lemma wait_loop_queue:
  "wait_loop strsignal [] q out =
     (let qs = sort_key si_signo q; ls = out @ concat (map (wait_lines strsignal) (takeWhile (\<lambda>si. \<not> ends_loop si) qs))
      in if \<exists>si\<in>set q. ends_loop si then Inr (ls @ [''terminating'' @ [newline]], True) else Inr (ls, False))"
proof (induction "length q" arbitrary: q out rule: less_induct)
  case less
  show ?case
  proof (cases "q = []")
    case False
    obtain si q2 where a: "accept q = (si, q2)" by (cases "accept q")
    have s: "sort_key si_signo q = si # sort_key si_signo q2" using accept_sorted [OF False] a by simp
    have set: "set q = insert si (set q2)" using s by (metis list.simps(15) set_sort)
    have "length q2 < length q" using accept_in(3) [OF False] a by simp
    from less [OF this] show ?thesis using False a s set by (subst wait_loop.simps) (auto simp: Let_def ends_loop_def)
  qed (simp add: wait_loop.simps [of _ "[]"])
qed

definition wait_header :: "int \<Rightarrow> string \<Rightarrow> string \<Rightarrow> string list" where
  "wait_header pid prog secs = [prog @ '': PID is '' @ dec pid @ [newline], prog @ '': all signal blocked'' @ [newline],
     prog @ '': about to delay '' @ secs @ '' seconds'' @ [newline], prog @ '': finished delay'' @ [newline]]"


section \<open>Lemmas on sigsuspend\<close>

text \<open>What a round prints before the handlers run.\<close>

definition round_head :: "(nat \<Rightarrow> string) \<Rightarrow> nat \<Rightarrow> nat set \<Rightarrow> string list" where
  "round_head strsignal k S =
     [''=== LOOP '' @ dec (int k) @ [newline], ''Starting critical section, signal mask is:'' @ [newline]]
     @ sigset_lines strsignal tabs2 (\<lambda>n. n = SIGQUIT \<or> n = SIGINT)
     @ [''Before sigsuspend() - pending signals:'' @ [newline]] @ sigset_lines strsignal tabs2 (\<lambda>n. n \<in> S)"

definition caught_line :: "(nat \<Rightarrow> string) \<Rightarrow> nat \<Rightarrow> string" where
  "caught_line strsignal n = ''Caught signal '' @ dec (int n) @ '' ('' @ strsignal n @ '')'' @ [newline]"

text \<open>The signals whose handlers run in a round that starts with nothing pending.\<close>

definition round_caught :: "(nat list \<Rightarrow> nat list) \<Rightarrow> round \<Rightarrow> nat list" where
  "round_caught ord r = (if fst r \<noteq> [] then ord (rev (remdups (rev (fst r)))) else take 1 (snd r))"

lemma susp_handlers:
  "fold (susp_handler strsignal) ns s =
     s\<lparr>su_out := su_out s @ map (caught_line strsignal) ns, gotSigquit := gotSigquit s \<or> SIGQUIT \<in> set ns\<rparr>"
  by (induction ns arbitrary: s) (auto simp: susp_handler_def susp_line_def caught_line_def Let_def)

lemma susp_arrivals:
  "fold susp_arrive ns s = s\<lparr>su_pending := su_pending s @ filter (\<lambda>n. n \<notin> set (su_pending s)) (rev (remdups (rev ns)))\<rparr>"
proof (induction ns rule: rev_induct)
  case (snoc n ns)
  then show ?case by (auto simp: susp_arrive_def)
qed simp

definition round_ok :: "round \<Rightarrow> bool" where
  "round_ok r \<longleftrightarrow> set (fst r) \<union> set (snd r) \<subseteq> {SIGINT, SIGQUIT} \<and> (fst r \<noteq> [] \<or> snd r \<noteq> [])"

definition round_lines :: "(nat \<Rightarrow> string) \<Rightarrow> (nat list \<Rightarrow> nat list) \<Rightarrow> nat \<Rightarrow> round \<Rightarrow> string list" where
  "round_lines strsignal ord k r = round_head strsignal k (set (fst r)) @ map (caught_line strsignal) (round_caught ord r)"

definition quits :: "(nat list \<Rightarrow> nat list) \<Rightarrow> round \<Rightarrow> bool" where
  "quits ord r \<longleftrightarrow> SIGQUIT \<in> set (round_caught ord r)"

lemma susp_round_result:
  assumes orig: "\<not> orig SIGINT" "\<not> orig SIGQUIT" and r: "round_ok r" and s: "su_pending s = []"
  shows "susp_round strsignal ord orig k r s =
    Some (s\<lparr>su_out := su_out s @ round_lines strsignal ord k r, gotSigquit := gotSigquit s \<or> quits ord r\<rparr>)"
proof -
  let ?p = "rev (remdups (rev (fst r)))"
  have p: "filter (\<lambda>n. \<not> orig n) ?p = ?p" "filter orig ?p = []"
    using r orig unfolding filter_id_conv filter_empty_conv round_ok_def by auto
  have arr: "fold susp_arrive (fst r) x = x\<lparr>su_pending := ?p\<rparr>" if "su_pending x = []" for x using that susp_arrivals [of "fst r" x] by simp
  have wait: "susp_wait strsignal orig (snd r) x = Some (fold (susp_handler strsignal) (take 1 (snd r)) x)" if "fst r = []" for x
    using r orig that by (cases "snd r") (auto simp: round_ok_def)
  show ?thesis
  proof (cases "fst r = []")
    case True
    then show ?thesis using s arr wait by (simp add: susp_round_def sigsuspend_def susp_line_def print_sigmask_def print_pendingsigs_def print_sigset_lines
        susp_handlers round_lines_def round_head_def round_caught_def quits_def Let_def)
  next
    case False
    then have "?p \<noteq> []" by simp
    then show ?thesis using False s arr p by (simp add: susp_round_def sigsuspend_def susp_line_def print_sigmask_def print_pendingsigs_def print_sigset_lines
        susp_handlers round_lines_def round_head_def round_caught_def quits_def Let_def)
  qed
qed

fun rounds_run :: "(nat list \<Rightarrow> nat list) \<Rightarrow> round list \<Rightarrow> round list" where
  "rounds_run ord [] = []"
| "rounds_run ord (r # rs) = r # (if quits ord r then [] else rounds_run ord rs)"

lemma susp_loop_result:
  assumes "\<not> orig SIGINT" "\<not> orig SIGQUIT" and "list_all round_ok rs" and "su_pending s = []" and "\<not> gotSigquit s"
  shows "map_option su_out (susp_loop strsignal ord orig k rs s) =
    (if list_ex (quits ord) rs then Some (su_out s @ concat (map (\<lambda>(j, r). round_lines strsignal ord j r) (enumerate k (rounds_run ord rs)))) else None)"
  using assms(3-5)
proof (induction rs arbitrary: k s)
  case (Cons r rs)
  let ?s = "s\<lparr>su_out := su_out s @ round_lines strsignal ord k r, gotSigquit := gotSigquit s \<or> quits ord r\<rparr>"
  have r: "susp_round strsignal ord orig k r s = Some ?s" using susp_round_result [OF assms(1,2)] Cons.prems by simp
  show ?case
  proof (cases "quits ord r")
    case True
    then have "susp_loop strsignal ord orig (Suc k) rs ?s = Some ?s" by (cases rs) simp_all
    then show ?thesis using r True Cons.prems by simp
  next
    case False
    then show ?thesis using r Cons.IH [of ?s "Suc k"] Cons.prems by simp
  qed
qed simp



section \<open>Lemmas on sig_user\<close>

lemma sig_user_lines:
  assumes "set ns \<subseteq> {SIGUSR1, SIGUSR2}"
  shows "sig_user_main True True ns = Inr (map (\<lambda>n. (if n = SIGUSR1 then ''received SIGUSR1'' else ''received SIGUSR2'') @ [newline]) ns)"
  using assms by (auto simp: sig_user_main_def sig_user_def)

text \<open>
  Sender and receiver together: the real-time signals \<open>rt_signal.c\<close> queues for the sleeping \<open>sig_waitinfo.c\<close> are all reported, with their values and in the
  order they were sent.
\<close>

lemma rt_signal_accepted:
  assumes "0 < sd_target p" and "32 \<le> n" and "n < NSIG" and "in_int v" and "in_int (v + int k)"
  shows "\<exists>sent. rt_signal p [prog, dec (sd_target p), dec (int n), dec v, dec (int k)] = Inr (0, sent)
    \<and> sig_waitinfo strsignal pid True sent [] [w, secs] =
      Inr (wait_header pid w secs @ concat (map (\<lambda>j. wait_lines strsignal (info_of p n SI_QUEUE (v + int j))) [0..<k]), False)"
proof -
  let ?sent = "map (\<lambda>j. info_of p n SI_QUEUE (v + int j)) [0..<k]"
  have "rt_signal p [prog, dec (sd_target p), dec (int n), dec v, dec (int k)] = Inr (0, ?sent)"
    using rt_signal_sends [of p n v k prog] assms by simp
  moreover have q: "post_all ?sent = ?sent" using post_all_rt [of ?sent "[]"] assms(2) by (simp add: post_all_def)
  have e: "\<not> ends_loop si" if "si \<in> set ?sent" for si using that assms(2) by (auto simp: ends_loop_def SIGINT_def SIGTERM_def)
  have "sort_key si_signo ?sent = ?sent" by (rule sort_key_same [of _ _ n]) simp
  moreover have "takeWhile (\<lambda>si. \<not> ends_loop si) ?sent = ?sent" using e by (simp add: takeWhile_eq_all_conv)
  moreover have "\<not> (\<exists>si\<in>set ?sent. ends_loop si)" using e by blast
  ultimately have "wait_loop strsignal [] (post_all ?sent) (wait_header pid w secs) =
      Inr (wait_header pid w secs @ concat (map (wait_lines strsignal) ?sent), False)"
    unfolding q wait_loop_queue by (simp only: Let_def if_False)
  then have "sig_waitinfo strsignal pid True ?sent [] [w, secs] = Inr (wait_header pid w secs @ concat (map (wait_lines strsignal) ?sent), False)"
    by (simp add: sig_waitinfo_def wait_header_def)
  with \<open>rt_signal p _ = _\<close> show ?thesis by (auto simp: comp_def)
qed

end
