(* ===== verification/Process_Images.thy ===== *)
theory Process_Images
  imports C_Text
begin

text \<open>
  What a process takes along and what it leaves: its environment (\<open>proc_demos/modify_env.c\<close>, \<open>print_env.c\<close>), its arguments over \<open>exec\<close>
  (\<open>exec_demo.c\<close>, \<open>interpreter_demo.c\<close>, \<open>testinterp\<close>, \<open>echoall.c\<close>), its buffers and variables over \<open>fork\<close> and \<open>vfork\<close> (\<open>fork_buf.c\<close>, \<open>vfork_demo.c\<close>),
  its exit handlers and jumps (\<open>atexit_demo.c\<close>, \<open>longjmp.c\<close>), its children (\<open>no_zombie.c\<close>) and its identities (\<open>orphan_grp.c\<close>, \<open>system_secure.c\<close>).
\<close>

section \<open>The environment\<close>

text \<open>The strings \<open>environ\<close> points to, in order.\<close>

type_synonym environ = "string list"

definition env_name :: "string \<Rightarrow> string" where
  "env_name e = takeWhile (\<lambda>x. x \<noteq> CHR ''='') e"

definition env_value :: "string \<Rightarrow> string" where
  "env_value e = tl (dropWhile (\<lambda>x. x \<noteq> CHR ''='') e)"

definition unsetenv :: "string \<Rightarrow> environ \<Rightarrow> environ" where
  "unsetenv n env = filter (\<lambda>e. env_name e \<noteq> n) env"

text \<open>A string for a name that is set takes its place; any other is added at the end.\<close>

fun add_to_environ :: "string \<Rightarrow> environ \<Rightarrow> environ" where
  "add_to_environ s [] = [s]"
| "add_to_environ s (e # es) = (if env_name e = env_name s then s # es else e # add_to_environ s es)"

text \<open>\<open>putenv\<close> of a string without \<open>=\<close> removes the variable of that name.\<close>

definition putenv :: "string \<Rightarrow> environ \<Rightarrow> environ" where
  "putenv s env = (if CHR ''='' \<in> set s then add_to_environ s env else unsetenv s env)"

definition setenv :: "string \<Rightarrow> string \<Rightarrow> bool \<Rightarrow> environ \<Rightarrow> environ" where
  "setenv n v overwrite env =
     (if n \<in> env_name ` set env \<and> \<not> overwrite then env else add_to_environ (n @ ''='' @ v) env)"

text \<open>The loop over the arguments; each call of \<open>putenv\<close> comes with whether it finds memory.\<close>

fun putenv_args :: "(string \<times> bool) list \<Rightarrow> environ stmt" where
  "putenv_args [] env = Inr env"
| "putenv_args ((a, ok) # as) env = (if \<not> ok then Inl (Exits (-1)) else putenv_args as (putenv a env))"

definition print_env :: "environ \<Rightarrow> string" where
  "print_env env = concat (map (\<lambda>e. e @ [newline]) env)"

definition modify_env :: "(string \<times> bool) list \<Rightarrow> bool \<Rightarrow> string c" where
  "modify_env args set_ok =
     bindE (putenv_args args []) (\<lambda>env.
       if \<not> set_ok then Inl (Exits (-1))
       else Inr (print_env (unsetenv ''BYE'' (setenv ''GREET'' ''Hello world'' False env))))"

section \<open>Arguments\<close>

definition echoall :: "string list \<Rightarrow> string" where
  "echoall argv = concat (map (\<lambda>(i, a). ''argv['' @ dec (int i) @ ''] : '' @ a @ [newline]) (enumerate 0 argv))"

text \<open>
  A process that forks and waits. \<open>fk\<close>: whether \<open>fork\<close> works; \<open>prog\<close>: what the program that \<open>exec\<close> starts prints, or \<open>None\<close> when \<open>exec\<close> fails, after
  which the child only reports the error; \<open>wt\<close>: whether \<open>waitpid\<close> works.
\<close>

definition exec_round :: "bool \<Rightarrow> string option \<Rightarrow> bool \<Rightarrow> string stmt" where
  "exec_round fk prog wt out =
     (if \<not> fk then Inl (Exits (-1))
      else (let out' = out @ (case prog of None \<Rightarrow> [] | Some xs \<Rightarrow> xs) in if \<not> wt then Inl (Exits (-1)) else Inr out'))"

definition echoall_path :: string where
  "echoall_path = ''/home/zach41/Desktop/UNIX-Demos/proc_demos/echoall''"

text \<open>\<open>r1\<close> and \<open>r2\<close> have the results of \<open>fork\<close> and \<open>waitpid\<close>; \<open>file\<close> says which files can be executed; \<open>path\<close> is where \<open>execlp\<close> looks for a program, if it is found.\<close>

definition exec_demo :: "bool \<times> bool \<Rightarrow> bool \<times> bool \<Rightarrow> (string \<Rightarrow> bool) \<Rightarrow> string option \<Rightarrow> string c" where
  "exec_demo r1 r2 file path =
     bindE (exec_round (fst r1) (if file echoall_path then Some (echoall [''echoall'', ''myarg1'', ''MY ARG2'']) else None) (snd r1) [])
       (exec_round (fst r2) (case path of None \<Rightarrow> None | Some p \<Rightarrow> if file p then Some (echoall [''echoall'', ''only 1 arg'']) else None) (snd r2))"

text \<open>The first line of an interpreter file: the interpreter and its optional argument.\<close>

definition shebang :: "string \<Rightarrow> (string \<times> string list) option" where
  "shebang l = (case l of CHR ''#'' # CHR ''!'' # r \<Rightarrow>
       (let r1 = dropWhile (\<lambda>x. x = CHR '' '') r; interp = takeWhile (\<lambda>x. x \<noteq> CHR '' '') r1; arg = dropWhile (\<lambda>x. x = CHR '' '') (dropWhile (\<lambda>x. x \<noteq> CHR '' '') r1)
        in Some (interp, if arg = [] then [] else [arg]))
     | _ \<Rightarrow> None)"

definition testinterp :: string where
  "testinterp = ''#! '' @ echoall_path @ '' foo''"

text \<open>The arguments the interpreter gets when \<open>pathname\<close>, with the first line \<open>l\<close>, is executed with \<open>argv\<close>.\<close>

definition interp_argv :: "string \<Rightarrow> string \<Rightarrow> string list \<Rightarrow> (string \<times> string list) option" where
  "interp_argv l pathname argv = map_option (\<lambda>(interp, arg). (interp, [interp] @ arg @ [pathname] @ tl argv)) (shebang l)"

definition interpreter_demo :: "bool \<Rightarrow> bool \<Rightarrow> (string \<Rightarrow> bool) \<Rightarrow> string c" where
  "interpreter_demo fk wt file = exec_round fk
     (case interp_argv testinterp ''./testinterp'' [''testinterp'', ''myarg1'', ''MY ARG2''] of None \<Rightarrow> None
      | Some (interp, argv) \<Rightarrow> if file interp then Some (echoall argv) else None) wt []"

section \<open>Buffers over fork\<close>

text \<open>A process with its buffer of \<open>stdout\<close> and its two variables.\<close>

record fb_proc =
  fb_buf :: string
  globalvar :: int
  var :: int

text \<open>
  \<open>printf\<close>: the buffer is written up to the last newline if \<open>stdout\<close> is a terminal, and kept otherwise; the short lines here do not fill it. The second component is
  what was written to the file.
\<close>

definition stdio_printf :: "bool \<Rightarrow> string \<Rightarrow> fb_proc \<times> string \<Rightarrow> fb_proc \<times> string" where
  "stdio_printf tty l = (\<lambda>(p, out). let b = fb_buf p @ l in
     if tty then (p\<lparr>fb_buf := rev (takeWhile (\<lambda>x. x \<noteq> newline) (rev b))\<rparr>, out @ rev (dropWhile (\<lambda>x. x \<noteq> newline) (rev b)))
     else (p\<lparr>fb_buf := b\<rparr>, out))"

definition stdio_exit :: "fb_proc \<times> string \<Rightarrow> string" where
  "stdio_exit = (\<lambda>(p, out). out @ fb_buf p)"

definition fork_line :: "int \<Rightarrow> fb_proc \<Rightarrow> string" where
  "fork_line pid p = ''pid = '' @ dec pid @ '', globalvar = '' @ dec (globalvar p) @ '', var = '' @ dec (var p) @ [newline]"

text \<open>
  \<open>main\<close>: the status and what the file has at the end. \<open>child\<close> is what \<open>fork\<close> returns to the parent, and \<open>first\<close> whether the child writes first; the \<open>sleep\<close> makes
  that likely. The parent's \<open>perror\<close> goes elsewhere.
\<close>

definition fork_buf :: "bool \<Rightarrow> bool \<Rightarrow> int \<Rightarrow> bool \<Rightarrow> int \<times> string" where
  "fork_buf tty wr child first =
     (let out0 = ''a write to stdout'' @ [newline]; p0 = \<lparr>fb_buf = [], globalvar = 6, var = 88\<rparr>
      in if \<not> wr then (-1, [])
         else (let (p1, out1) = stdio_printf tty (''before fork'' @ [newline]) (p0, out0)
           in if child < 0 then (-1, stdio_exit (p1, out1))
              else (let c = p1\<lparr>globalvar := globalvar p1 + 1, var := var p1 + 1\<rparr>;
                        cout = stdio_exit (stdio_printf tty (fork_line 0 c) (c, []));
                        pout = stdio_exit (stdio_printf tty (fork_line child p1) (p1, []))
                    in (0, out1 @ (if first then cout @ pout else pout @ cout)))))"

text \<open>After \<open>vfork\<close> the child runs in the memory of the parent, which waits until the child calls \<open>_exit\<close>; that writes no buffer.\<close>

definition vfork_line :: "int \<Rightarrow> fb_proc \<Rightarrow> string" where
  "vfork_line pid p = ''pid = '' @ dec pid @ '', glob = '' @ dec (globalvar p) @ '', var = '' @ dec (var p) @ [newline]"

definition vfork_demo :: "bool \<Rightarrow> int \<Rightarrow> int \<times> string" where
  "vfork_demo tty child =
     (let p0 = \<lparr>fb_buf = [], globalvar = 6, var = 88\<rparr>; (p1, out1) = stdio_printf tty (''before vfork'' @ [newline]) (p0, [])
      in if child < 0 then (-1, stdio_exit (p1, out1))
         else (let p2 = p1\<lparr>globalvar := globalvar p1 + 1, var := var p1 + 1\<rparr>
               in (0, stdio_exit (stdio_printf tty (vfork_line child p2) (p2, out1)))))"

section \<open>Exit handlers and jumps\<close>

text \<open>\<open>exit\<close> runs the handlers in the reverse order of their registration.\<close>

definition run_atexit :: "string list \<Rightarrow> string list \<Rightarrow> string list" where
  "run_atexit handlers out = out @ rev handlers"

definition clear_onexit1 :: string where "clear_onexit1 = ''On exit1'' @ [newline]"
definition clear_onexit2 :: string where "clear_onexit2 = ''On exit2'' @ [newline]"

text \<open>The three calls of \<open>atexit\<close>; a failed one ends \<open>main\<close>, which runs the handlers registered before it.\<close>

fun atexit_all :: "(string \<times> bool) list \<Rightarrow> string list \<Rightarrow> int \<times> string list" where
  "atexit_all [] hs = (0, hs)"
| "atexit_all ((h, ok) # rs) hs = (if \<not> ok then (-1, hs) else atexit_all rs (hs @ [h]))"

definition atexit_demo :: "bool \<Rightarrow> bool \<Rightarrow> bool \<Rightarrow> int \<times> string list" where
  "atexit_demo ok1 ok2 ok3 =
     (let (r, hs) = atexit_all [(clear_onexit1, ok1), (clear_onexit1, ok2), (clear_onexit2, ok3)] []
      in (r, run_atexit hs [''At Exit Demo!'' @ [newline]]))"

text \<open>A function that may jump instead of returning; \<open>Inl\<close> has the value \<open>setjmp\<close> then returns.\<close>

definition jmp_f2 :: "int + unit" where
  "jmp_f2 = Inl 2"

definition jmp_f1 :: "int \<Rightarrow> int + unit" where
  "jmp_f1 argc = (if argc = 1 then Inl 1 else jmp_f2)"

fun jmp_switch :: "nat \<Rightarrow> int \<Rightarrow> int \<Rightarrow> string list \<Rightarrow> string list option" where
  "jmp_switch 0 argc v out = None"
| "jmp_switch (Suc fuel) argc v out =
     (if v = 0 then (let out' = out @ [''Calling f1() after initial setjmp()'' @ [newline]]
        in case jmp_f1 argc of Inl w \<Rightarrow> jmp_switch fuel argc w out' | Inr _ \<Rightarrow> Some out')
      else if v = 1 then Some (out @ [''We jumped back from f1()'' @ [newline]])
      else if v = 2 then Some (out @ [''We jumped back from f2()'' @ [newline]])
      else Some out)"

section \<open>A child that nobody waits for\<close>

text \<open>
  The three processes of \<open>no_zombie.c\<close>: the first child, which forks again and exits, and the second one, which prints the number of its parent. \<open>NzZombie\<close>: has ended and was
  not waited for; \<open>NzGone\<close>: was waited for. \<open>nz_ppid\<close> is what the second child printed.
\<close>

datatype nz_life = NzNone | NzRun | NzPrinted | NzZombie | NzGone

record nz_sys =
  nz_child :: nz_life
  nz_forked :: bool
  nz_second :: nz_life
  nz_ppid :: "int option"
  nz_done :: bool

text \<open>
  \<open>fk\<close>: whether the second \<open>fork\<close> works; \<open>pid\<close>: the number of the first child. An orphan gets the parent 1, which waits for it.
\<close>

inductive nz_step :: "bool \<Rightarrow> int \<Rightarrow> nz_sys \<Rightarrow> nz_sys \<Rightarrow> bool" for fk pid where
  nz_fork: "nz_child s = NzRun \<Longrightarrow> \<not> nz_forked s \<Longrightarrow> fk \<Longrightarrow> nz_step fk pid s (s\<lparr>nz_forked := True, nz_second := NzRun\<rparr>)"
| nz_fork_fails: "nz_child s = NzRun \<Longrightarrow> \<not> nz_forked s \<Longrightarrow> \<not> fk \<Longrightarrow> nz_step fk pid s (s\<lparr>nz_child := NzZombie\<rparr>)"
| nz_exit: "nz_child s = NzRun \<Longrightarrow> nz_forked s \<Longrightarrow> nz_step fk pid s (s\<lparr>nz_child := NzZombie\<rparr>)"
| nz_waitpid: "nz_child s = NzZombie \<Longrightarrow> \<not> nz_done s \<Longrightarrow> nz_step fk pid s (s\<lparr>nz_child := NzGone, nz_done := True\<rparr>)"
| nz_print: "nz_second s = NzRun \<Longrightarrow> nz_step fk pid s (s\<lparr>nz_second := NzPrinted, nz_ppid := Some (if nz_child s = NzRun then pid else 1)\<rparr>)"
| nz_second_exit: "nz_second s = NzPrinted \<Longrightarrow> nz_step fk pid s (s\<lparr>nz_second := NzZombie\<rparr>)"
| nz_init_waits: "nz_second s = NzZombie \<Longrightarrow> nz_child s \<noteq> NzRun \<Longrightarrow> nz_step fk pid s (s\<lparr>nz_second := NzGone\<rparr>)"

definition nz_start :: nz_sys where
  "nz_start = \<lparr>nz_child = NzRun, nz_forked = False, nz_second = NzNone, nz_ppid = None, nz_done = False\<rparr>"

section \<open>Identities\<close>

text \<open>What the calls return to a process: its number, that of its parent, its group, and the foreground group of its terminal.\<close>

record proc_ids =
  id_pid :: int
  id_ppid :: int
  id_pgrp :: int
  id_tpgrp :: int

definition pr_ids :: "string \<Rightarrow> proc_ids \<Rightarrow> string" where
  "pr_ids name i = name @ '': pid = '' @ dec (id_pid i) @ '', ppid = '' @ dec (id_ppid i) @ '', pgrp = '' @ dec (id_pgrp i) @ '', tpgrp = '' @ dec (id_tpgrp i) @ [newline]"

definition sig_hup :: "proc_ids \<Rightarrow> string" where
  "sig_hup i = ''SIGHUP received, pid='' @ dec (id_pid i) @ [newline]"

text \<open>
  \<open>orphan_grp.c\<close>: the child stops itself; when the parent ends, the kernel sends its orphaned group \<open>SIGHUP\<close> and continues it. \<open>rd\<close> is the error number of the read from
  the terminal, if it fails. The result has the lines of the parent and of the child.
\<close>

definition orphan_grp :: "bool \<Rightarrow> proc_ids \<Rightarrow> proc_ids \<Rightarrow> int \<Rightarrow> int option \<Rightarrow> (string list \<times> string list) c" where
  "orphan_grp fk parent child newparent rd =
     (let out = [pr_ids ''parent'' parent]
      in if \<not> fk then Inl (Exits (-1))
         else Inr (out, [pr_ids ''child'' child, sig_hup child, pr_ids ''child'' (child\<lparr>id_ppid := newparent\<rparr>)]
                @ (case rd of None \<Rightarrow> [] | Some e \<Rightarrow> [''read error '' @ dec e @ '' on controlling TTY'' @ [newline]])))"

definition system_secure :: "int \<Rightarrow> int \<Rightarrow> string" where
  "system_secure uid euid = ''real uid = '' @ dec uid @ '', effective uid = '' @ dec euid @ [newline]"

section \<open>The environment as a map\<close>

definition env_ok :: "environ \<Rightarrow> bool" where
  "env_ok env \<longleftrightarrow> distinct (map env_name env) \<and> (\<forall>e\<in>set env. CHR ''='' \<in> set e)"

definition env_map :: "environ \<Rightarrow> string \<rightharpoonup> string" where
  "env_map env = map_of (map (\<lambda>e. (env_name e, env_value e)) env)"

lemma env_map_None: "env_map env n = None \<longleftrightarrow> n \<notin> env_name ` set env"
  by (simp add: env_map_def map_of_eq_None_iff image_image)

lemma add_to_environ_names: "env_name ` set (add_to_environ s env) = insert (env_name s) (env_name ` set env)"
  by (induction env) auto

lemma add_to_environ_map:
  "env_map (add_to_environ s env) = (env_map env)(env_name s \<mapsto> env_value s)"
  by (induction env) (auto simp: env_map_def)

lemma add_to_environ_ok:
  assumes "env_ok env" and "CHR ''='' \<in> set s"
  shows "env_ok (add_to_environ s env)"
  using assms
proof (induction env)
  case (Cons e env)
  then show ?case using add_to_environ_names [of s env] by (auto simp: env_ok_def)
qed (simp add: env_ok_def)

lemma unsetenv_map: "env_map (unsetenv n env) = (env_map env)(n := None)"
  by (induction env) (auto simp: env_map_def unsetenv_def)

lemma unsetenv_ok: "env_ok env \<Longrightarrow> env_ok (unsetenv n env)"
  by (auto simp: env_ok_def unsetenv_def distinct_map_filter)

lemma env_name_no_eq: "CHR ''='' \<notin> set s \<Longrightarrow> env_name s = s"
  by (auto simp: env_name_def takeWhile_eq_all_conv)

lemma env_name_setting: "CHR ''='' \<notin> set n \<Longrightarrow> env_name (n @ ''='' @ v) = n" "CHR ''='' \<notin> set n \<Longrightarrow> env_value (n @ ''='' @ v) = v"
  by (auto simp: env_name_def env_value_def takeWhile_append takeWhile_eq_all_conv dropWhile_append)

text \<open>What an argument does to the variables.\<close>

definition env_assign :: "string \<Rightarrow> (string \<rightharpoonup> string) \<Rightarrow> (string \<rightharpoonup> string)" where
  "env_assign a m = m(env_name a := if CHR ''='' \<in> set a then Some (env_value a) else None)"

lemma putenv_map: "env_map (putenv s env) = env_assign s (env_map env)"
  by (simp add: putenv_def env_assign_def add_to_environ_map unsetenv_map env_name_no_eq)

lemma putenv_ok: "env_ok env \<Longrightarrow> env_ok (putenv s env)"
  by (simp add: putenv_def add_to_environ_ok unsetenv_ok)

lemma putenv_args_all:
  assumes "env_ok env"
  shows "\<exists>env'. putenv_args (map (\<lambda>a. (a, True)) as) env = Inr env' \<and> env_ok env' \<and> env_map env' = fold env_assign as (env_map env)"
  using assms
proof (induction as arbitrary: env)
  case (Cons a as)
  then show ?case using Cons.IH [OF putenv_ok [OF Cons.prems, of a]] by (simp add: putenv_map)
qed simp

text \<open>
  C29: \<open>modify_env.c\<close> as operations on a map. The lines printed are those of an environment in which every name is
  set once, and whose variables are the ones the arguments leave: the last setting of a name counts, and an argument without \<open>=\<close> removes it. Then \<open>GREET\<close>
  gets its default value if it is not set, and \<open>BYE\<close> is removed.
\<close>

theorem modify_env_refines:
  "\<exists>env. modify_env (map (\<lambda>a. (a, True)) args) True = Inr (print_env env) \<and> distinct (map env_name env)
    \<and> env_map env = (let m = fold env_assign args (\<lambda>n. None) in (if m ''GREET'' = None then m(''GREET'' \<mapsto> ''Hello world'') else m)(''BYE'' := None))"
proof -
  have "env_ok []" by (simp add: env_ok_def)
  from putenv_args_all [OF this] obtain env where env: "putenv_args (map (\<lambda>a. (a, True)) args) [] = Inr env" "env_ok env"
    "env_map env = fold env_assign args (env_map [])" by blast
  have nil: "env_map [] = (\<lambda>n. None)" by (simp add: env_map_def)
  let ?env = "setenv ''GREET'' ''Hello world'' False env"
  have g: "env_name (''GREET'' @ ''='' @ ''Hello world'') = ''GREET''" "env_value (''GREET'' @ ''='' @ ''Hello world'') = ''Hello world''"
    by (rule env_name_setting; simp)+
  have "env_map ?env = (if env_map env ''GREET'' = None then (env_map env)(''GREET'' \<mapsto> ''Hello world'') else env_map env)"
    unfolding setenv_def env_map_None using g by (simp add: add_to_environ_map del: append.simps)
  moreover have "env_ok ?env" unfolding setenv_def using env(2) add_to_environ_ok [OF env(2), of "''GREET'' @ ''='' @ ''Hello world''"] by simp
  ultimately show ?thesis using env nil unsetenv_map [of "''BYE''" ?env] unsetenv_ok [of ?env "''BYE''"]
    by (intro exI [of _ "unsetenv ''BYE'' ?env"]) (simp add: modify_env_def env_ok_def Let_def)
qed

section \<open>Arguments over exec\<close>

lemma interpreter_demo_output:
  assumes "file echoall_path"
  shows "interpreter_demo True True file = Inr (echoall [echoall_path, ''foo'', ''./testinterp'', ''myarg1'', ''MY ARG2''])"
proof -
  have "interp_argv testinterp ''./testinterp'' [''testinterp'', ''myarg1'', ''MY ARG2''] =
    Some (echoall_path, [echoall_path, ''foo'', ''./testinterp'', ''myarg1'', ''MY ARG2''])"
    by (simp add: interp_argv_def shebang_def testinterp_def echoall_path_def Let_def)
  then show ?thesis using assms by (simp add: interpreter_demo_def exec_round_def)
qed

lemma exec_demo_output:
  "exec_demo (True, True) (True, True) file path =
     Inr ((if file echoall_path then echoall [''echoall'', ''myarg1'', ''MY ARG2''] else [])
        @ (case path of Some p \<Rightarrow> if file p then echoall [''echoall'', ''only 1 arg''] else [] | None \<Rightarrow> []))"
  by (simp add: exec_demo_def exec_round_def split: option.split)

section \<open>Buffers over fork\<close>

lemma stdio_printf_tty: "fb_buf p = [] \<Longrightarrow> stdio_printf True (l @ [newline]) (p, out) = (p, out @ l @ [newline])"
  by (simp add: stdio_printf_def)

lemma stdio_printf_file: "stdio_printf False l (p, out) = (p\<lparr>fb_buf := fb_buf p @ l\<rparr>, out)"
  by (simp add: stdio_printf_def Let_def)

lemma dec_numerals: "dec 0 = ''0''" "dec 6 = ''6''" "dec 7 = ''7''" "dec 88 = ''88''" "dec 89 = ''89''"
  by code_simp+

lemma fork_lines:
  "globalvar p = 7 \<Longrightarrow> var p = 89 \<Longrightarrow> fork_line 0 p = ''pid = 0, globalvar = 7, var = 89'' @ [newline]"
  "globalvar p = 6 \<Longrightarrow> var p = 88 \<Longrightarrow> fork_line pid p = (''pid = '' @ dec pid @ '', globalvar = 6, var = 88'') @ [newline]"
  by (simp_all add: fork_line_def dec_numerals)

text \<open>
  What \<open>fork_buf.c\<close> writes. The child has its own copy of both variables. On a terminal the line from before the \<open>fork\<close> is written
  once; into a file it is written twice, since the child has a copy of the buffer too. The line of \<open>write\<close> comes first in both cases.
\<close>

lemma fork_buf_output:
  "fork_buf tty True child first = (if child < 0 then (-1, ''a write to stdout'' @ [newline] @ ''before fork'' @ [newline])
     else (0, ''a write to stdout'' @ [newline] @ (let b = ''before fork'' @ [newline];
        c = ''pid = 0, globalvar = 7, var = 89'' @ [newline]; p = ''pid = '' @ dec child @ '', globalvar = 6, var = 88'' @ [newline]
        in if tty then b @ (if first then c @ p else p @ c)
           else if first then b @ c @ b @ p else b @ p @ b @ c)))"
proof (cases tty)
  case True
  then show ?thesis unfolding fork_buf_def Let_def
    by (simp add: stdio_printf_tty fork_lines stdio_exit_def del: append_Cons append.simps append_assoc)
next
  case False
  then show ?thesis unfolding fork_buf_def Let_def
    by (simp add: stdio_printf_file fork_lines stdio_exit_def)
qed

lemma vfork_demo_output:
  "0 \<le> child \<Longrightarrow> vfork_demo tty child = (0, ''before vfork'' @ [newline] @ ''pid = '' @ dec child @ '', glob = 7, var = 89'' @ [newline])"
proof -
  have "globalvar p = 7 \<Longrightarrow> var p = 89 \<Longrightarrow> vfork_line child p = (''pid = '' @ dec child @ '', glob = 7, var = 89'') @ [newline]" for p
    by (simp add: vfork_line_def dec_numerals)
  then show "0 \<le> child \<Longrightarrow> ?thesis" unfolding vfork_demo_def Let_def
    by (cases tty) (simp_all add: stdio_printf_tty [of _ "''before vfork''"] stdio_printf_tty [of _ "''pid = '' @ dec child @ '', glob = 7, var = 89''"] stdio_printf_file stdio_exit_def del: append_Cons append.simps append_assoc)
qed

section \<open>Exit handlers and jumps\<close>

lemma atexit_demo_order:
  "atexit_demo True True True = (0, [''At Exit Demo!'' @ [newline], clear_onexit2, clear_onexit1, clear_onexit1])"
  "atexit_demo True False ok3 = (-1, [''At Exit Demo!'' @ [newline], clear_onexit1])"
  by (simp_all add: atexit_demo_def run_atexit_def)

lemma longjmp_output:
  "jmp_switch (Suc (Suc fuel)) argc 0 [] = Some [''Calling f1() after initial setjmp()'' @ [newline],
     (if argc = 1 then ''We jumped back from f1()'' else ''We jumped back from f2()'') @ [newline]]"
  by (simp add: jmp_f1_def jmp_f2_def)

section \<open>No zombies\<close>

definition nz_life_msr :: "nz_life \<Rightarrow> nat" where
  "nz_life_msr l = (case l of NzNone \<Rightarrow> 0 | NzRun \<Rightarrow> 3 | NzPrinted \<Rightarrow> 2 | NzZombie \<Rightarrow> 1 | NzGone \<Rightarrow> 0)"

definition nz_msr :: "nz_sys \<Rightarrow> nat" where
  "nz_msr s = nz_life_msr (nz_child s) + nz_life_msr (nz_second s) + (if nz_forked s then 0 else 4)"

definition nz_inv :: "bool \<Rightarrow> int \<Rightarrow> nz_sys \<Rightarrow> bool" where
  "nz_inv fk pid s \<longleftrightarrow> nz_child s \<in> {NzRun, NzZombie, NzGone} \<and> (nz_done s \<longleftrightarrow> nz_child s = NzGone)
     \<and> (nz_second s = NzNone \<longleftrightarrow> \<not> nz_forked s) \<and> (nz_forked s \<longrightarrow> fk) \<and> (fk \<and> nz_child s \<noteq> NzRun \<longrightarrow> nz_forked s)
     \<and> (nz_ppid s = None \<longleftrightarrow> nz_second s \<in> {NzNone, NzRun}) \<and> nz_ppid s \<in> {None, Some pid, Some 1}"

interpretation orphan: terminating_system "\<lambda>s. s = nz_start" "nz_step fk pid" "nz_inv fk pid" nz_msr for fk pid
proof unfold_locales
  show "nz_inv fk pid s" if "s = nz_start" for s using that by (simp add: nz_inv_def nz_start_def)
  show "nz_inv fk pid t" if "nz_inv fk pid s" "nz_step fk pid s t" for s t
    using that(2,1) by cases (auto simp: nz_inv_def)
  show "nz_msr t < nz_msr s" if "nz_inv fk pid s" "nz_step fk pid s t" for s t
    using that(2,1) by cases (auto simp: nz_inv_def nz_msr_def nz_life_msr_def split: nz_life.splits)
qed

text \<open>
  C30: \<open>no_zombie.c\<close>, in every order of the steps of its processes. A run has at most seven steps, and where it stops the parent
  has ended and no process is left unwaited for: the parent waits for the first child, and the second one, if it could be created, is an orphan that
  process 1 waits for. It printed 1, or the number of the first child if that had not ended yet.
\<close>

theorem no_zombie_left:
  assumes "(nz_step fk pid ^^ n) nz_start s"
  shows "n \<le> 7 \<and> ((\<exists>t. nz_step fk pid s t) \<or> nz_done s \<and> nz_child s = NzGone \<and> nz_second s = (if fk then NzGone else NzNone)
    \<and> (if fk then nz_ppid s = Some pid \<or> nz_ppid s = Some 1 else nz_ppid s = None))"
proof -
  have inv: "nz_inv fk pid s" using orphan.inv_reachable [OF refl relpowp_imp_rtranclp [OF assms]] .
  have "n + nz_msr s \<le> nz_msr nz_start" using orphan.run_length [OF assms orphan.inv_init [OF refl]] .
  then have "n \<le> 7" by (simp add: nz_msr_def nz_start_def nz_life_msr_def)
  moreover have ?thesis if stuck: "\<nexists>t. nz_step fk pid s t"
  proof -
    have c: "nz_child s = NzGone"
      using stuck inv nz_fork [of s fk pid] nz_fork_fails [of s fk pid] nz_exit [of s fk pid] nz_waitpid [of s fk pid] by (cases fk) (auto simp: nz_inv_def)
    have "nz_second s \<in> {NzNone, NzGone}"
      using stuck c nz_print [of s fk pid] nz_second_exit [of s fk pid] nz_init_waits [of s fk pid] by (cases "nz_second s") auto
    then show ?thesis using inv c \<open>n \<le> 7\<close> by (auto simp: nz_inv_def)
  qed
  ultimately show ?thesis by blast
qed

theorem no_zombie_left_witness:
  "\<exists>s. (nz_step True 5 ^^ 6) nz_start s \<and> nz_child s = NzGone \<and> nz_second s = NzGone \<and> nz_done s"
proof -
  define s1 where "s1 = nz_start\<lparr>nz_forked := True, nz_second := NzRun\<rparr>"
  define s2 where "s2 = s1\<lparr>nz_child := NzZombie\<rparr>"
  define s3 where "s3 = s2\<lparr>nz_second := NzPrinted, nz_ppid := Some 1\<rparr>"
  define s4 where "s4 = s3\<lparr>nz_child := NzGone, nz_done := True\<rparr>"
  define s5 where "s5 = s4\<lparr>nz_second := NzZombie\<rparr>"
  define s6 where "s6 = s5\<lparr>nz_second := NzGone\<rparr>"
  note defs = nz_start_def s1_def s2_def s3_def s4_def s5_def s6_def
  have "nz_step True 5 nz_start s1" unfolding s1_def by (rule nz_fork) (simp_all add: defs)
  moreover have "nz_step True 5 s1 s2" unfolding s2_def by (rule nz_exit) (simp_all add: defs)
  moreover have "nz_step True 5 s2 s3" using nz_print [of s2 True 5] by (simp add: defs)
  moreover have "nz_step True 5 s3 s4" unfolding s4_def by (rule nz_waitpid) (simp_all add: defs)
  moreover have "nz_step True 5 s4 s5" unfolding s5_def by (rule nz_second_exit) (simp_all add: defs)
  moreover have "nz_step True 5 s5 s6" unfolding s6_def by (rule nz_init_waits) (simp_all add: defs)
  ultimately have "(nz_step True 5 ^^ Suc (Suc (Suc (Suc (Suc (Suc 0)))))) nz_start s6" by (blast intro: relpowp_Suc_I2 relpowp_0_I)
  then have run: "(nz_step True 5 ^^ 6) nz_start s6" by (simp add: eval_nat_numeral del: relpowp.simps)
  have "\<nexists>t. nz_step True 5 s6 t" by (auto simp: defs elim: nz_step.cases)
  then show ?thesis using no_zombie_left [OF run] run by auto
qed

end
