(* ===== verification/File_Attributes.thy ===== *)
theory File_Attributes
  imports C_Text "HOL-Library.Word"
begin

text \<open>
  Programs that read and set the attributes of files: their type (\<open>file_io/lstat_demo.c\<close>), device numbers (\<open>devno.c\<close>), status flags
  (\<open>fcntl_test.c\<close>), access rights (\<open>access_demo.c\<close>) and times (\<open>futimens_demo.c\<close>). The lemmas show that the tests on the mode bits tell all
  types apart, that device numbers are printed as they were composed, and that truncating a file keeps its times to the microsecond.
\<close>

unbundle bit_operations_syntax

section \<open>File types\<close>

type_synonym mode = "32 word"

definition S_IFMT :: mode where "S_IFMT = 0xF000"
definition S_IFREG :: mode where "S_IFREG = 0x8000"
definition S_IFDIR :: mode where "S_IFDIR = 0x4000"
definition S_IFCHR :: mode where "S_IFCHR = 0x2000"
definition S_IFBLK :: mode where "S_IFBLK = 0x6000"
definition S_IFIFO :: mode where "S_IFIFO = 0x1000"
definition S_IFLNK :: mode where "S_IFLNK = 0xA000"
definition S_IFSOCK :: mode where "S_IFSOCK = 0xC000"

definition S_ISTYPE :: "mode \<Rightarrow> mode \<Rightarrow> bool" where
  "S_ISTYPE m t \<longleftrightarrow> m AND S_IFMT = t"

definition lstat_type :: "mode \<Rightarrow> string" where
  "lstat_type m =
     (if S_ISTYPE m S_IFREG then ''regular file''
      else if S_ISTYPE m S_IFDIR then ''diretory''
      else if S_ISTYPE m S_IFCHR then ''character special''
      else if S_ISTYPE m S_IFBLK then ''block special''
      else if S_ISTYPE m S_IFIFO then ''fifo''
      else if S_ISTYPE m S_IFLNK then ''symbolic link''
      else if S_ISTYPE m S_IFSOCK then ''socket''
      else ''** unknown mode **'')"

text \<open>The loop over the arguments; \<open>lstat\<close> gives the mode of a path, or fails.\<close>

fun lstat_demo :: "(string \<Rightarrow> mode option) \<Rightarrow> string list \<Rightarrow> string \<Rightarrow> string c" where
  "lstat_demo lstat [] out = Inr out"
| "lstat_demo lstat (a # as) out =
     (case lstat a of None \<Rightarrow> Inl (Exits (-1)) | Some m \<Rightarrow> lstat_demo lstat as (out @ a @ '': '' @ lstat_type m @ [newline]))"

section \<open>Device numbers\<close>

type_synonym dev_t = "64 word"

text \<open>The macros of the C library: the lower 8 bits of the minor number, 12 bits of the major number, and the upper bits of both.\<close>

definition dev_major :: "dev_t \<Rightarrow> 32 word" where
  "dev_major d = ucast ((drop_bit 8 d AND 0xFFF) OR (drop_bit 32 d AND 0xFFFFF000))"

definition dev_minor :: "dev_t \<Rightarrow> 32 word" where
  "dev_minor d = ucast ((d AND 0xFF) OR (drop_bit 12 d AND 0xFFFFFF00))"

definition makedev :: "32 word \<Rightarrow> 32 word \<Rightarrow> dev_t" where
  "makedev ma mi = push_bit 8 (ucast ma AND 0xFFF) OR push_bit 32 (ucast ma AND 0xFFFFF000) OR (ucast mi AND 0xFF) OR push_bit 12 (ucast mi AND 0xFFFFFF00)"

text \<open>\<open>%d\<close> of an unsigned number.\<close>

definition dev_pair :: "dev_t \<Rightarrow> string" where
  "dev_pair d = dec (sint (dev_major d)) @ ''/'' @ dec (sint (dev_minor d))"

record devstat =
  st_dev :: dev_t
  st_rdev :: dev_t
  st_mode :: mode

definition devno_line :: "devstat \<Rightarrow> string" where
  "devno_line st = ''dev = '' @ dev_pair (st_dev st)
     @ (if S_ISTYPE (st_mode st) S_IFCHR \<or> S_ISTYPE (st_mode st) S_IFBLK
        then '' ('' @ (if S_ISTYPE (st_mode st) S_IFCHR then ''character'' else ''block'') @ '') rdev = '' @ dev_pair (st_rdev st) else [])
     @ [newline]"

text \<open>A file that cannot be examined is skipped, after its name was printed.\<close>

definition devno :: "(string \<Rightarrow> devstat option) \<Rightarrow> string list \<Rightarrow> string" where
  "devno stat as = concat (map (\<lambda>a. a @ '': '' @ (case stat a of None \<Rightarrow> [] | Some st \<Rightarrow> devno_line st)) as)"

section \<open>Status flags\<close>

definition O_ACCMODE :: "32 word" where "O_ACCMODE = 3"
definition O_RDONLY :: "32 word" where "O_RDONLY = 0"
definition O_WRONLY :: "32 word" where "O_WRONLY = 1"
definition O_RDWR :: "32 word" where "O_RDWR = 2"
definition O_APPEND :: "32 word" where "O_APPEND = 0x400"
definition O_NONBLOCK :: "32 word" where "O_NONBLOCK = 0x800"
definition O_SYNC :: "32 word" where "O_SYNC = 0x101000"
definition O_DSYNC :: "32 word" where "O_DSYNC = 0x1000"
definition O_RSYNC :: "32 word" where "O_RSYNC = 0x101000"

definition access_mode :: "32 word \<Rightarrow> string" where
  "access_mode val =
     (let m = val AND O_ACCMODE
      in if m = O_RDONLY then ''read only'' else if m = O_WRONLY then ''write only'' else if m = O_RDWR then ''read write'' else ''unknown access mode'')"

definition fcntl_flags :: "32 word \<Rightarrow> string list" where
  "fcntl_flags val =
     (if val AND O_APPEND \<noteq> 0 then ['', append''] else [])
     @ (if val AND O_NONBLOCK \<noteq> 0 then ['', nonblocking''] else [])
     @ (if val AND O_SYNC \<noteq> 0 then ['', synchronous writes (data & properties)''] else [])
     @ (if val AND O_DSYNC \<noteq> 0 then ['', synchronous writes (data only)''] else [])
     @ (if val AND O_RSYNC \<noteq> 0 then ['', synchronous reads and write''] else [])"

text \<open>\<open>getfl\<close> is what \<open>fcntl\<close> returns for a descriptor, negative when it fails.\<close>

definition fcntl_test :: "(int \<Rightarrow> int) \<Rightarrow> string list \<Rightarrow> string c" where
  "fcntl_test getfl argv =
     (if length argv \<noteq> 2 then Inl (Exits 127)
      else (let val = getfl (atoi (argv ! 1))
            in if val < 0 then Inl (Exits (-1))
               else Inr (access_mode (word_of_int val) @ concat (fcntl_flags (word_of_int val)) @ [newline])))"

section \<open>Access rights\<close>

text \<open>\<open>acc\<close> and \<open>opn\<close> have the error number of \<open>access\<close> and \<open>open\<close>, or \<open>None\<close>; the two parts of the result are standard output and error.\<close>

definition access_demo :: "(int \<Rightarrow> string) \<Rightarrow> (string \<Rightarrow> int option) \<Rightarrow> (string \<Rightarrow> int option) \<Rightarrow> string list \<Rightarrow> (string \<times> string) c" where
  "access_demo strerror acc opn argv =
     (if length argv \<noteq> 2 then Inl (Exits 127)
      else (let p = argv ! 1;
                (o1, e1) = (case acc p of Some n \<Rightarrow> ([], ''access error for '' @ p @ '': '' @ strerror n @ [newline]) | None \<Rightarrow> (''read access OK'' @ [newline], []));
                (o2, e2) = (case opn p of Some n \<Rightarrow> ([], ''open error for '' @ p @ '': '' @ strerror n @ [newline]) | None \<Rightarrow> (''open for reading OK'' @ [newline], []))
            in Inr (o1 @ o2, e1 @ e2)))"

section \<open>Times\<close>

type_synonym timespec = "int \<times> int"

record inode =
  i_data :: string
  i_atime :: timespec
  i_mtime :: timespec
  i_write :: bool

type_synonym files = "string \<rightharpoonup> inode"

text \<open>\<open>open\<close> with \<open>O_TRUNC\<close> at the time \<open>now\<close>, and \<open>futimes\<close>, which takes microseconds.\<close>

definition open_trunc :: "timespec \<Rightarrow> inode \<Rightarrow> inode" where
  "open_trunc now f = f\<lparr>i_data := [], i_mtime := now\<rparr>"

definition timeval :: "timespec \<Rightarrow> int \<times> int" where
  "timeval ts = (fst ts, snd ts div 1000)"

definition futimes :: "(int \<times> int) \<times> (int \<times> int) \<Rightarrow> inode \<Rightarrow> inode" where
  "futimes tv f = f\<lparr>i_atime := (fst (fst tv), snd (fst tv) * 1000), i_mtime := (fst (snd tv), snd (snd tv) * 1000)\<rparr>"

text \<open>One argument; \<open>ok\<close> says whether \<open>futimes\<close> works. A file that does not exist or cannot be opened is skipped.\<close>

definition futimens_file :: "timespec \<Rightarrow> bool \<Rightarrow> string \<Rightarrow> files \<Rightarrow> files" where
  "futimens_file now ok a fs = (case fs a of None \<Rightarrow> fs
     | Some f \<Rightarrow> if \<not> i_write f then fs
         else (let tv = (timeval (i_atime f), timeval (i_mtime f)); f1 = open_trunc now f
               in fs(a \<mapsto> (if ok then futimes tv f1 else f1))))"

definition futimens_demo :: "timespec \<Rightarrow> (string \<Rightarrow> bool) \<Rightarrow> string list \<Rightarrow> files \<Rightarrow> files c" where
  "futimens_demo now ok argv fs =
     (if length argv < 2 then Inl (Exits 1) else Inr (fold (\<lambda>a. futimens_file now (ok a) a) (tl argv) fs))"

section \<open>Lemmas\<close>

definition file_types :: "(mode \<times> string) list" where
  "file_types = [(S_IFREG, ''regular file''), (S_IFDIR, ''diretory''), (S_IFCHR, ''character special''), (S_IFBLK, ''block special''),
     (S_IFIFO, ''fifo''), (S_IFLNK, ''symbolic link''), (S_IFSOCK, ''socket'')]"

lemma mode_type:
  assumes "t AND S_IFMT = t" and "perm AND S_IFMT = 0"
  shows "(t OR perm) AND S_IFMT = t"
  using assms by (simp add: and.commute [of _ S_IFMT] bit.conj_disj_distrib)

lemmas S_defs = S_IFREG_def S_IFDIR_def S_IFCHR_def S_IFBLK_def S_IFIFO_def S_IFLNK_def S_IFSOCK_def

lemma type_bits:
  "S_IFREG AND S_IFMT = S_IFREG" "S_IFDIR AND S_IFMT = S_IFDIR" "S_IFCHR AND S_IFMT = S_IFCHR" "S_IFBLK AND S_IFMT = S_IFBLK"
  "S_IFIFO AND S_IFMT = S_IFIFO" "S_IFLNK AND S_IFMT = S_IFLNK" "S_IFSOCK AND S_IFMT = S_IFSOCK"
  by (simp_all add: S_defs S_IFMT_def)

text \<open>The name printed is that of the type, whatever the permission bits.\<close>

lemma lstat_type_correct:
  assumes "(t, name) \<in> set file_types" and "perm AND S_IFMT = 0"
  shows "lstat_type (t OR perm) = name"
proof -
  have t: "t = S_IFREG \<and> name = ''regular file'' \<or> t = S_IFDIR \<and> name = ''diretory'' \<or> t = S_IFCHR \<and> name = ''character special''
      \<or> t = S_IFBLK \<and> name = ''block special'' \<or> t = S_IFIFO \<and> name = ''fifo'' \<or> t = S_IFLNK \<and> name = ''symbolic link'' \<or> t = S_IFSOCK \<and> name = ''socket''"
    using assms(1) unfolding file_types_def by (simp only: list.set insert_iff prod.inject empty_iff simp_thms)
  then have "t AND S_IFMT = t" using type_bits by (elim disjE conjE) simp_all
  then have st: "S_ISTYPE (t OR perm) u \<longleftrightarrow> t = u" for u using mode_type [OF _ assms(2)] by (simp add: S_ISTYPE_def)
  have ne: "S_IFDIR \<noteq> S_IFREG" "S_IFCHR \<noteq> S_IFREG" "S_IFCHR \<noteq> S_IFDIR" "S_IFBLK \<noteq> S_IFREG" "S_IFBLK \<noteq> S_IFDIR" "S_IFBLK \<noteq> S_IFCHR"
    "S_IFIFO \<noteq> S_IFREG" "S_IFIFO \<noteq> S_IFDIR" "S_IFIFO \<noteq> S_IFCHR" "S_IFIFO \<noteq> S_IFBLK"
    "S_IFLNK \<noteq> S_IFREG" "S_IFLNK \<noteq> S_IFDIR" "S_IFLNK \<noteq> S_IFCHR" "S_IFLNK \<noteq> S_IFBLK" "S_IFLNK \<noteq> S_IFIFO"
    "S_IFSOCK \<noteq> S_IFREG" "S_IFSOCK \<noteq> S_IFDIR" "S_IFSOCK \<noteq> S_IFCHR" "S_IFSOCK \<noteq> S_IFBLK" "S_IFSOCK \<noteq> S_IFIFO" "S_IFSOCK \<noteq> S_IFLNK"
    by (simp_all add: S_defs)
  show ?thesis unfolding lstat_type_def st using t by (elim disjE conjE) (simp_all add: ne)
qed

text \<open>The masks of the device numbers as ranges of bits.\<close>

lemma dev_masks:
  "bit (0xFFF :: 64 word) n \<longleftrightarrow> n < 12" "bit (0xFF :: 64 word) n \<longleftrightarrow> n < 8"
  "bit (0xFFFFF000 :: 64 word) n \<longleftrightarrow> 12 \<le> n \<and> n < 32" "bit (0xFFFFFF00 :: 64 word) n \<longleftrightarrow> 8 \<le> n \<and> n < 32"
proof -
  have 1: "(0xFFF :: 64 word) = mask 12" and 2: "(0xFF :: 64 word) = mask 8" by (simp_all add: mask_eq_exp_minus_1)
  show "bit (0xFFF :: 64 word) n \<longleftrightarrow> n < 12" unfolding 1 bit_mask_iff by auto
  show "bit (0xFF :: 64 word) n \<longleftrightarrow> n < 8" unfolding 2 bit_mask_iff by auto
  have 3: "(0xFFFFF000 :: 64 word) = push_bit 12 (mask 20)" and 4: "(0xFFFFFF00 :: 64 word) = push_bit 8 (mask 24)"
    by (simp_all add: mask_eq_exp_minus_1 push_bit_eq_mult)
  show "bit (0xFFFFF000 :: 64 word) n \<longleftrightarrow> 12 \<le> n \<and> n < 32" unfolding 3 bit_push_bit_iff bit_mask_iff by auto
  show "bit (0xFFFFFF00 :: 64 word) n \<longleftrightarrow> 8 \<le> n \<and> n < 32" unfolding 4 bit_push_bit_iff bit_mask_iff by auto
qed

lemmas dev_bits = bit_or_iff bit_and_iff bit_push_bit_iff bit_drop_bit_eq bit_ucast_iff dev_masks comp_def

lemma makedev_bit:
  "bit (makedev ma mi) n \<longleftrightarrow> n < 64 \<and> (8 \<le> n \<and> n < 20 \<and> bit ma (n - 8) \<or> 44 \<le> n \<and> bit ma (n - 32) \<or> n < 8 \<and> bit mi n \<or> 20 \<le> n \<and> n < 44 \<and> bit mi (n - 12))"
proof -
  consider "n < 8" | "8 \<le> n" "n < 20" | "20 \<le> n" "n < 44" | "44 \<le> n" "n < 64" | "64 \<le> n" by linarith
  then show ?thesis unfolding makedev_def dev_bits by cases (simp_all, auto)
qed

lemma dev_numbers: "dev_major (makedev ma mi) = ma" "dev_minor (makedev ma mi) = mi"
proof -
  show "dev_major (makedev ma mi) = ma"
  proof (rule bit_word_eqI)
    fix n
    assume "n < LENGTH(32)"
    then show "bit (dev_major (makedev ma mi)) n = bit ma n"
      unfolding dev_major_def dev_bits makedev_bit by (cases "n < 12") simp_all
  qed
  show "dev_minor (makedev ma mi) = mi"
  proof (rule bit_word_eqI)
    fix n
    assume "n < LENGTH(32)"
    then show "bit (dev_minor (makedev ma mi)) n = bit mi n"
      unfolding dev_minor_def dev_bits makedev_bit by (cases "n < 8") simp_all
  qed
qed

text \<open>
  \<open>devno.c\<close> prints a device number as it was composed, for a character or block device and any other file, whatever the permission
  bits: the parts of \<open>makedev\<close> are read back, and shown as signed numbers.
\<close>

lemma devno_prints_parts:
  assumes "perm AND S_IFMT = 0" and that: "t AND S_IFMT = t"
  shows "devno (\<lambda>p. Some \<lparr>st_dev = makedev ma mi, st_rdev = makedev rma rmi, st_mode = t OR perm\<rparr>) [a] =
    a @ '': dev = '' @ dec (sint ma) @ ''/'' @ dec (sint mi)
    @ (if t = S_IFCHR then '' (character) rdev = '' @ dec (sint rma) @ ''/'' @ dec (sint rmi)
       else if t = S_IFBLK then '' (block) rdev = '' @ dec (sint rma) @ ''/'' @ dec (sint rmi) else []) @ [newline]"
proof -
  define m where "m = t OR perm"
  have st: "S_ISTYPE m u \<longleftrightarrow> t = u" for u using mode_type [OF that assms(1)] by (simp add: S_ISTYPE_def m_def)
  have "S_IFCHR \<noteq> S_IFBLK" by (simp add: S_defs)
  then show ?thesis unfolding m_def [symmetric] devno_def devno_line_def dev_pair_def by (simp add: dev_numbers st)
qed

text \<open>
  On Linux \<open>O_SYNC\<close> contains the bit of \<open>O_DSYNC\<close>, and \<open>O_RSYNC\<close> is the same value: a descriptor with \<open>O_DSYNC\<close> alone is reported with all three.
\<close>

lemma dsync_reported_as_sync:
  "fcntl_flags O_DSYNC = ['', synchronous writes (data & properties)'', '', synchronous writes (data only)'', '', synchronous reads and write'']"
  by (simp add: fcntl_flags_def O_APPEND_def O_NONBLOCK_def O_SYNC_def O_DSYNC_def O_RSYNC_def)

lemma fcntl_plain_flags:
  assumes "val AND O_SYNC = 0"
  shows "fcntl_flags val = (if val AND O_APPEND \<noteq> 0 then ['', append''] else []) @ (if val AND O_NONBLOCK \<noteq> 0 then ['', nonblocking''] else [])"
proof -
  have d: "O_SYNC AND O_DSYNC = O_DSYNC" and r: "O_RSYNC = O_SYNC" by (simp_all add: O_SYNC_def O_DSYNC_def O_RSYNC_def)
  have "val AND O_DSYNC = (val AND O_SYNC) AND O_DSYNC" unfolding and.assoc d ..
  then have "val AND O_DSYNC = 0" using assms by simp
  moreover have "val AND O_RSYNC = 0" unfolding r by (rule assms)
  ultimately show ?thesis using assms by (simp add: fcntl_flags_def)
qed

text \<open>What a run leaves of a file.\<close>

definition kept_to_usec :: "timespec \<Rightarrow> timespec \<Rightarrow> bool" where
  "kept_to_usec t t' \<longleftrightarrow> fst t' = fst t \<and> 0 \<le> snd t - snd t' \<and> snd t - snd t' < 1000"

definition usec :: "timespec \<Rightarrow> timespec" where
  "usec t = (fst t, snd t div 1000 * 1000)"

lemma futimens_file_ok:
  "fs a = Some f \<Longrightarrow> i_write f \<Longrightarrow> futimens_file now True a fs = fs(a \<mapsto> f\<lparr>i_data := [], i_atime := usec (i_atime f), i_mtime := usec (i_mtime f)\<rparr>)"
  by (simp add: futimens_file_def futimes_def open_trunc_def timeval_def usec_def Let_def)

lemma futimens_file_skip: "fs a = None \<or> (\<exists>f. fs a = Some f \<and> \<not> i_write f) \<Longrightarrow> futimens_file now ok a fs = fs"
  by (auto simp: futimens_file_def)

lemma usec_twice [simp]: "usec (usec t) = usec t"
  by (simp add: usec_def)

lemma usec_kept: "kept_to_usec t (usec t)"
proof -
  have "snd t - snd t div 1000 * 1000 = snd t mod 1000" by (simp add: minus_div_mult_eq_mod)
  then show ?thesis by (simp add: kept_to_usec_def usec_def)
qed

definition futimens_result :: "string list \<Rightarrow> files \<Rightarrow> files" where
  "futimens_result as fs p = (case fs p of None \<Rightarrow> None
     | Some f \<Rightarrow> Some (if p \<in> set as \<and> i_write f then f\<lparr>i_data := [], i_atime := usec (i_atime f), i_mtime := usec (i_mtime f)\<rparr> else f))"

lemma futimens_files: "fold (\<lambda>a. futimens_file now True a) as fs = futimens_result as fs"
proof (induction as arbitrary: fs)
  case Nil
  then show ?case by (auto simp: futimens_result_def split: option.splits)
next
  case (Cons a as)
  have "futimens_result as (futimens_file now True a fs) p = futimens_result (a # as) fs p" for p
  proof (cases "\<exists>f. fs a = Some f \<and> i_write f")
    case True
    then obtain f where f: "fs a = Some f" "i_write f" by blast
    show ?thesis unfolding futimens_file_ok [of fs a f now, OF f] using f by (cases "p = a") (auto simp: futimens_result_def split: option.splits)
  next
    case False
    then have "futimens_file now True a fs = fs" by (intro futimens_file_skip) (cases "fs a", auto)
    then show ?thesis using False by (auto simp: futimens_result_def split: option.splits)
  qed
  then show ?case using Cons.IH by auto
qed

text \<open>
  \<open>futimens_demo.c\<close> empties the files it is given and keeps their times. Every file named that exists and may be written is empty afterwards, and
  both of its times are those from before, to the microsecond below, although opening it has changed one of them; every other file is as
  before, also if a name occurs twice.
\<close>

lemma futimens_keeps_times:
  assumes "argv = prog # a # as"
  shows "\<exists>fs'. futimens_demo now (\<lambda>a. True) argv fs = Inr fs' \<and> (\<forall>p f. fs p = Some f \<longrightarrow> (\<exists>f'. fs' p = Some f'
      \<and> (if p \<in> set (a # as) \<and> i_write f then i_data f' = [] \<and> kept_to_usec (i_atime f) (i_atime f') \<and> kept_to_usec (i_mtime f) (i_mtime f') else f' = f)))
    \<and> (\<forall>p. fs p = None \<longrightarrow> fs' p = None)"
  using assms usec_kept by (auto simp: futimens_demo_def futimens_files futimens_result_def simp del: fold.simps)

end
