(* ===== verification/Std_Streams.thy ===== *)
theory Std_Streams
  imports C_Buffer C_Text "HOL-Library.Word"
begin

text \<open>
  The buffers of the standard library: a stream over memory (\<open>std_io/memio.c\<close>), the kind of buffer of a stream (\<open>std_io/stdio_bufprop.c\<close>), and
  temporary files (\<open>std_io/tempfile.c\<close>).
\<close>

unbundle bit_operations_syntax

section \<open>A stream over memory\<close>

text \<open>A stream of \<open>fmemopen\<close> over an array: its position and size, and the text that was not written to the array yet.\<close>

record memf =
  mf_mem :: cbuf
  mf_pos :: nat
  mf_len :: nat
  mf_pend :: string

definition BSZ :: nat where
  "BSZ = 48"

text \<open>Mode \<open>w+\<close> truncates: the first character becomes a terminator.\<close>

definition fmemopen :: "cbuf \<Rightarrow> memf c" where
  "fmemopen b = bindE (aset b 0 (Some nul)) (\<lambda>b'. Inr \<lparr>mf_mem = b', mf_pos = 0, mf_len = 0, mf_pend = []\<rparr>)"

definition mem_fprintf :: "string \<Rightarrow> memf \<Rightarrow> memf" where
  "mem_fprintf xs f = f\<lparr>mf_pend := mf_pend f @ xs\<rparr>"

text \<open>Writing the pending text; a terminator follows it if the stream has grown and there is room for one.\<close>

definition mem_fflush :: "memf \<Rightarrow> memf" where
  "mem_fflush f =
     (let xs = take (length (mf_mem f) - mf_pos f) (mf_pend f); p = mf_pos f + length xs;
          m = take (mf_pos f) (mf_mem f) @ map Some xs @ drop p (mf_mem f)
      in f\<lparr>mf_mem := (if mf_len f < p \<and> p < length m then m[p := Some nul] else m), mf_pos := p, mf_len := max (mf_len f) p, mf_pend := []\<rparr>)"

definition mem_rewind :: "memf \<Rightarrow> memf" where
  "mem_rewind f = (mem_fflush f)\<lparr>mf_pos := 0\<rparr>"

text \<open>\<open>memset\<close> and the two assignments behind it.\<close>

definition mem_fill :: "char \<Rightarrow> cbuf \<Rightarrow> cbuf c" where
  "mem_fill x b =
     bindE (if BSZ - 2 \<le> length b then Inr (replicate (BSZ - 2) (Some x) @ drop (BSZ - 2) b) else Inl OutOfBounds) (\<lambda>b1.
     bindE (aset b1 (BSZ - 2) (Some nul)) (\<lambda>b2. aset b2 (BSZ - 1) (Some (CHR ''X''))))"

definition mem_refill :: "char \<Rightarrow> memf stmt" where
  "mem_refill x f = bindE (mem_fill x (mf_mem f)) (\<lambda>b. Inr (f\<lparr>mf_mem := b\<rparr>))"

definition mem_show :: "string \<Rightarrow> memf \<Rightarrow> string c" where
  "mem_show what f = bindE (c_str (mf_mem f)) (\<lambda>xs. Inr (what @ '': '' @ xs @ [newline]))"

definition mem_strlen :: "memf \<Rightarrow> string c" where
  "mem_strlen f = bindE (c_str (mf_mem f)) (\<lambda>xs. Inr (''len of string in buf: '' @ dec (int (length xs)) @ [newline]))"

definition memio_main :: "bool \<Rightarrow> string list c" where
  "memio_main opened =
     bindE (mem_fill (CHR ''a'') (replicate BSZ None)) (\<lambda>b.
     if \<not> opened then Inl (Exits (-1)) else
     bindE (fmemopen b) (\<lambda>f0. bindE (mem_show ''initial buffer contents'' f0) (\<lambda>l1.
     let f1 = mem_fprintf '', hi'' (mem_fprintf ''hello, world'' f0) in
     bindE (mem_show ''before flush'' f1) (\<lambda>l2. let f2 = mem_fflush f1 in
     bindE (mem_show ''after flush'' f2) (\<lambda>l3. bindE (mem_strlen f2) (\<lambda>l4.
     bindE (mem_refill (CHR ''b'') f2) (\<lambda>f3. let f4 = mem_rewind (mem_fprintf ''hello, world'' f3) in
     bindE (mem_show ''after seek'' f4) (\<lambda>l5. bindE (mem_strlen f4) (\<lambda>l6.
     bindE (mem_refill (CHR ''c'') f4) (\<lambda>f5. let f6 = mem_fflush (mem_fprintf ''hello, world'' f5) in
     bindE (mem_show ''after close'' f6) (\<lambda>l7. bindE (mem_strlen f6) (\<lambda>l8. Inr [l1, l2, l3, l4, l5, l6, l7, l8]))))))))))))"

section \<open>The kind of a buffer\<close>

text \<open>The fields of a stream the program reads, and the bits the library keeps in \<open>_flags\<close>.\<close>

record FILE =
  FILE_flags :: "32 word"
  IO_buf_base :: int
  IO_buf_end :: int

definition IOLBF :: "32 word" where "IOLBF = 1"
definition IONBF :: "32 word" where "IONBF = 2"
definition IO_USER_BUF :: "32 word" where "IO_USER_BUF = 0x1"
definition IO_UNBUFFERED :: "32 word" where "IO_UNBUFFERED = 0x2"
definition IO_LINE_BUF :: "32 word" where "IO_LINE_BUF = 0x200"

definition is_unbuffered :: "FILE \<Rightarrow> bool" where
  "is_unbuffered fp \<longleftrightarrow> FILE_flags fp AND IONBF \<noteq> 0"

definition is_linebuffered :: "FILE \<Rightarrow> bool" where
  "is_linebuffered fp \<longleftrightarrow> FILE_flags fp AND IOLBF \<noteq> 0"

definition buffer_size :: "FILE \<Rightarrow> int" where
  "buffer_size fp = IO_buf_end fp - IO_buf_base fp"

definition pr_stdio :: "string \<Rightarrow> FILE \<Rightarrow> string" where
  "pr_stdio name fp = ''stream = '' @ name @ '', ''
     @ (if is_unbuffered fp then ''unbuffered'' else if is_linebuffered fp then ''line buffered'' else ''fully buffered'')
     @ '', buffer size = '' @ dec (buffer_size fp) @ [newline]"

text \<open>\<open>c1\<close> and \<open>c2\<close>: whether a character can be read from \<open>stdin\<close> and from the file; \<open>fp\<close> is the stream of the file, if it can be opened.\<close>

definition stdio_bufprop :: "bool \<Rightarrow> FILE \<Rightarrow> FILE \<Rightarrow> FILE \<Rightarrow> FILE option \<Rightarrow> bool \<Rightarrow> string list c" where
  "stdio_bufprop c1 stdin stdout stderr fp c2 =
     (if \<not> c1 then Inl (Exits (-1))
      else (let out = [''enter any character'' @ [newline], pr_stdio ''stdin'' stdin, pr_stdio ''stdout'' stdout, pr_stdio ''stderr'' stderr]
        in case fp of None \<Rightarrow> Inl (Exits (-1))
           | Some f \<Rightarrow> if \<not> c2 then Inl (Exits (-1)) else Inr (out @ [pr_stdio ''/etc/passwd'' f])))"

section \<open>Temporary files\<close>

text \<open>How the program can end early: by \<open>exit\<close>, or because \<open>mkstemp\<close> stores the name it has chosen into a string literal.\<close>

datatype temp_end = TempExit int | WriteToLiteral

record temp_sys =
  tmp_files :: "string set"
  tmp_out :: "string list"

text \<open>
  \<open>mk\<close>: the name \<open>mkstemp\<close> makes of the template, or \<open>None\<close> when it fails; \<open>err\<close>: the error of \<open>stat\<close>, if it has one.
\<close>

datatype stat_err = ENOENT | StatOther

definition tmp_say :: "string \<Rightarrow> temp_sys \<Rightarrow> temp_sys" where
  "tmp_say l s = s\<lparr>tmp_out := tmp_out s @ [l @ [newline]]\<rparr>"

definition make_temp :: "bool \<Rightarrow> (string \<Rightarrow> string option) \<Rightarrow> stat_err option \<Rightarrow> string \<Rightarrow> temp_sys \<Rightarrow> temp_end + temp_sys" where
  "make_temp writable mk err template s =
     (if \<not> writable then Inl WriteToLiteral
      else case mk template of None \<Rightarrow> Inl (TempExit (-1))
      | Some name \<Rightarrow>
          (let s1 = tmp_say (''temp name = '' @ name) (s\<lparr>tmp_files := insert name (tmp_files s)\<rparr>)
           in bindE (case err of None \<Rightarrow> Inr s1
                 | Some ENOENT \<Rightarrow> Inr (tmp_say ''file doesn't exist'' s1)
                 | Some StatOther \<Rightarrow> Inl (TempExit (-1)))
               (\<lambda>s2. let s3 = tmp_say ''file exists'' s2 in Inr (s3\<lparr>tmp_files := tmp_files s3 - {name}\<rparr>))))"

definition tempfile_main :: "(string \<Rightarrow> string option) \<Rightarrow> stat_err option \<Rightarrow> temp_sys \<Rightarrow> temp_end + temp_sys" where
  "tempfile_main mk err s =
     bindE (make_temp True mk err ''/tmp/dirXXXXXX'' (tmp_say ''trying to create first temp file...'' s)) (\<lambda>s1.
       make_temp False mk err ''tmp/dirXXXXXX'' (tmp_say ''trying to create second temp file...'' s1))"

section \<open>Lemmas\<close>

text \<open>What a flush puts into the array, when the text fits.\<close>

lemma mem_fflush_stores:
  assumes "mf_pos f + length (mf_pend f) < length (mf_mem f)" and "mf_len f < mf_pos f + length (mf_pend f)"
  shows "mf_mem (mem_fflush f) = take (mf_pos f) (mf_mem f) @ map Some (mf_pend f) @ Some nul # drop (Suc (mf_pos f + length (mf_pend f))) (mf_mem f)"
proof -
  let ?p = "mf_pos f + length (mf_pend f)"
  have t: "take (length (mf_mem f) - mf_pos f) (mf_pend f) = mf_pend f" using assms by simp
  have d: "drop ?p (mf_mem f) = mf_mem f ! ?p # drop (Suc ?p) (mf_mem f)" using assms by (intro Cons_nth_drop_Suc [symmetric]) simp
  have u: "(take (mf_pos f) (mf_mem f) @ map Some (mf_pend f) @ x # r)[?p := Some nul] = take (mf_pos f) (mf_mem f) @ map Some (mf_pend f) @ Some nul # r" for x r
    using assms by (simp add: list_update_append)
  show ?thesis using assms unfolding mem_fflush_def Let_def t by (auto simp: d u)
qed

text \<open>
  The lines of \<open>memio.c\<close>. Text that was not flushed is not in the array; a flush puts it there with a terminator. Text
  written behind the end after the array was overwritten leaves what was put there before it, and text written over the middle of the
  stream gets no terminator, so that the rest of the array shows.
\<close>

lemma memio_output:
  "memio_main True = Inr [''initial buffer contents: '' @ [newline], ''before flush: '' @ [newline], ''after flush: hello, world, hi'' @ [newline], ''len of string in buf: 16'' @ [newline],
    ''after seek: '' @ replicate 16 (CHR ''b'') @ ''hello, world'' @ [newline], ''len of string in buf: 28'' @ [newline],
    ''after close: hello, world'' @ replicate 34 (CHR ''c'') @ [newline], ''len of string in buf: 46'' @ [newline]]"
  by code_simp

text \<open>
  The flags of the library and the constants of \<open>setvbuf\<close> agree on unbuffered streams only: a line buffered stream is reported as fully buffered, and a fully
  buffered one whose buffer the program has set as line buffered.
\<close>

lemma unbuffered_reported: "FILE_flags fp AND IO_UNBUFFERED \<noteq> 0 \<longleftrightarrow> is_unbuffered fp"
  by (simp add: is_unbuffered_def IONBF_def IO_UNBUFFERED_def)

lemma line_buffered_misreported:
  "pr_stdio name \<lparr>FILE_flags = IO_LINE_BUF, IO_buf_base = a, IO_buf_end = b\<rparr> = ''stream = '' @ name @ '', fully buffered, buffer size = '' @ dec (b - a) @ [newline]"
  "pr_stdio name \<lparr>FILE_flags = IO_USER_BUF, IO_buf_base = a, IO_buf_end = b\<rparr> = ''stream = '' @ name @ '', line buffered, buffer size = '' @ dec (b - a) @ [newline]"
  by (simp_all add: pr_stdio_def is_unbuffered_def is_linebuffered_def buffer_size_def IO_LINE_BUF_def IO_USER_BUF_def IONBF_def IOLBF_def)

text \<open>The first file is created and removed again; the second call then stores into a literal. A file that does not exist is reported as existing, too.\<close>

lemma tempfile_ends:
  "mk ''/tmp/dirXXXXXX'' = Some name \<Longrightarrow> tempfile_main mk None s = Inl WriteToLiteral"
  by (simp add: tempfile_main_def make_temp_def Let_def)

lemma make_temp_missing:
  assumes "mk template = Some name" and "name \<notin> tmp_files s"
  shows "make_temp True mk (Some ENOENT) template s =
    Inr (s\<lparr>tmp_out := tmp_out s @ [''temp name = '' @ name @ [newline], ''file doesn't exist'' @ [newline], ''file exists'' @ [newline]]\<rparr>)"
  using assms by (simp add: make_temp_def tmp_say_def Let_def)

end
