(* ===== verification/System_Info.thy ===== *)
theory System_Info
  imports C_Text
begin

text \<open>
  Programs over the clock and the password file: \<open>sys_info/getpwnam_demo.c\<close>, \<open>sys_info/time_demo.c\<close> and \<open>pthread/timedlock.c\<close>.
\<close>

section \<open>The password file\<close>

record passwd =
  pw_name :: string
  pw_passwd :: string
  pw_uid :: int
  pw_gid :: int
  pw_gecos :: string
  pw_dir :: string
  pw_shell :: string

text \<open>The loop over the entries that \<open>getpwent\<close> returns one after the other; \<open>None\<close> is the null pointer.\<close>

fun getpwdname_ent :: "string \<Rightarrow> passwd list \<Rightarrow> passwd option" where
  "getpwdname_ent name [] = None"
| "getpwdname_ent name (p # ps) = (if pw_name p = name then Some p else getpwdname_ent name ps)"

definition passwd_text :: "passwd \<Rightarrow> string" where
  "passwd_text p = ''name: '' @ pw_name p @ [newline] @ ''passwd: '' @ pw_passwd p @ [newline] @ ''uid: '' @ dec (pw_uid p) @ [newline]
     @ ''gid: '' @ dec (pw_gid p) @ [newline] @ ''ecos: '' @ pw_gecos p @ [newline] @ ''home: '' @ pw_dir p @ [newline] @ ''shell: '' @ pw_shell p @ [newline]"

definition getpwnam_main :: "passwd list \<Rightarrow> string c" where
  "getpwnam_main ps = (case getpwdname_ent ''zach41'' ps of None \<Rightarrow> Inl NullDeref | Some p \<Rightarrow> Inr (passwd_text p))"

section \<open>Dates\<close>

text \<open>A broken-down time, with the ranges the library promises.\<close>

record tm =
  tm_sec :: nat
  tm_min :: nat
  tm_hour :: nat
  tm_mday :: nat
  tm_mon :: nat
  tm_year :: nat
  tm_wday :: nat

definition tm_ok :: "tm \<Rightarrow> bool" where
  "tm_ok t \<longleftrightarrow> tm_sec t \<le> 60 \<and> tm_min t < 60 \<and> tm_hour t < 24 \<and> 1 \<le> tm_mday t \<and> tm_mday t \<le> 31 \<and> tm_mon t < 12 \<and> tm_year t \<le> 8099 \<and> tm_wday t < 7"

definition two_digits :: "nat \<Rightarrow> string" where
  "two_digits n = [digit (n div 10 mod 10), digit (n mod 10)]"

definition wday_names :: "string list" where
  "wday_names = [''Sun'', ''Mon'', ''Tue'', ''Wed'', ''Thu'', ''Fri'', ''Sat'']"

definition month_names :: "string list" where
  "month_names = [''Jan'', ''Feb'', ''Mar'', ''Apr'', ''May'', ''Jun'', ''Jul'', ''Aug'', ''Sep'', ''Oct'', ''Nov'', ''Dec'']"

text \<open>The conversions the programs use, in the C locale.\<close>

definition fmt_r :: "tm \<Rightarrow> string" where
  "fmt_r t = two_digits (if tm_hour t mod 12 = 0 then 12 else tm_hour t mod 12) @ '':'' @ two_digits (tm_min t) @ '':'' @ two_digits (tm_sec t)
     @ (if tm_hour t < 12 then '' AM'' else '' PM'')"

definition fmt_date :: "tm \<Rightarrow> string" where
  "fmt_date t = ''time and date: '' @ fmt_r t @ '', '' @ wday_names ! tm_wday t @ '' '' @ month_names ! tm_mon t @ '' '' @ two_digits (tm_mday t)
     @ '' '' @ dec (int (tm_year t) + 1900)"

text \<open>\<open>strftime\<close> stores the text if it fits with its terminator, and returns 0 otherwise.\<close>

definition strftime :: "nat \<Rightarrow> string \<Rightarrow> string option" where
  "strftime n xs = (if length xs < n then Some xs else None)"

definition time_line :: "nat \<Rightarrow> tm \<Rightarrow> string" where
  "time_line n t = (case strftime n (fmt_date t) of None \<Rightarrow> ''buffer length '' @ dec (int n) @ '' is too small'' | Some xs \<Rightarrow> xs) @ [newline]"

definition time_demo_main :: "tm \<Rightarrow> string list" where
  "time_demo_main t = [time_line 16 t, time_line 64 t]"

section \<open>A lock with a time limit\<close>

definition ETIMEDOUT :: int where
  "ETIMEDOUT = 110"

text \<open>
  \<open>pthread_mutex_timedlock\<close> at the time \<open>now\<close>, in seconds: a lock that is held, by this thread or another, is waited for until \<open>tout\<close>; nobody releases it here. The result has
  the error, the lock and the time of the return.
\<close>

definition pthread_mutex_timedlock :: "int \<Rightarrow> int \<Rightarrow> bool \<Rightarrow> int \<times> bool \<times> int" where
  "pthread_mutex_timedlock now tout held = (if held then (ETIMEDOUT, True, max now tout) else (0, True, now))"

text \<open>\<open>localtime\<close> breaks down a time; \<open>late\<close> is what passes until the clock is read again.\<close>

definition timedlock_main :: "(int \<Rightarrow> tm) \<Rightarrow> (int \<Rightarrow> string) \<Rightarrow> int \<Rightarrow> nat \<Rightarrow> string list" where
  "timedlock_main localtime strerror now late =
     (let held = True; (err, held', back) = pthread_mutex_timedlock now (now + 10) held
      in [''mutex is locked'' @ [newline], ''current time is '' @ fmt_r (localtime now) @ [newline],
          ''time now is '' @ fmt_r (localtime (back + int late)) @ [newline],
          (if err = 0 then ''pthread mutex locked again!'' else ''can't lock mutex again:'' @ strerror err) @ [newline]])"

section \<open>Lemmas\<close>

lemma getpwdname_ent_find: "getpwdname_ent name ps = find (\<lambda>p. pw_name p = name) ps"
  by (induction ps) auto

text \<open>The program uses the entry without testing that there is one.\<close>

lemma getpwnam_main_result:
  "getpwnam_main ps = (if \<exists>p\<in>set ps. pw_name p = ''zach41'' then Inr (passwd_text (hd (filter (\<lambda>p. pw_name p = ''zach41'') ps))) else Inl NullDeref)"
proof -
  have "getpwdname_ent n ps = (if \<exists>p\<in>set ps. pw_name p = n then Some (hd (filter (\<lambda>p. pw_name p = n) ps)) else None)" for n
    by (induction ps) auto
  then show ?thesis by (simp add: getpwnam_main_def)
qed

lemma length_names: "tm_ok t \<Longrightarrow> length (wday_names ! tm_wday t) = 3 \<and> length (month_names ! tm_mon t) = 3"
proof -
  have "\<forall>x\<in>set wday_names. length x = 3" "\<forall>x\<in>set month_names. length x = 3" by (simp_all add: wday_names_def month_names_def)
  moreover have "length wday_names = 7" "length month_names = 12" by (simp_all add: wday_names_def month_names_def)
  ultimately show "tm_ok t \<Longrightarrow> ?thesis" by (simp add: tm_ok_def)
qed

lemma length_fmt_r: "length (fmt_r t) = 11"
  by (simp add: fmt_r_def two_digits_def)

lemma length_fmt_date: "tm_ok t \<Longrightarrow> 40 \<le> length (fmt_date t) \<and> length (fmt_date t) \<le> 43"
proof -
  assume t: "tm_ok t"
  have "int (tm_year t) + 1900 = int (tm_year t + 1900)" by simp
  then have "dec (int (tm_year t) + 1900) = dec_nat (tm_year t + 1900)" by (simp add: dec_def nat_add_distrib)
  moreover have "length (dec_nat (tm_year t + 1900)) \<le> 4" by (rule length_dec_nat) (use t in \<open>simp_all add: tm_ok_def\<close>)
  moreover have "1 \<le> length (dec_nat (tm_year t + 1900))" by (simp add: Suc_le_eq)
  ultimately show ?thesis using length_names [OF t] by (simp add: fmt_date_def length_fmt_r two_digits_def)
qed

text \<open>
  The two buffers of \<open>time_demo.c\<close>. For every broken-down time the text needs at least 40 and at most 43 characters: the first
  buffer, of 16 characters, never takes it, and the program says so; the second one, of 64, always does, and the program prints it.
\<close>

lemma time_demo_sizes:
  assumes "tm_ok t"
  shows "time_demo_main t = [''buffer length 16 is too small'' @ [newline], fmt_date t @ [newline]] \<and> length (fmt_date t) \<le> 43"
proof -
  have "dec 16 = ''16''" by code_simp
  then show ?thesis using length_fmt_date [OF assms] by (simp add: time_demo_main_def time_line_def strftime_def)
qed

text \<open>The second attempt fails after the ten seconds, and the thread is not left waiting.\<close>

lemma timedlock_output:
  "timedlock_main localtime strerror now late =
     [''mutex is locked'' @ [newline], ''current time is '' @ fmt_r (localtime now) @ [newline],
      ''time now is '' @ fmt_r (localtime (now + 10 + int late)) @ [newline], ''can't lock mutex again:'' @ strerror ETIMEDOUT @ [newline]]"
  by (simp add: timedlock_main_def pthread_mutex_timedlock_def ETIMEDOUT_def max_def)

end
