(* ===== verification/Signal_Stacks.thy ===== *)
theory Signal_Stacks
  imports C_Text
begin

text \<open>
  Two programs on what a signal handler shares with the code it interrupts: the stack (\<open>signal/sigaltstack.c\<close>) and the static buffer of a library function
  (\<open>signal/reentrant.c\<close>).
\<close>

section \<open>The alternate stack\<close>

definition pad_left :: "nat \<Rightarrow> string \<Rightarrow> string" where
  "pad_left n s = replicate (n - length s) (CHR '' '') @ s"

text \<open>
  The machine: the size of the stack, what a call of \<open>overflowStack\<close> takes of it besides its array of 100000 characters, and the text \<open>%p\<close> prints for
  an object at a depth of the stack and for one on the alternate stack.
\<close>

record stack_env =
  sk_limit :: nat
  sk_extra :: nat
  sk_at :: "nat \<Rightarrow> string"
  sk_alt :: string

definition sk_frame :: "stack_env \<Rightarrow> nat" where
  "sk_frame e = 100000 + sk_extra e"

lemma sk_frame_pos [simp]: "0 < sk_frame e"
  by (simp add: sk_frame_def)

definition call_line :: "stack_env \<Rightarrow> nat \<Rightarrow> nat \<Rightarrow> string" where
  "call_line e callNum used = ''Call '' @ pad_left 4 (dec (int callNum)) @ '' - top of stack near '' @ pad_left 10 (sk_at e used) @ [newline]"

definition segv_lines :: "(nat \<Rightarrow> string) \<Rightarrow> stack_env \<Rightarrow> nat \<Rightarrow> string list" where
  "segv_lines strsignal e signo =
     [''Caught signal '' @ dec (int signo) @ '' ('' @ strsignal signo @ '')'' @ [newline], ''Top of handler stack near    '' @ pad_left 10 (sk_alt e) @ [newline]]"

definition SIGSEGV :: nat where
  "SIGSEGV = 11"

text \<open>
  \<open>overflowStack\<close>: when the stack has no room for another call, the handler runs on the alternate stack; it ends the process with status 1. The
  result has the lines and the status.
\<close>

function overflowStack :: "(nat \<Rightarrow> string) \<Rightarrow> stack_env \<Rightarrow> nat \<Rightarrow> nat \<Rightarrow> string list \<Rightarrow> string list \<times> int" where
  "overflowStack strsignal e callNum used out =
     (if sk_limit e < used + sk_frame e then (out @ segv_lines strsignal e SIGSEGV, 1)
      else overflowStack strsignal e (callNum + 1) (used + sk_frame e) (out @ [call_line e callNum (used + sk_frame e)]))"
  by pat_completeness auto
termination
proof (relation "measure (\<lambda>(strsignal, e, callNum, used, out). sk_limit e - used)", goal_cases)
  case (2 strsignal e callNum used out)
  then show ?case using sk_frame_pos [of e] by (simp del: sk_frame_pos)
qed simp

declare overflowStack.simps [simp del]

definition sigaltstack_main :: "(nat \<Rightarrow> string) \<Rightarrow> stack_env \<Rightarrow> bool \<Rightarrow> bool \<Rightarrow> bool \<Rightarrow> (string list \<times> int) c" where
  "sigaltstack_main strsignal e mal alt act =
     (let out = [''Top of standard stack near    '' @ pad_left 10 (sk_at e 0) @ [newline]]
      in if \<not> mal then Inl (Exits (-1)) else if \<not> alt then Inl (Exits (-1)) else if \<not> act then Inl (Exits (-1))
         else Inr (overflowStack strsignal e 1 0 out))"

lemma overflowStack_calls:
  "overflowStack strsignal e k used out =
    (out @ map (\<lambda>i. call_line e (k + i) (used + (i + 1) * sk_frame e)) [0..<(sk_limit e - used) div sk_frame e] @ segv_lines strsignal e SIGSEGV, 1)"
proof (induction strsignal e k used out rule: overflowStack.induct)
  case (1 strsignal e k used out)
  show ?case
  proof (cases "sk_limit e < used + sk_frame e")
    case True
    then have "(sk_limit e - used) div sk_frame e = 0" by (intro div_less) (use sk_frame_pos [of e] in linarith)
    then show ?thesis using True by (simp add: overflowStack.simps [of _ _ k])
  next
    case False
    have "(sk_limit e - used) div sk_frame e = Suc ((sk_limit e - (used + sk_frame e)) div sk_frame e)"
      using False div_add_self2 [of "sk_frame e" "sk_limit e - (used + sk_frame e)"] by (simp add: add.commute)
    moreover have "map f [0..<Suc n] = f 0 # map (\<lambda>i. f (Suc i)) [0..<n]" for f :: "nat \<Rightarrow> string" and n
      by (simp only: upt_conv_Cons map_Suc_upt [symmetric]) simp
    ultimately show ?thesis using False 1 by (simp add: overflowStack.simps [of _ _ k] algebra_simps del: upt_Suc)
  qed
qed

text \<open>
  The recursion ends: the process prints one line per call that fits the stack, then those of the handler, and exits with status 1.
\<close>

lemma sigaltstack_outcome:
  "sigaltstack_main strsignal e True True True =
    Inr ((''Top of standard stack near    '' @ pad_left 10 (sk_at e 0) @ [newline])
      # map (\<lambda>i. call_line e (1 + i) ((i + 1) * sk_frame e)) [0..<sk_limit e div sk_frame e] @ segv_lines strsignal e SIGSEGV, 1)"
  using overflowStack_calls [of strsignal e 1 0] by (simp add: sigaltstack_main_def)

section \<open>The static buffer\<close>

text \<open>
  The buffer \<open>crypt\<close> returns, the variables, and the lines printed. \<open>crypt\<close> is an argument of the model, and a call of it is one step.
\<close>

record reent =
  rn_buf :: string
  handled :: int
  mismatched :: int
  rn_out :: "string list"

definition rn_handler :: "(string \<Rightarrow> string \<Rightarrow> string) \<Rightarrow> string \<Rightarrow> reent \<Rightarrow> reent" where
  "rn_handler crypt str2 s = s\<lparr>rn_buf := crypt str2 ''xx'', handled := handled s + 1\<rparr>"

definition mismatch_line :: "int \<Rightarrow> reent \<Rightarrow> string" where
  "mismatch_line k s = ''Mismatch on call: '' @ dec k @ '' (mismatch='' @ dec (mismatched s) @ '' handled='' @ dec (handled s) @ '')'' @ [newline]"

text \<open>A round of the loop: \<open>a\<close> signals arrive before the call of \<open>crypt\<close>, and \<open>b\<close> between the call and the comparison.\<close>

definition rn_round :: "(string \<Rightarrow> string \<Rightarrow> string) \<Rightarrow> string \<Rightarrow> string \<Rightarrow> string \<Rightarrow> int \<Rightarrow> nat \<times> nat \<Rightarrow> reent \<Rightarrow> reent" where
  "rn_round crypt str1 str2 cr1 k r s =
     (let s1 = (rn_handler crypt str2 ^^ fst r) s;
          s2 = s1\<lparr>rn_buf := crypt str1 ''xx''\<rparr>;
          s3 = (rn_handler crypt str2 ^^ snd r) s2
      in if rn_buf s3 \<noteq> cr1 then (let s4 = s3\<lparr>mismatched := mismatched s3 + 1\<rparr> in s4\<lparr>rn_out := rn_out s4 @ [mismatch_line k s4]\<rparr>) else s3)"

fun rn_loop :: "(string \<Rightarrow> string \<Rightarrow> string) \<Rightarrow> string \<Rightarrow> string \<Rightarrow> string \<Rightarrow> int \<Rightarrow> (nat \<times> nat) list \<Rightarrow> reent stmt" where
  "rn_loop crypt str1 str2 cr1 k [] s = Inr s"
| "rn_loop crypt str1 str2 cr1 k (r # rs) s =
     (if \<not> in_int (k + 1) then Inl Overflow else rn_loop crypt str1 str2 cr1 (k + 1) rs (rn_round crypt str1 str2 cr1 k r s))"

text \<open>\<open>main\<close>, over the rounds \<open>rs\<close>; the copy in \<open>cr1\<close> is not in the buffer.\<close>

definition reentrant_main :: "(string \<Rightarrow> string \<Rightarrow> string) \<Rightarrow> bool \<Rightarrow> (nat \<times> nat) list \<Rightarrow> string list \<Rightarrow> reent c" where
  "reentrant_main crypt act rs argv =
     (if length argv \<noteq> 3 then Inl (Exits 0)
      else (let str1 = argv ! 1; str2 = argv ! 2; cr1 = crypt str1 ''xx''
            in if \<not> act then Inl (Exits (-1))
               else rn_loop crypt str1 str2 cr1 1 rs \<lparr>rn_buf = cr1, handled = 0, mismatched = 0, rn_out = []\<rparr>))"

lemma rn_handlers:
  "(rn_handler crypt str2 ^^ n) s = s\<lparr>rn_buf := (if n = 0 then rn_buf s else crypt str2 ''xx''), handled := handled s + int n\<rparr>"
  by (induction n) (auto simp: rn_handler_def)

lemma rn_round_counts:
  assumes "crypt str2 ''xx'' \<noteq> crypt str1 ''xx''"
  shows "handled (rn_round crypt str1 str2 (crypt str1 ''xx'') k r s) = handled s + int (fst r + snd r)"
    and "mismatched (rn_round crypt str1 str2 (crypt str1 ''xx'') k r s) = mismatched s + (if 0 < snd r then 1 else 0)"
    and "length (rn_out (rn_round crypt str1 str2 (crypt str1 ''xx'') k r s)) = length (rn_out s) + (if 0 < snd r then 1 else 0)"
  using assms by (simp_all add: rn_round_def rn_handlers Let_def)

lemma rn_loop_counts:
  assumes "crypt str2 ''xx'' \<noteq> crypt str1 ''xx''" and "1 \<le> k" and "k + int (length rs) < 2 ^ 31"
  shows "\<exists>s'. rn_loop crypt str1 str2 (crypt str1 ''xx'') k rs s = Inr s' \<and> handled s' = handled s + int (sum_list (map (\<lambda>r. fst r + snd r) rs))
    \<and> mismatched s' = mismatched s + int (length (filter (\<lambda>r. 0 < snd r) rs)) \<and> length (rn_out s') = length (rn_out s) + length (filter (\<lambda>r. 0 < snd r) rs)"
  using assms(2,3)
proof (induction rs arbitrary: k s)
  case (Cons r rs)
  have "in_int (k + 1)" using Cons.prems by (simp add: in_int_def)
  then show ?case using Cons.IH [of "k + 1" "rn_round crypt str1 str2 (crypt str1 ''xx'') k r s"] Cons.prems rn_round_counts [of crypt str2 str1 k r s, OF assms(1)] by auto
qed simp

text \<open>
  The mismatches \<open>reentrant.c\<close> counts. As long as the call counter fits its type, and if the two strings have different hashes, there
  is one mismatch, and one line, for every call in which a signal came between the call and the comparison, and no other; all signals are counted, so that
  there are never more mismatches than signals handled.
\<close>

lemma reentrant_mismatches:
  assumes "crypt str2 ''xx'' \<noteq> crypt str1 ''xx''" and "length rs < 2 ^ 31 - 1"
  shows "\<exists>s. reentrant_main crypt True rs [prog, str1, str2] = Inr s \<and> mismatched s = int (length (filter (\<lambda>r. 0 < snd r) rs))
    \<and> length (rn_out s) = length (filter (\<lambda>r. 0 < snd r) rs) \<and> handled s = int (sum_list (map (\<lambda>r. fst r + snd r) rs)) \<and> mismatched s \<le> handled s"
proof -
  have "int (length (filter (\<lambda>r. 0 < snd r) rs)) \<le> int (sum_list (map (\<lambda>r. fst r + snd r) rs))" by (induction rs) auto
  moreover have "1 + int (length rs) < 2 ^ 31" using assms(2) by simp
  ultimately show ?thesis using rn_loop_counts [of crypt str2 str1 1 rs "\<lparr>rn_buf = crypt str1 ''xx'', handled = 0, mismatched = 0, rn_out = []\<rparr>", OF assms(1)]
    by (auto simp: reentrant_main_def)
qed

end
