(* ===== verification/Spec2Isabelle.thy ===== *)
theory Spec2Isabelle
  imports Job_Queue_Threads Barrier_Sort Foo_Refcount Sem_Lock Lock_Deadlock Daemon Epoll Coprocess File_Copy Wait_Status Cond_Signal Timer_Lock Thread_Env Signal_Thread Thread_Ends Terminal
    Signal_Waits Process_Images File_Attributes Std_Streams System_Info Signal_Stacks
begin

text \<open>
  \<^bold>\<open>A verification of the UNIX demos.\<close>

  The repository is a collection of small C programs, each showing one interface of a UNIX system: threads and
  their locks, semaphores, record locks, pipes, FIFOs, mapped files, signals, daemons, event polling,
  terminals, file attributes, streams, and process control. The programs do not link with each other, apart from small helper files (\<open>IPC/sem_lock.c\<close>,
  \<open>flock/lock_reg.c\<close>, \<open>flock/tell_wait.c\<close>, \<open>pthread/pthread_functions.c\<close>), but some are made to run together
  (server and client in \<open>epoll_demo\<close>, \<open>coprocess.c\<close> and \<open>add2.c\<close>, \<open>pipe_filter.c\<close> and \<open>myuclc.c\<close>).
  Each program is a component here, in a theory of its own or with its partners.

  \<^bold>\<open>How the code is modelled.\<close> A C statement is a function from the state of its program to a fault or the new
  state (\<open>'s stmt\<close> in \<open>Unix_Prelude\<close>); the faults are a null or dangling pointer, an access outside an array, a
  use of something never stored, a signed overflow, the release of a lock that is not held, a call that blocks,
  and \<open>exit\<close>. Structures live on heaps, which are partial maps from addresses; a character array is a list of
  cells that may be empty (\<open>C_Buffer\<close>). Threads and processes are step relations with a program counter per
  thread, at the grain of one access to shared state per step, or of one call where a lock makes the call
  atomic. What the operating system answers (\<open>malloc\<close>, \<open>fork\<close>, \<open>read\<close>, \<open>pthread_create\<close>, the clock and so on)
  is an argument, and a theorem states what it assumes of it.

  \<^bold>\<open>Theories.\<close>

  \<^item> \<open>Unix_Prelude\<close>, \<open>C_Text\<close>, \<open>C_Buffer\<close>: faults and sequencing, a total-correctness calculus for statement
    lists, pointers, the two locales for transition systems (\<open>inductive_invariant\<close>, \<open>terminating_system\<close>) that
    every concurrent component interprets, decimal numbers as \<open>printf\<close> and \<open>atoi\<close> treat them, character arrays.

  \<^item> \<open>Job_Queue\<close>, \<open>Job_Queue_Threads\<close>: \<open>pthread/job_queue.c\<close>. The doubly linked queue refines a list under
    any sequence of \<open>job_insert\<close>, \<open>job_append\<close> and \<open>job_remove\<close>; \<open>job_find\<close> and \<open>traverse_jobs\<close> are correct and
    return; the inserting and the traversing thread are safe in every interleaving and do not deadlock.

  \<^item> \<open>Barrier_Sort\<close>: \<open>pthread/barrier_sort.c\<close> and \<open>pthread/norm_qsort.c\<close>. Workers, barrier and merge give what one
    sequential sort gives; the merge fails on arrays full of \<open>LONG_MAX\<close>.

  \<^item> \<open>Foo_Refcount\<close>: \<open>pthread/pthread_mutex.c\<close>. The calls refine a map of counts, and the exact interleavings in
    which an object is used after it was freed.

  \<^item> \<open>Cond_Signal\<close>: \<open>pthread/condition_signal.c\<close>. The hand-over of a task through a condition variable ends
    whatever the interleaving and the spurious wake-ups.

  \<^item> \<open>Timer_Lock\<close>: \<open>pthread/recursive_lock.c\<close> and \<open>makethread\<close>. When the delayed call happens, and when
    \<open>main\<close> waits forever.

  \<^item> \<open>Thread_Env\<close>: \<open>pthread/getenv_thr.c\<close>. The lookup agrees with an association list, per-thread arrays do not
    disturb each other, and values that are too long are left without a terminator.

  \<^item> \<open>Sem_Lock\<close>: \<open>IPC/sem_lock.c\<close> and its client \<open>IPC/semlock_test.c\<close>. Allocation ends with an own semaphore;
    the counter is exact and the threads end.

  \<^item> \<open>Record_Lock\<close>, \<open>Lock_Deadlock\<close>: \<open>flock/lock_reg.c\<close>, the macros of \<open>flock/flock_helpers.h\<close>, \<open>flock/tell_wait.c\<close>,
    \<open>flock/deadlock.c\<close> and \<open>proc_demos/race_cond.c\<close>. Byte-wise meaning of the lock table; the deadlock is
    certain and one process is refused; the order of the output of \<open>race_cond.c\<close>.

  \<^item> \<open>Daemon\<close>: \<open>daemon/daemonize.c\<close>. The state of the process after \<open>daemonize\<close>, one daemon at a time through the
    locked pid file (on top of \<open>Record_Lock\<close>), the signal thread.

  \<^item> \<open>Epoll\<close>: \<open>epoll_demo/epoll_server.c\<close> and \<open>epoll_demo/epoll_cli.c\<close>. In-bounds operation for short messages,
    exact echo of requests that do not overlap, and what happens otherwise. Client and server are composed
    below.

  \<^item> \<open>Pipe_Streams\<close>, \<open>Coprocess\<close>: \<open>IPC/fifo_demo.c\<close>, \<open>IPC/pipe_pager.c\<close>, \<open>IPC/popen_pager.c\<close>, \<open>IPC/pipe_filter.c\<close>,
    \<open>IPC/myuclc.c\<close>, \<open>IPC/add2.c\<close>, \<open>IPC/coprocess.c\<close> as functions on byte streams: what goes in comes out,
    with the losses and overruns the code has.

  \<^item> \<open>File_Copy\<close>: \<open>IPC/mmap_demo.c\<close> copies a file of any size.

  \<^item> \<open>Wait_Status\<close>: \<open>proc_demos/wait_demo.c\<close>, \<open>proc_demos/system_demo.c\<close>, \<open>proc_demos/time_demo.c\<close>. The bits of an
    exit status are read back as they were stored.

  \<^item> \<open>Signals\<close>: \<open>signal/signal_demo.c\<close>, \<open>signal/sig_sender.c\<close>, \<open>signal/sig_receiver.c\<close>, \<open>signal/rt_signal.c\<close>,
    \<open>signal/rt_sig_recv.c\<close>. What the receivers count and print of the signals the senders send while they are
    blocked; the locale \<open>signal_queue\<close> is what they need of the kernel's queue.

  \<^item> \<open>Signal_Thread\<close>: \<open>pthread/pthread_signal.c\<close>. The thread that waits for the signals of the process and wakes \<open>main\<close>
    through a condition variable: how the process ends for every sequence of signals and every interleaving.

  \<^item> \<open>Thread_Ends\<close>: \<open>pthread/pthread_exit.c\<close>, \<open>pthread/pthread_cleanup.c\<close>, \<open>pthread/pthread_cancel.c\<close>. The calls of a thread
    are data; whatever the interleaving, each thread prints and ends as it may alone, and the three programs end,
    with the cleanup handlers in reverse order where they run.

  \<^item> \<open>Signal_Waits\<close>: \<open>signal/sig_suspend.c\<close>, \<open>signal/sig_waitinfo.c\<close>, \<open>signal/sigjump.c\<close>, \<open>signal/sig_user.c\<close>. No handler
    runs in a critical section, queued signals are accepted in order (also those \<open>rt_signal.c\<close> has sent), and a
    jump out of a handler restores the mask.

  \<^item> \<open>Signal_Stacks\<close>: \<open>signal/sigaltstack.c\<close>, \<open>signal/reentrant.c\<close>. The recursion ends in the handler, and the
    mismatches are exactly the calls a signal has come in between.

  \<^item> \<open>Terminal\<close>: \<open>term_io\<close>. The password prompt reads without echo into its buffer, restores the terminal and the mask,
    and \<open>main\<close> clears the buffer; special characters, flow control and window sizes.

  \<^item> \<open>Process_Images\<close>: \<open>proc_demos/modify_env.c\<close>, \<open>print_env.c\<close>, \<open>exec_demo.c\<close>, \<open>interpreter_demo.c\<close>, \<open>testinterp\<close>,
    \<open>echoall.c\<close>, \<open>fork_buf.c\<close>, \<open>vfork_demo.c\<close>, \<open>atexit_demo.c\<close>, \<open>longjmp.c\<close>, \<open>no_zombie.c\<close>, \<open>orphan_grp.c\<close>, \<open>system_secure.c\<close>. The
    environment refines a map, buffers and variables are copied or shared, every child is waited for.

  \<^item> \<open>File_Attributes\<close>, \<open>Std_Streams\<close>, \<open>System_Info\<close>: \<open>file_io\<close>, \<open>std_io\<close>, \<open>sys_info\<close> and \<open>pthread/timedlock.c\<close>. Mode bits,
    device numbers, status flags and times; a stream over memory, the flags of streams, temporary files; the password file,
    dates and their buffers, a lock with a time limit.

  \<^bold>\<open>Bounds.\<close> Recursion is structural or has a termination proof, or is a partial function whose
  return is proved (\<open>alloc_loop\<close>, \<open>delay_loop\<close>, the traversals of the queue). Two functions have fuel: \<open>read_pass\<close>, where
  more fuel than the line has characters is proved to be enough, and none is if \<open>char\<close> is unsigned and the line has no
  end; and \<open>jmp_switch\<close>, where two rounds are. Statuses, event masks, mode bits and flags are 32-bit
  words, device numbers 64-bit words; array sizes and the number of jobs, threads and elements are the constants of the code. A run of a
  step relation has a length that is bounded by a measure, which the liveness theorems state. The number
  of spurious wake-ups in \<open>Cond_Signal\<close> and \<open>Signal_Thread\<close> is any number.

  \<^bold>\<open>Not modelled.\<close> \<open>signal/sig_reenter.c\<close> is not C as it stands, \<open>proc_demos/awkexample\<close> is an awk script, and the
  test drivers only call functions that are modelled. The copies of \<open>pr_exit\<close> in \<open>system_demo.c\<close> and \<open>time_demo.c\<close> and of
  the helper functions in \<open>epoll_cli.c\<close> are the same as the ones modelled and share their definitions. Output to the error
  stream, timing, and the scheduling of real time are left out throughout; memory is sequentially
  consistent.
\<close>

section \<open>Echo client and echo server together\<close>

unbundle bit_operations_syntax

text \<open>
  \<open>epoll_wait\<close> reports an event only for a descriptor that is registered for it; a program that waits
  for anything else goes on waiting.
\<close>

definition reported :: "epoll \<Rightarrow> event \<Rightarrow> bool" where
  "reported ep e \<longleftrightarrow> (case ep_interest ep (ev_fd e) of None \<Rightarrow> False | Some st \<Rightarrow> ev_events e AND st \<noteq> 0)"

definition cl_round :: "int \<Rightarrow> event \<Rightarrow> client stmt" where
  "cl_round sockfd e c = (if reported (cl_ep c) e then cl_handle_events sockfd [e] c else Inl Blocks)"

definition sv_round :: "int \<Rightarrow> event \<Rightarrow> server stmt" where
  "sv_round listenfd e s = (if reported (sv_ep s) e then handle_events listenfd [e] s else Inl Blocks)"

text \<open>
  One exchange: the client reads a line and sends it, the server reads what was sent and answers, the client
  reads the answer and prints it. The kernel takes every write whole (up to the size of the arrays) and
  delivers it with one read.
\<close>

definition exchange :: "int \<Rightarrow> int \<Rightarrow> int \<Rightarrow> string \<Rightarrow> (client \<times> server) stmt" where
  "exchange listenfd fd sockfd line = (\<lambda>(c, s).
     bindE (run_stmts [cl_round sockfd (in_event STDIN_FILENO line), cl_round sockfd (out_event sockfd MAXSIZE)] c) (\<lambda>c1.
       let req = snd (last (cl_sent c1)) in
       bindE (run_stmts [sv_round listenfd (in_event fd req), sv_round listenfd (out_event fd MAXSIZE)] s) (\<lambda>s1.
         let ans = snd (last (sv_sent s1)) in
         bindE (run_stmts [cl_round sockfd (in_event sockfd ans), cl_round sockfd (out_event STDOUT_FILENO MAXSIZE)] c1) (\<lambda>c2.
           Inr (c2, s1)))))"

text \<open>
  A session from the start of both programs: the server accepts the connection as \<open>fd\<close>, then the lines are
  typed one after the other, each when the one before it was printed. \<open>cfd\<close> and \<open>sfd\<close> are the epoll
  descriptors of client and server.
\<close>

definition accept_event :: "int \<Rightarrow> int \<Rightarrow> event" where
  "accept_event listenfd fd = \<lparr>ev_fd = listenfd, ev_events = EPOLLIN, an_accept = fd, an_read = None, an_write = None\<rparr>"

definition session :: "cbuf \<Rightarrow> int \<Rightarrow> int \<Rightarrow> int \<Rightarrow> int \<Rightarrow> int \<Rightarrow> string list \<Rightarrow> (client \<times> server) c" where
  "session b0 cfd sockfd sfd listenfd fd lines =
     bindE (server_main listenfd 0 sfd [Some [accept_event listenfd fd]]) (\<lambda>s.
     bindE (client_main b0 sockfd 1 cfd []) (\<lambda>c.
       run_stmts (map (exchange listenfd fd sockfd) lines) (c, s)))"

definition printed :: "client \<Rightarrow> string list" where
  "printed c = map snd (filter (\<lambda>(fd, m). fd = STDOUT_FILENO) (cl_sent c))"

definition sv_ready :: "int \<Rightarrow> int \<Rightarrow> server \<Rightarrow> bool" where
  "sv_ready listenfd fd s \<longleftrightarrow> fd \<noteq> listenfd \<and> fd \<in> ep_open (sv_ep s) \<and> ep_interest (sv_ep s) fd = Some EPOLLIN \<and> sv_buf s = cleared"

lemma reported_simps [simp]:
  "reported ep (in_event fd m) \<longleftrightarrow> (\<exists>st. ep_interest ep fd = Some st \<and> EPOLLIN AND st \<noteq> 0)"
  "reported ep (out_event fd n) \<longleftrightarrow> (\<exists>st. ep_interest ep fd = Some st \<and> EPOLLOUT AND st \<noteq> 0)"
  by (auto simp: reported_def in_event_def out_event_def split: option.splits)

text \<open>Two rounds that both find their event reported handle the two events in turn.\<close>

lemma cl_rounds:
  assumes "reported (cl_ep c) e" and "\<And>c1. cl_handle_events sockfd [e] c = Inr c1 \<Longrightarrow> reported (cl_ep c1) f"
  shows "run_stmts [cl_round sockfd e, cl_round sockfd f] c = cl_handle_events sockfd [e, f] c"
  using assms by (cases "cl_handle_event sockfd e c") (simp_all add: cl_round_def cl_handle_events_def)

lemma sv_rounds:
  assumes "reported (sv_ep s) e" and "\<And>s1. handle_events listenfd [e] s = Inr s1 \<Longrightarrow> reported (sv_ep s1) f"
  shows "run_stmts [sv_round listenfd e, sv_round listenfd f] s = handle_events listenfd [e, f] s"
  using assms by (cases "handle_event listenfd e s") (simp_all add: sv_round_def handle_events_def)

lemma send_rounds:
  assumes "ep_interest (cl_ep c) = [STDIN_FILENO \<mapsto> EPOLLIN]" and "sockfd \<in> ep_open (cl_ep c)" and "sockfd \<noteq> STDIN_FILENO"
  shows "run_stmts [cl_round sockfd (in_event STDIN_FILENO m), cl_round sockfd (out_event sockfd n)] c
    = cl_handle_events sockfd [in_event STDIN_FILENO m, out_event sockfd n] c"
  using assms by (intro cl_rounds) (auto simp: cl_defs bindE_eq_Inr split: if_splits)

lemma receive_rounds:
  assumes "ep_interest (cl_ep c) = [STDIN_FILENO \<mapsto> EPOLLIN, sockfd \<mapsto> EPOLLIN]" and "STDOUT_FILENO \<in> ep_open (cl_ep c)"
    and "sockfd \<noteq> STDIN_FILENO" "sockfd \<noteq> STDOUT_FILENO"
  shows "run_stmts [cl_round sockfd (in_event sockfd m), cl_round sockfd (out_event STDOUT_FILENO n)] c
    = cl_handle_events sockfd [in_event sockfd m, out_event STDOUT_FILENO n] c"
  using assms by (intro cl_rounds) (auto simp: cl_defs bindE_eq_Inr split: if_splits)

lemma serve_rounds:
  assumes "sv_ready listenfd fd s" and "m \<noteq> []"
  shows "run_stmts [sv_round listenfd (in_event fd m), sv_round listenfd (out_event fd n)] s
    = handle_events listenfd [in_event fd m, out_event fd n] s"
  using assms by (intro sv_rounds)
    (auto simp: sv_ready_def handle_events_def handle_event_def do_read_def sv_note_def modify_event_def bindE_eq_Inr split: if_splits)

text \<open>
  One exchange prints what the array of the client holds, up to its first terminator, after the line
  was read into it.
\<close>

lemma exchange_text:
  assumes c: "ep_interest (cl_ep c) = [STDIN_FILENO \<mapsto> EPOLLIN]" "{STDIN_FILENO, STDOUT_FILENO, sockfd} \<subseteq> ep_open (cl_ep c)"
    and s: "sv_ready listenfd fd s" and sock: "sockfd \<noteq> STDIN_FILENO" "sockfd \<noteq> STDOUT_FILENO"
    and m: "m \<noteq> []" "read_into m (cl_buf c) = Inr b" "c_str b = Inr t" "length b = MAXSIZE" "t \<noteq> []"
  shows "\<exists>c' s'. exchange listenfd fd sockfd m (c, s) = Inr (c', s') \<and> cl_idle sockfd c' \<and> sv_ready listenfd fd s'
    \<and> printed c' = printed c @ [t]"
proof -
  let ?c1 = "c\<lparr>cl_buf := cleared, cl_sent := cl_sent c @ [(sockfd, t)],
      cl_ep := (cl_ep c)\<lparr>ep_interest := [STDIN_FILENO \<mapsto> EPOLLIN, sockfd \<mapsto> EPOLLIN]\<rparr>\<rparr>"
  let ?c2 = "?c1\<lparr>cl_buf := cleared, cl_sent := cl_sent ?c1 @ [(STDOUT_FILENO, t)], cl_ep := (cl_ep ?c1)\<lparr>ep_interest := [STDIN_FILENO \<mapsto> EPOLLIN]\<rparr>\<rparr>"
  have t: "short_text t" "length t \<le> MAXSIZE" using c_str_no_nul [OF m(3)] m(4,5) by (simp_all add: short_text_def)
  have send: "run_stmts [cl_round sockfd (in_event STDIN_FILENO m), cl_round sockfd (out_event sockfd MAXSIZE)] c = Inr ?c1"
    using send_rounds [of c sockfd m MAXSIZE] cl_send_text [OF c sock m(1-4) t(2)] c sock by simp
  obtain s1 where s1: "handle_events listenfd [in_event fd t, out_event fd MAXSIZE] s = Inr s1"
    "sv_sent s1 = sv_sent s @ [(fd, t)]" "sv_buf s1 = cleared" "sv_ep s1 = sv_ep s"
    using serve_request [of fd listenfd s t MAXSIZE] s t by (auto simp: sv_ready_def)
  have answer: "run_stmts [cl_round sockfd (in_event sockfd t), cl_round sockfd (out_event STDOUT_FILENO MAXSIZE)] ?c1 = Inr ?c2"
    using receive_rounds [of ?c1 sockfd t MAXSIZE] cl_receive [of ?c1 sockfd t MAXSIZE] t sock c by simp
  have "exchange listenfd fd sockfd m (c, s) = Inr (?c2, s1)"
    using send answer serve_rounds [OF s m(5), of MAXSIZE] s1(1,2) by (simp del: run_stmts.simps add: exchange_def)
  moreover have "cl_idle sockfd ?c2" using c by (simp add: cl_idle_def)
  moreover have "sv_ready listenfd fd s1" using s s1(3,4) by (simp add: sv_ready_def)
  moreover have "printed ?c2 = printed c @ [t]" using sock by (simp add: printed_def)
  ultimately show ?thesis by blast
qed

lemma exchanges:
  assumes "cl_idle sockfd c" and "sv_ready listenfd fd s" and "\<forall>m\<in>set ms. short_text m"
    and sock: "sockfd \<noteq> STDIN_FILENO" "sockfd \<noteq> STDOUT_FILENO"
  shows "\<exists>c' s'. run_stmts (map (exchange listenfd fd sockfd) ms) (c, s) = Inr (c', s')
    \<and> cl_idle sockfd c' \<and> sv_ready listenfd fd s' \<and> printed c' = printed c @ ms"
  using assms(1-3)
proof (induction ms arbitrary: c s)
  case (Cons m ms)
  have m: "short_text m" "m \<noteq> []" using Cons.prems(3) by (simp_all add: short_text_def)
  obtain b where b: "read_into m cleared = Inr b" "c_str b = Inr m" "length b = MAXSIZE" using read_short [OF m(1)] by blast
  obtain c1 s1 where 1: "exchange listenfd fd sockfd m (c, s) = Inr (c1, s1)" "cl_idle sockfd c1" "sv_ready listenfd fd s1"
      "printed c1 = printed c @ [m]"
    using exchange_text [of c sockfd listenfd fd s m b m] Cons.prems b m(2) sock by (auto simp: cl_idle_def)
  with Cons.IH [OF 1(2,3)] Cons.prems(3) show ?case by auto
qed simp

text \<open>What the first line leaves behind it in the array, up to the first terminator.\<close>

definition left_behind :: "string \<Rightarrow> string \<Rightarrow> string" where
  "left_behind g m = takeWhile (\<lambda>x. x \<noteq> nul) (drop (length m) g)"

lemma read_first:
  assumes "length g = MAXSIZE" and "short_text m" and "nul \<in> set (drop (length m) g)"
  shows "\<exists>b. read_into m (map Some g) = Inr b \<and> c_str b = Inr (m @ left_behind g m) \<and> length b = MAXSIZE"
proof -
  have "\<forall>x\<in>set m. x \<noteq> nul" using assms(2) by (auto simp: short_text_def)
  then have "takeWhile (\<lambda>x. x \<noteq> nul) (m @ drop (length m) g) = m @ left_behind g m"
    unfolding left_behind_def by (subst takeWhile_append2) auto
  then have "c_str (map Some (m @ drop (length m) g)) = Inr (m @ left_behind g m)"
    unfolding c_str_map_Some using assms by simp
  then show ?thesis using assms by (simp add: read_into_def short_text_def drop_map)
qed


definition stack_bytes :: string where
  "stack_bytes = replicate 7 (CHR ''x'') @ replicate 1017 nul"


end
